(* ===== verification/Prelude.thy ===== *)
theory Prelude
  imports Main "HOL-Library.Word"
begin

unbundle bit_operations_syntax

text \<open>
  What every component of the development shares: the machine integers of the
  target, the outcome type of a Rust computation (a value, or the panic that ended
  it), and lemmas on words and association-like maps.

  The delay queue is compiled for the 32-bit WebAssembly target, so
  \<open>usize\<close> has 32 bits here. A debug build panics on an integer overflow
  and evaluates \<open>debug_assert!\<close>; a release build wraps around and leaves the assertion
  out. Definitions where the two differ take the build as an argument.
\<close>

type_synonym u8 = "8 word"
type_synonym u32 = "32 word"
type_synonym u64 = "64 word"
type_synonym usize = "32 word"

datatype build = Debug | Release

text \<open>
  The ways a computation can end without a value. All but the last are panics;
  \<open>Diverges\<close> is the outcome of a loop that never ends.
\<close>

datatype fault =
    Overflow
  | Index_Out_Of_Bounds
  | Assert_Failed
  | Debug_Assert_Failed
  | Invalid_Key
  | Invalid_Index usize
  | Slab_Invalid_Key usize
  | Slab_Full
  | Max_Entries_Exceeded
  | Invalid_Deadline
  | Time_Overflow
  | Unwrap_None
  | Expect_Failed
  | Memory_Missing
  | Global_Missing
  | Undecodable_Request
  | Unaddressable_Request
  | Unreadable_Prediction
  | Http_Client_Panic
  | Capacity_Overflow
  | Unreachable
  | Diverges

type_synonym 'a res = "fault + 'a"

named_theorems res_simps \<open>equations of the outcome combinators\<close>

definition rbind :: "'a res \<Rightarrow> ('a \<Rightarrow> 'b res) \<Rightarrow> 'b res" where
  "rbind m f = (case m of Inl e \<Rightarrow> Inl e | Inr x \<Rightarrow> f x)"

lemma rbind_simps [simp, res_simps]:
  "rbind (Inl e) f = Inl e" "rbind (Inr x) f = f x"
  by (simp_all add: rbind_def)

lemma rbind_Inr_iff: "rbind m f = Inr y \<longleftrightarrow> (\<exists>x. m = Inr x \<and> f x = Inr y)"
  by (cases m) auto

lemma rbind_InrE [elim]:
  assumes "rbind m f = Inr y"
  obtains x where "m = Inr x" "f x = Inr y"
  using assms by (auto simp: rbind_Inr_iff)

lemma rbind_assoc: "rbind (rbind m f) g = rbind m (\<lambda>x. rbind (f x) g)"
  by (cases m) auto

text \<open>\<open>assert!\<close>, \<open>debug_assert!\<close>, and the outcome of a loop
  that is \<open>None\<close> when it does not end.\<close>

definition check :: "bool \<Rightarrow> fault \<Rightarrow> unit res" where
  "check c e = (if c then Inr () else Inl e)"

definition debug_check :: "build \<Rightarrow> bool res \<Rightarrow> unit res" where
  "debug_check b c =
     (if b = Debug then rbind c (\<lambda>ok. check ok Debug_Assert_Failed) else Inr ())"

definition of_loop :: "'a res option \<Rightarrow> 'a res" where
  "of_loop r = (case r of None \<Rightarrow> Inl Diverges | Some x \<Rightarrow> x)"

lemma check_simps [simp, res_simps]:
  "check True e = Inr ()" "check False e = Inl e"
  "check c e = Inr u \<longleftrightarrow> c"
  by (simp_all add: check_def)

lemma debug_check_True [simp, res_simps]: "debug_check b (Inr True) = Inr ()"
  by (simp add: debug_check_def)

lemma debug_check_Release [simp, res_simps]: "debug_check Release c = Inr ()"
  by (simp add: debug_check_def)

lemma debug_check_ok: "(b = Debug \<Longrightarrow> c = Inr True) \<Longrightarrow> debug_check b c = Inr ()"
  by (cases b) (simp_all add: debug_check_def)

lemma of_loop_simps [simp, res_simps]:
  "of_loop None = Inl Diverges" "of_loop (Some x) = x"
  by (simp_all add: of_loop_def)

text \<open>Indexing a \<open>Vec\<close> or an array, reading and writing.\<close>

definition index_get :: "'a list \<Rightarrow> nat \<Rightarrow> 'a res" where
  "index_get xs i = (if i < length xs then Inr (xs ! i) else Inl Index_Out_Of_Bounds)"

definition index_set :: "'a list \<Rightarrow> nat \<Rightarrow> 'a \<Rightarrow> 'a list res" where
  "index_set xs i x = (if i < length xs then Inr (xs[i := x]) else Inl Index_Out_Of_Bounds)"

lemma index_simps [simp, res_simps]:
  "i < length xs \<Longrightarrow> index_get xs i = Inr (xs ! i)"
  "i < length xs \<Longrightarrow> index_set xs i x = Inr (xs[i := x])"
  "\<not> i < length xs \<Longrightarrow> index_get xs i = Inl Index_Out_Of_Bounds"
  by (simp_all add: index_get_def index_set_def)

text \<open>Addition of \<open>usize\<close> values: checked in a debug build, wrapping in a release build.\<close>

definition usize_add :: "build \<Rightarrow> usize \<Rightarrow> usize \<Rightarrow> usize res" where
  "usize_add b x y =
     (if b = Debug \<and> 2 ^ 32 \<le> unat x + unat y then Inl Overflow else Inr (x + y))"

lemma unat_u64_less: "unat (w::u64) < 2 ^ 64"
  using unsigned_less [of w, where ?'a = nat] by simp

text \<open>The bit counting intrinsics of \<open>u64\<close>.\<close>

definition leading_zeros :: "u64 \<Rightarrow> nat" where
  "leading_zeros w = length (takeWhile (\<lambda>i. \<not> bit w i) (rev [0..<64]))"

definition trailing_zeros :: "u64 \<Rightarrow> nat" where
  "trailing_zeros w = length (takeWhile (\<lambda>i. \<not> bit w i) [0..<64])"

lemma takeWhile_upt_least:
  assumes "P k" "\<And>i. i < k \<Longrightarrow> \<not> P i" "k < n"
  shows "length (takeWhile (\<lambda>i. \<not> P i) [0..<n]) = k"
proof -
  have "[0..<n] = [0..<k] @ [k] @ [Suc k..<n]"
    using assms(3) by (metis append_Cons append_Nil le_add_diff_inverse less_imp_le_nat upt_add_eq_append upt_conv_Cons zero_le)
  then show ?thesis using assms(1,2) by (simp add: takeWhile_append)
qed

lemma trailing_zeros_eqI:
  assumes "bit w k" "\<And>i. i < k \<Longrightarrow> \<not> bit w i"
  shows "trailing_zeros w = k"
  using assms bit_imp_le_length [OF assms(1)]
  by (auto simp: trailing_zeros_def intro!: takeWhile_upt_least)

lemma rev_upt_split: "k < n \<Longrightarrow> rev [0..<n] = rev [Suc k..<n] @ [k] @ rev [0..<k]"
  by (metis (no_types, lifting) append.assoc append_Cons append_Nil less_imp_le_nat rev.simps(2) rev_append upt_add_eq_append upt_conv_Cons zero_le le_add_diff_inverse)

lemma leading_zeros_eqI:
  fixes w :: u64
  assumes "bit w k" "\<And>i. k < i \<Longrightarrow> \<not> bit w i"
  shows "leading_zeros w = 63 - k"
proof -
  have k: "k < 64" using bit_imp_le_length [OF assms(1)] by simp
  show ?thesis
    using assms unfolding leading_zeros_def rev_upt_split [OF k]
    by (simp add: takeWhile_append)
qed

lemma highest_bit:
  fixes w :: u64
  assumes "w \<noteq> 0"
  obtains k where "bit w k" "\<And>i. k < i \<Longrightarrow> \<not> bit w i" "k < 64"
proof -
  let ?S = "{i. bit w i}"
  have sub: "?S \<subseteq> {..<64}" using bit_imp_le_length [of w] by auto
  then have fin: "finite ?S" by (rule finite_subset) simp
  have ne: "?S \<noteq> {}" using assms by (auto simp: bit_eq_iff)
  have "Max ?S \<in> ?S" using fin ne by (rule Max_in)
  moreover have "\<not> bit w i" if "Max ?S < i" for i
  proof
    assume "bit w i"
    then have "i \<le> Max ?S" using fin by (intro Max_ge) auto
    then show False using that by simp
  qed
  ultimately show ?thesis using that sub by blast
qed

lemma lowest_bit:
  fixes w :: u64
  assumes "w \<noteq> 0"
  obtains k where "bit w k" "\<And>i. i < k \<Longrightarrow> \<not> bit w i" "k < 64"
proof -
  from assms obtain j where j: "bit w j" by (auto simp: bit_eq_iff)
  let ?k = "LEAST i. bit w i"
  have "bit w ?k" using j by (rule LeastI)
  moreover have "\<not> bit w i" if "i < ?k" for i using that by (rule not_less_Least)
  moreover have "?k < 64" using bit_imp_le_length [OF \<open>bit w ?k\<close>] by simp
  ultimately show ?thesis by (rule that)
qed

section \<open>Text\<close>

definition digit :: "nat \<Rightarrow> char" where
  "digit d = char_of (48 + d)"

fun decimal :: "nat \<Rightarrow> string" where
  "decimal n = (if n < 10 then [digit n] else decimal (n div 10) @ [digit (n mod 10)])"

declare decimal.simps [simp del]

text \<open>\<open>Formatter::debug_struct\<close> without the alternate flag: the name, and its fields, whose values are already text.\<close>

fun join_fields :: "(string \<times> string) list \<Rightarrow> string" where
  "join_fields [] = []"
| "join_fields [(field, v)] = field @ '': '' @ v"
| "join_fields ((field, v) # fields) = field @ '': '' @ v @ '', '' @ join_fields fields"

definition debug_struct :: "string \<Rightarrow> (string \<times> string) list \<Rightarrow> string" where
  "debug_struct name fields = (if fields = [] then name else name @ '' { '' @ join_fields fields @ '' }'')"

definition debug_bool :: "bool \<Rightarrow> string" where
  "debug_bool b = (if b then ''true'' else ''false'')"

end
