(* ===== verification/Slab.thy ===== *)
theory Slab
  imports Prelude
begin

text \<open>
  The crate \<open>slab\<close>, which backs the delay queue and is no part of the repository. Its
  operations are a parameter of every definition that uses them: the fields of the record
  \<open>slab_ops\<close>. The locale \<open>slab_contract\<close> names what the queue relies on, the documented
  behaviour of \<open>Slab\<close>: an insertion uses a vacant index, \<open>get\<close>, \<open>remove\<close> and \<open>iter\<close>
  agree on the occupied indices, \<open>compact\<close> tells its callback every move it makes and does not raise the
  capacity, and \<open>reserve\<close> panics when the capacity it needs is too large.

  \<open>vec_slab\<close> is one concrete slab, a vector of optional values; it keeps the contract, so the
  contract can be met and the queue's definitions can be evaluated.
\<close>

record ('slab, 'd) slab_ops =
  slab_with_capacity :: "usize \<Rightarrow> 'slab"
  slab_capacity :: "'slab \<Rightarrow> usize"
  slab_len :: "'slab \<Rightarrow> usize"
  slab_is_empty :: "'slab \<Rightarrow> bool"
  slab_contains :: "'slab \<Rightarrow> usize \<Rightarrow> bool"
  slab_get :: "'slab \<Rightarrow> usize \<Rightarrow> 'd option"
  slab_put :: "'slab \<Rightarrow> usize \<Rightarrow> 'd \<Rightarrow> 'slab"
  slab_insert :: "'slab \<Rightarrow> 'd \<Rightarrow> (usize \<times> 'slab) res"
  slab_remove :: "'slab \<Rightarrow> usize \<Rightarrow> ('d \<times> 'slab) res"
  slab_iter :: "'slab \<Rightarrow> usize list"
  slab_compact :: "'slab \<Rightarrow> (usize \<times> usize) list \<times> 'slab"
  slab_clear :: "'slab \<Rightarrow> 'slab"
  slab_reserve :: "'slab \<Rightarrow> usize \<Rightarrow> 'slab res"
  slab_shrink_to_fit :: "'slab \<Rightarrow> 'slab"

text \<open>
  \<open>slab_put\<close> is a write through the reference \<open>IndexMut\<close> returns; \<open>slab_iter\<close> lists
  the occupied indices; \<open>slab_compact\<close> returns the pairs \<open>(from, to)\<close> its callback is called
  with, the callback always answering \<open>true\<close>.
\<close>

definition MAX_ENTRIES :: usize where
  "MAX_ENTRIES = push_bit 30 1 - 1"

text \<open>Where an item is after the moves.\<close>

definition moved :: "(usize \<times> usize) list \<Rightarrow> usize \<Rightarrow> usize" where
  "moved ms i = (case map_of ms i of Some j \<Rightarrow> j | None \<Rightarrow> i)"

locale slab_contract =
  fixes SL :: "('slab, 'd) slab_ops"
    and slab_ok :: "'slab \<Rightarrow> bool"
  assumes with_capacity_ok: "slab_ok (slab_with_capacity SL c)"
      "slab_get SL (slab_with_capacity SL c) = Map.empty"
    and capacity_ok: "slab_ok s \<Longrightarrow> unat (slab_len SL s) \<le> unat (slab_capacity SL s)"
    and len_ok: "slab_ok s \<Longrightarrow> unat (slab_len SL s) = card (dom (slab_get SL s))"
    and is_empty_ok: "slab_ok s \<Longrightarrow> slab_is_empty SL s \<longleftrightarrow> slab_get SL s = Map.empty"
    and contains_ok: "slab_ok s \<Longrightarrow> slab_contains SL s i \<longleftrightarrow> slab_get SL s i \<noteq> None"
    and put_ok: "slab_ok s \<Longrightarrow> slab_get SL s i = Some d \<Longrightarrow> slab_ok (slab_put SL s i d')"
      "slab_ok s \<Longrightarrow> slab_get SL s i = Some d \<Longrightarrow> slab_get SL (slab_put SL s i d') = (slab_get SL s)(i \<mapsto> d')"
    and insert_ok: "slab_ok s \<Longrightarrow> slab_len SL s < MAX_ENTRIES \<Longrightarrow>
      \<exists>i s'. slab_insert SL s d = Inr (i, s') \<and> slab_ok s' \<and> slab_get SL s i = None \<and>
        slab_get SL s' = (slab_get SL s)(i \<mapsto> d)"
    and remove_Some: "slab_ok s \<Longrightarrow> slab_get SL s i = Some d \<Longrightarrow>
      \<exists>s'. slab_remove SL s i = Inr (d, s') \<and> slab_ok s' \<and> slab_get SL s' = (slab_get SL s)(i := None)"
    and remove_None: "slab_ok s \<Longrightarrow> slab_get SL s i = None \<Longrightarrow> slab_remove SL s i = Inl (Slab_Invalid_Key i)"
    and iter_ok: "slab_ok s \<Longrightarrow> set (slab_iter SL s) = dom (slab_get SL s)"
      "slab_ok s \<Longrightarrow> distinct (slab_iter SL s)"
    and compact_ok: "slab_ok s \<Longrightarrow> slab_compact SL s = (ms, s') \<Longrightarrow> slab_ok s' \<and> distinct (map fst ms) \<and>
      inj_on (moved ms) (dom (slab_get SL s)) \<and>
      dom (slab_get SL s') = moved ms ` dom (slab_get SL s) \<and>
      (\<forall>i\<in>dom (slab_get SL s). slab_get SL s' (moved ms i) = slab_get SL s i)"
    and compact_capacity: "slab_ok s \<Longrightarrow> slab_compact SL s = (ms, s') \<Longrightarrow> slab_capacity SL s' \<le> slab_capacity SL s"
    and clear_ok: "slab_ok s \<Longrightarrow> slab_ok (slab_clear SL s)"
      "slab_ok s \<Longrightarrow> slab_get SL (slab_clear SL s) = Map.empty"
    and reserve_Inr: "slab_ok s \<Longrightarrow> slab_reserve SL s n = Inr s' \<Longrightarrow> slab_ok s' \<and> slab_get SL s' = slab_get SL s \<and>
      unat (slab_len SL s) + unat n \<le> unat (slab_capacity SL s')"
    and reserve_Inl: "slab_ok s \<Longrightarrow> slab_reserve SL s n = Inl e \<Longrightarrow>
      e = Capacity_Overflow \<and> unat (slab_capacity SL s) < unat (slab_len SL s) + unat n"
    and shrink_ok: "slab_ok s \<Longrightarrow> slab_ok (slab_shrink_to_fit SL s)"
      "slab_ok s \<Longrightarrow> slab_get SL (slab_shrink_to_fit SL s) = slab_get SL s"

section \<open>A concrete slab\<close>

record 'd vec_slab =
  vec_cap :: usize
  vec_entries :: "'d option list"

definition vec_get :: "'d vec_slab \<Rightarrow> usize \<Rightarrow> 'd option" where
  "vec_get s i = (if unat i < length (vec_entries s) then vec_entries s ! unat i else None)"

definition vec_put :: "'d vec_slab \<Rightarrow> usize \<Rightarrow> 'd \<Rightarrow> 'd vec_slab" where
  "vec_put s i d = s\<lparr>vec_entries := (vec_entries s)[unat i := Some d]\<rparr>"

definition live :: "'d option list \<Rightarrow> nat list" where
  "live xs = filter (\<lambda>i. xs ! i \<noteq> None) [0..<length xs]"

definition vec_len :: "'d vec_slab \<Rightarrow> usize" where
  "vec_len s = of_nat (length (live (vec_entries s)))"

text \<open>The first vacant entry, or one past the end.\<close>

fun vacant :: "'d option list \<Rightarrow> nat" where
  "vacant [] = 0"
| "vacant (None # xs) = 0"
| "vacant (Some d # xs) = Suc (vacant xs)"

definition vec_insert :: "'d vec_slab \<Rightarrow> 'd \<Rightarrow> (usize \<times> 'd vec_slab) res" where
  "vec_insert s d =
     (let xs = vec_entries s; k = vacant xs in
      if k < length xs then Inr (of_nat k, s\<lparr>vec_entries := xs[k := Some d]\<rparr>)
      else if k < 2 ^ 30 then
        Inr (of_nat k, \<lparr>vec_cap = max (vec_cap s) (of_nat (Suc k)), vec_entries = xs @ [Some d]\<rparr>)
      else Inl Slab_Full)"

definition vec_remove :: "'d vec_slab \<Rightarrow> usize \<Rightarrow> ('d \<times> 'd vec_slab) res" where
  "vec_remove s i =
     (case vec_get s i of
        Some d \<Rightarrow> Inr (d, s\<lparr>vec_entries := (vec_entries s)[unat i := None]\<rparr>)
      | None \<Rightarrow> Inl (Slab_Invalid_Key i))"

text \<open>Compaction moves the entries at or above the length, from the last, into the vacant ones below it.\<close>

definition vec_moves :: "'d option list \<Rightarrow> (nat \<times> nat) list" where
  "vec_moves xs =
     (let n = length (live xs) in
      zip (rev (filter (\<lambda>i. n \<le> i) (live xs))) (filter (\<lambda>i. xs ! i = None) [0..<n]))"

definition vec_compact :: "'d vec_slab \<Rightarrow> (usize \<times> usize) list \<times> 'd vec_slab" where
  "vec_compact s =
     (let xs = vec_entries s; ms = vec_moves xs; n = length (live xs) in
      (map (\<lambda>(i, j). (of_nat i, of_nat j)) ms,
       \<lparr>vec_cap = of_nat n,
        vec_entries = map (\<lambda>j. case map_of (map prod.swap ms) j of Some i \<Rightarrow> xs ! i | None \<Rightarrow> xs ! j) [0..<n]\<rparr>))"

definition vec_slab :: "('d vec_slab, 'd) slab_ops" where
  "vec_slab = \<lparr>
     slab_with_capacity = (\<lambda>c. \<lparr>vec_cap = c, vec_entries = []\<rparr>),
     slab_capacity = vec_cap,
     slab_len = vec_len,
     slab_is_empty = (\<lambda>s. live (vec_entries s) = []),
     slab_contains = (\<lambda>s i. vec_get s i \<noteq> None),
     slab_get = vec_get,
     slab_put = vec_put,
     slab_insert = vec_insert,
     slab_remove = vec_remove,
     slab_iter = (\<lambda>s. map of_nat (live (vec_entries s))),
     slab_compact = vec_compact,
     slab_clear = (\<lambda>s. s\<lparr>vec_entries := []\<rparr>),
     slab_reserve = (\<lambda>s n. if unat (vec_len s) + unat n \<le> unat (vec_cap s) then Inr s
        else if unat (vec_len s) + unat n < 2 ^ 30 then Inr (s\<lparr>vec_cap := vec_len s + n\<rparr>)
        else Inl Capacity_Overflow),
     slab_shrink_to_fit = (\<lambda>s. s\<lparr>vec_cap := of_nat (length (vec_entries s))\<rparr>)\<rparr>"

definition vec_ok :: "'d vec_slab \<Rightarrow> bool" where
  "vec_ok s \<longleftrightarrow> length (vec_entries s) \<le> 2 ^ 30 \<and> length (vec_entries s) \<le> unat (vec_cap s)"

lemma unat_of_nat_small: "n < 2 ^ 32 \<Longrightarrow> unat (of_nat n :: usize) = n"
  by (simp add: unat_of_nat)

lemma word_of_nat_unat: "of_nat (unat (i::usize)) = i"
  by simp

lemma vacant_le: "vacant xs \<le> length xs"
  by (induction xs rule: vacant.induct) auto

lemma vacant_None: "vacant xs < length xs \<Longrightarrow> xs ! vacant xs = None"
  by (induction xs rule: vacant.induct) auto

lemma vacant_before: "i < vacant xs \<Longrightarrow> xs ! i \<noteq> None"
  by (induction xs arbitrary: i rule: vacant.induct) (auto simp: nth_Cons split: nat.splits)

lemma set_live: "set (live xs) = {i. i < length xs \<and> xs ! i \<noteq> None}"
  by (auto simp: live_def)

lemma distinct_live: "distinct (live xs)"
  by (simp add: live_def)

lemma length_live_le: "length (live xs) \<le> length xs"
  unfolding live_def using length_filter_le [of _ "[0..<length xs]"] by simp

lemma live_full: "vacant xs = length xs \<Longrightarrow> length (live xs) = length xs"
  using vacant_before [of _ xs] by (simp add: live_def filter_True)

lemma dom_vec_get:
  assumes "vec_ok s"
  shows "dom (vec_get s) = of_nat ` set (live (vec_entries s))"
proof (intro set_eqI iffI)
  fix i assume "i \<in> dom (vec_get s)"
  then have "unat i \<in> set (live (vec_entries s))" by (auto simp: vec_get_def set_live split: if_splits)
  then have "(of_nat (unat i) :: usize) \<in> of_nat ` set (live (vec_entries s))" by (rule imageI)
  then show "i \<in> of_nat ` set (live (vec_entries s))" by simp
next
  fix i :: usize assume "i \<in> of_nat ` set (live (vec_entries s))"
  then obtain n where "n < length (vec_entries s)" "vec_entries s ! n \<noteq> None" "i = of_nat n"
    by (auto simp: set_live)
  then show "i \<in> dom (vec_get s)" using assms by (auto simp: vec_get_def vec_ok_def unat_of_nat_small)
qed

lemma inj_on_of_nat_live:
  assumes "vec_ok s"
  shows "inj_on (of_nat :: nat \<Rightarrow> usize) {..<length (vec_entries s)}"
proof (rule inj_onI)
  fix i j assume "i \<in> {..<length (vec_entries s)}" "j \<in> {..<length (vec_entries s)}"
    and eq: "(of_nat i :: usize) = of_nat j"
  then have "i < 2 ^ 32" "j < 2 ^ 32" using assms by (auto simp: vec_ok_def)
  then show "i = j" using arg_cong [OF eq, of unat] by (simp only: unat_of_nat_small)
qed

lemma live_bounded: "set (live xs) \<subseteq> {..<length xs}"
  by (auto simp: set_live)

lemma unat_vec_len: "vec_ok s \<Longrightarrow> unat (vec_len s) = length (live (vec_entries s))"
  using length_live_le [of "vec_entries s"] by (simp add: vec_len_def unat_of_nat_small vec_ok_def)

lemma card_vec_get:
  assumes "vec_ok s"
  shows "card (dom (vec_get s)) = length (live (vec_entries s))"
  using inj_on_subset [OF inj_on_of_nat_live [OF assms] live_bounded]
  by (simp add: dom_vec_get [OF assms] card_image distinct_card distinct_live)

text \<open>The moves: as many entries are at or above the length as are vacant below it.\<close>

definition high :: "'d option list \<Rightarrow> nat list" where
  "high xs = filter (\<lambda>i. length (live xs) \<le> i) (live xs)"

definition holes :: "'d option list \<Rightarrow> nat list" where
  "holes xs = filter (\<lambda>i. xs ! i = None) [0..<length (live xs)]"

definition moved_nat :: "(nat \<times> nat) list \<Rightarrow> nat \<Rightarrow> nat" where
  "moved_nat ms i = (case map_of ms i of Some j \<Rightarrow> j | None \<Rightarrow> i)"

lemma set_high: "set (high xs) = {i \<in> set (live xs). length (live xs) \<le> i}"
  by (auto simp: high_def)

lemma set_holes: "set (holes xs) = {i. i < length (live xs) \<and> xs ! i = None}"
  by (auto simp: holes_def)

lemma length_high: "length (high xs) = length (holes xs)"
proof -
  let ?n = "length (live xs)"
  have low: "{i \<in> set (live xs). i < ?n} = {i. i < ?n} - set (holes xs)"
    using length_live_le [of xs] by (auto simp: set_live set_holes)
  have "card (set (live xs)) = card {i \<in> set (live xs). i < ?n} + card (set (high xs))"
    by (subst card_Un_disjoint [symmetric]) (auto simp: set_high intro: arg_cong [of _ _ card])
  moreover have "card {i \<in> set (live xs). i < ?n} = ?n - card (set (holes xs))"
    unfolding low by (subst card_Diff_subset) (auto simp: set_holes)
  moreover have "card (set (holes xs)) \<le> ?n"
    using card_mono [of "{..<?n}" "set (holes xs)"] by (auto simp: set_holes)
  ultimately have "card (set (high xs)) = card (set (holes xs))"
    by (simp add: distinct_card distinct_live)
  moreover have "distinct (high xs)" "distinct (holes xs)"
    by (simp_all add: high_def holes_def distinct_live)
  ultimately show ?thesis by (simp only: distinct_card)
qed

lemma vec_moves_eq: "vec_moves xs = zip (rev (high xs)) (holes xs)"
  by (simp add: vec_moves_def high_def holes_def Let_def)

lemma map_fst_moves: "map fst (vec_moves xs) = rev (high xs)"
  and map_snd_moves: "map snd (vec_moves xs) = holes xs"
  by (simp_all add: vec_moves_eq length_high)

lemma distinct_moves: "distinct (map fst (vec_moves xs))" "distinct (map snd (vec_moves xs))"
  unfolding map_fst_moves map_snd_moves by (simp_all add: high_def holes_def distinct_live)

lemma moves_range:
  assumes "(i, j) \<in> set (vec_moves xs)"
  shows "i \<in> set (high xs)" "j \<in> set (holes xs)"
  using imageI [OF assms, of fst] imageI [OF assms, of snd]
  by (simp_all flip: set_map add: map_fst_moves map_snd_moves)

lemma moved_nat_cases:
  assumes "i \<in> set (live xs)"
  obtains "i < length (live xs)" "moved_nat (vec_moves xs) i = i"
  | j where "length (live xs) \<le> i" "(i, j) \<in> set (vec_moves xs)" "moved_nat (vec_moves xs) i = j"
proof (cases "map_of (vec_moves xs) i")
  case None
  then have "i \<notin> set (map fst (vec_moves xs))" by (simp add: map_of_eq_None_iff)
  then have "i \<notin> set (high xs)" by (simp add: map_fst_moves)
  then show ?thesis using that(1) None assms by (simp add: moved_nat_def set_high)
next
  case (Some j)
  then have ij: "(i, j) \<in> set (vec_moves xs)" by (rule map_of_SomeD)
  have "length (live xs) \<le> i" using moves_range(1) [OF ij] by (simp add: set_high)
  then show ?thesis using that(2) ij Some by (simp add: moved_nat_def)
qed

lemma moved_nat_less: "i \<in> set (live xs) \<Longrightarrow> moved_nat (vec_moves xs) i < length (live xs)"
  by (elim moved_nat_cases) (auto dest: moves_range(2) simp: set_holes)

lemma inj_on_moved_nat: "inj_on (moved_nat (vec_moves xs)) (set (live xs))"
proof (rule inj_onI)
  fix i k assume i: "i \<in> set (live xs)" and k: "k \<in> set (live xs)"
    and eq: "moved_nat (vec_moves xs) i = moved_nat (vec_moves xs) k"
  have inj: "inj_on snd (set (vec_moves xs))" using distinct_moves(2) [of xs] by (simp add: distinct_map)
  have snd_inj: "i = k" if "(i, j) \<in> set (vec_moves xs)" "(k, j) \<in> set (vec_moves xs)" for j
    using inj_onD [OF inj _ that] by simp
  have hole: "xs ! j = None" if "(m, j) \<in> set (vec_moves xs)" for m j
    using moves_range(2) [OF that] by (simp add: set_holes)
  have "xs ! i \<noteq> None" "xs ! k \<noteq> None" using i k by (simp_all add: set_live)
  with eq hole snd_inj show "i = k"
    by (cases rule: moved_nat_cases [OF i]; cases rule: moved_nat_cases [OF k]; metis)
qed

lemma moved_nat_image: "moved_nat (vec_moves xs) ` set (live xs) = {..<length (live xs)}"
proof (rule card_subset_eq)
  show "moved_nat (vec_moves xs) ` set (live xs) \<subseteq> {..<length (live xs)}"
    by (auto simp: moved_nat_less)
  show "card (moved_nat (vec_moves xs) ` set (live xs)) = card {..<length (live xs)}"
    by (simp add: card_image [OF inj_on_moved_nat] distinct_card distinct_live)
qed simp

lemma compact_entry:
  assumes "i \<in> set (live xs)"
  shows "(case map_of (map prod.swap (vec_moves xs)) (moved_nat (vec_moves xs) i) of
            Some k \<Rightarrow> xs ! k | None \<Rightarrow> xs ! moved_nat (vec_moves xs) i) = xs ! i"
  using assms
proof (cases rule: moved_nat_cases)
  case 1
  have "i \<notin> snd ` set (vec_moves xs)"
    using assms moves_range(2) [of _ i xs] by (auto simp: set_holes set_live)
  then have "map_of (map prod.swap (vec_moves xs)) i = None"
    by (auto simp: map_of_eq_None_iff image_image)
  then show ?thesis using 1 by simp
next
  case (2 j)
  have "distinct (map fst (map prod.swap (vec_moves xs)))"
    using distinct_moves(2) [of xs] by (simp add: o_def)
  then have "map_of (map prod.swap (vec_moves xs)) j = Some i"
    using 2(2) by (subst map_of_eq_Some_iff) force+
  then show ?thesis using 2 by simp
qed

lemma moved_of_nat:
  assumes "\<forall>(i, j)\<in>set ms. i < 2 ^ 32" "i < 2 ^ 32"
  shows "moved (map (\<lambda>(i, j). (of_nat i, of_nat j)) ms) (of_nat i) = of_nat (moved_nat ms i)"
proof -
  have "map_of (map (\<lambda>(i, j). (of_nat i :: usize, of_nat j :: usize)) ms) (of_nat i) = map_option of_nat (map_of ms i)"
    using assms(1)
  proof (induction ms)
    case (Cons p ms)
    obtain k j where p: "p = (k, j)" by (cases p)
    have "k < 2 ^ 32" "\<forall>(i, j)\<in>set ms. i < 2 ^ 32" using Cons.prems p by auto
    then have "(of_nat i :: usize) = of_nat k \<longleftrightarrow> i = k"
      using unat_of_nat_small [of k] unat_of_nat_small [OF assms(2)] by metis
    then show ?case using Cons.IH [OF \<open>\<forall>(i, j)\<in>set ms. i < 2 ^ 32\<close>] p by simp
  qed simp
  then show ?thesis by (simp add: moved_def moved_nat_def split: option.splits)
qed

lemma vec_ok_unat: "vec_ok s \<Longrightarrow> i < length (vec_entries s) \<Longrightarrow> unat (of_nat i :: usize) = i"
  by (rule unat_of_nat_small) (simp add: vec_ok_def)

lemma vec_get_of_nat: "vec_ok s \<Longrightarrow> i < length (vec_entries s) \<Longrightarrow> vec_get s (of_nat i) = vec_entries s ! i"
  by (simp add: vec_get_def vec_ok_unat)

lemma vec_get_update:
  assumes "vec_ok s" "k < length (vec_entries s)"
  shows "vec_get (s\<lparr>vec_entries := (vec_entries s)[k := v]\<rparr>) = (vec_get s)(of_nat k := v)"
proof
  fix i :: usize
  have "unat i = k \<longleftrightarrow> i = of_nat k" using vec_ok_unat [OF assms] by (metis word_of_nat_unat)
  then show "vec_get (s\<lparr>vec_entries := (vec_entries s)[k := v]\<rparr>) i = ((vec_get s)(of_nat k := v)) i"
    using assms(2) by (auto simp: vec_get_def nth_list_update)
qed

lemma vec_insert_ok:
  assumes ok: "vec_ok s" and room: "vec_len s < MAX_ENTRIES"
  shows "\<exists>i s'. vec_insert s d = Inr (i, s') \<and> vec_ok s' \<and> vec_get s i = None \<and>
           vec_get s' = (vec_get s)(i \<mapsto> d)"
proof (cases "vacant (vec_entries s) < length (vec_entries s)")
  case True
  then show ?thesis
    using ok vec_get_update [OF ok True] vec_get_of_nat [OF ok True] vacant_None [OF True]
    by (simp add: vec_insert_def Let_def vec_ok_def)
next
  case False
  let ?n = "length (vec_entries s)"
  have v: "vacant (vec_entries s) = ?n" using False vacant_le [of "vec_entries s"] by simp
  have n: "?n < 2 ^ 30 - 1"
    using room unat_vec_len [OF ok] live_full [OF v]
    by (simp add: word_less_nat_alt MAX_ENTRIES_def push_bit_eq_mult)
  let ?s = "\<lparr>vec_cap = max (vec_cap s) (of_nat (Suc ?n)), vec_entries = vec_entries s @ [Some d]\<rparr>"
  have u: "unat (of_nat ?n :: usize) = ?n" "unat (of_nat (Suc ?n) :: usize) = Suc ?n"
    by (rule unat_of_nat_small; use n in simp)+
  have "Suc ?n \<le> unat (max (vec_cap s) (of_nat (Suc ?n)))"
    using u(2) by (simp only: max_def word_le_nat_alt split: if_split) simp
  then have ok': "vec_ok ?s" using n by (simp add: vec_ok_def)
  have "vec_get ?s i = ((vec_get s)(of_nat ?n \<mapsto> d)) i" for i
  proof -
    have "unat i = ?n \<longleftrightarrow> i = of_nat ?n" using u(1) by (metis word_of_nat_unat)
    then show ?thesis by (auto simp: vec_get_def nth_append)
  qed
  then show ?thesis
    using n v ok' u(1) by (simp add: vec_insert_def Let_def vec_get_def fun_eq_iff)
qed

lemma vec_remove_ok:
  assumes ok: "vec_ok s" and d: "vec_get s i = Some d"
  shows "\<exists>s'. vec_remove s i = Inr (d, s') \<and> vec_ok s' \<and> vec_get s' = (vec_get s)(i := None)"
proof -
  have "unat i < length (vec_entries s)" using d by (simp add: vec_get_def split: if_splits)
  from vec_get_update [OF ok this, of None] show ?thesis
    using ok d by (simp add: vec_remove_def vec_ok_def)
qed

lemma vec_put_ok:
  assumes ok: "vec_ok s" and d: "vec_get s i = Some d"
  shows "vec_ok (vec_put s i d')" "vec_get (vec_put s i d') = (vec_get s)(i \<mapsto> d')"
proof -
  have "unat i < length (vec_entries s)" using d by (simp add: vec_get_def split: if_splits)
  from vec_get_update [OF ok this, of "Some d'"] show "vec_get (vec_put s i d') = (vec_get s)(i \<mapsto> d')"
    by (simp add: vec_put_def)
  show "vec_ok (vec_put s i d')" using ok by (simp add: vec_put_def vec_ok_def)
qed

lemma vec_is_empty:
  assumes "vec_ok s"
  shows "live (vec_entries s) = [] \<longleftrightarrow> vec_get s = Map.empty"
  using dom_vec_get [OF assms] by (metis dom_eq_empty_conv empty_is_image set_empty)

lemma vec_iter:
  assumes "vec_ok s"
  shows "distinct (map (of_nat :: nat \<Rightarrow> usize) (live (vec_entries s)))"
  using inj_on_subset [OF inj_on_of_nat_live [OF assms] live_bounded]
  by (simp add: distinct_map distinct_live)

lemma vec_compact_ok:
  assumes ok: "vec_ok s" and c: "vec_compact s = (ms, s')"
  shows "vec_ok s'" "distinct (map fst ms)" "inj_on (moved ms) (dom (vec_get s))"
    "dom (vec_get s') = moved ms ` dom (vec_get s)"
    "\<forall>i\<in>dom (vec_get s). vec_get s' (moved ms i) = vec_get s i"
    "vec_cap s' = vec_len s'" "\<forall>i\<in>dom (vec_get s'). i < vec_len s'"
proof -
  let ?xs = "vec_entries s"
  let ?n = "length (live ?xs)" and ?mv = "moved_nat (vec_moves ?xs)"
  have ms: "ms = map (\<lambda>(i, j). (of_nat i, of_nat j)) (vec_moves ?xs)"
    and s': "s' = \<lparr>vec_cap = of_nat ?n, vec_entries = map (\<lambda>j. case map_of (map prod.swap (vec_moves ?xs)) j of
         Some i \<Rightarrow> ?xs ! i | None \<Rightarrow> ?xs ! j) [0..<?n]\<rparr>"
    using c by (auto simp: vec_compact_def Let_def)
  have len: "length (vec_entries s') = ?n" by (simp add: s')
  have n_le: "?n \<le> length ?xs" by (rule length_live_le)
  have small: "i < 2 ^ 32" if "i < length ?xs" for i using that ok by (simp add: vec_ok_def)
  have u_n: "unat (of_nat ?n :: usize) = ?n"
    by (rule unat_of_nat_small) (use n_le ok in \<open>simp add: vec_ok_def\<close>)
  show ok': "vec_ok s'" using u_n n_le ok by (simp add: vec_ok_def s')
  have fsts: "\<forall>(i, j)\<in>set (vec_moves ?xs). i < 2 ^ 32"
    using small moves_range(1) [of _ _ ?xs] by (fastforce simp: set_high set_live)
  have mv: "moved ms (of_nat i) = of_nat (?mv i)" if "i \<in> set (live ?xs)" for i
    unfolding ms by (rule moved_of_nat [OF fsts small]) (use that in \<open>simp add: set_live\<close>)
  have inj_n: "inj_on (of_nat :: nat \<Rightarrow> usize) {..<length ?xs}" by (rule inj_on_of_nat_live [OF ok])
  have "distinct (map of_nat (rev (high ?xs)) :: usize list)"
    using inj_on_subset [OF inj_n, of "set (high ?xs)"]
    by (auto simp: distinct_map high_def distinct_live set_live)
  then show "distinct (map fst ms)" by (simp add: ms o_def case_prod_unfold flip: map_fst_moves)
  have "?mv ` set (live ?xs) \<subseteq> {..<length ?xs}" using n_le by (auto simp: moved_nat_image)
  then have "inj_on (of_nat \<circ> ?mv :: nat \<Rightarrow> usize) (set (live ?xs))"
    using inj_on_moved_nat inj_on_subset [OF inj_n] by (intro comp_inj_on) auto
  then have "inj_on (moved ms \<circ> (of_nat :: nat \<Rightarrow> usize)) (set (live ?xs))"
    by (rule inj_on_cong [THEN iffD1, rotated]) (simp add: mv)
  then show "inj_on (moved ms) (dom (vec_get s))"
    unfolding dom_vec_get [OF ok] by (rule inj_on_imageI)
  have entry: "vec_entries s' ! ?mv i = ?xs ! i" if "i \<in> set (live ?xs)" for i
    using compact_entry [OF that] moved_nat_less [OF that] by (simp add: s' nth_map split: option.splits)
  show vals: "\<forall>i\<in>dom (vec_get s). vec_get s' (moved ms i) = vec_get s i"
  proof
    fix i assume "i \<in> dom (vec_get s)"
    then obtain k where k: "i = of_nat k" "k \<in> set (live ?xs)" by (auto simp: dom_vec_get [OF ok])
    have "vec_get s' (of_nat (?mv k)) = vec_entries s' ! ?mv k"
      by (rule vec_get_of_nat [OF ok']) (simp add: len moved_nat_less [OF k(2)])
    moreover have "vec_get s (of_nat k) = ?xs ! k"
      by (rule vec_get_of_nat [OF ok]) (use k(2) in \<open>simp add: set_live\<close>)
    ultimately show "vec_get s' (moved ms i) = vec_get s i" using k entry mv by simp
  qed
  have full: "live (vec_entries s') = [0..<?n]"
  proof -
    have "vec_entries s' ! j \<noteq> None" if "j < ?n" for j
    proof -
      from that obtain i where "i \<in> set (live ?xs)" "j = ?mv i"
        using moved_nat_image [of ?xs] by (metis imageE lessThan_iff)
      then show ?thesis using entry by (simp add: set_live)
    qed
    then show ?thesis unfolding live_def len by (intro filter_True) simp
  qed
  have "dom (vec_get s') = of_nat ` {..<?n}" by (simp add: dom_vec_get [OF ok'] full atLeast0LessThan)
  also have "\<dots> = (\<lambda>i. of_nat (?mv i)) ` set (live ?xs)" by (simp add: image_image flip: moved_nat_image)
  also have "\<dots> = moved ms ` dom (vec_get s)"
    unfolding dom_vec_get [OF ok] image_image by (rule image_cong) (simp_all add: mv)
  finally show "dom (vec_get s') = moved ms ` dom (vec_get s)" .
  show "vec_cap s' = vec_len s'" by (simp add: vec_len_def full) (simp add: s')
  show "\<forall>i\<in>dom (vec_get s'). i < vec_len s'"
    using u_n by (auto simp: dom_vec_get [OF ok'] full vec_len_def word_less_nat_alt vec_ok_unat [OF ok'] len)
qed

lemma vec_slab_sel [simp]:
  "slab_get vec_slab = vec_get" "slab_put vec_slab = vec_put" "slab_insert vec_slab = vec_insert"
  "slab_remove vec_slab = vec_remove" "slab_len vec_slab = vec_len" "slab_capacity vec_slab = vec_cap"
  "slab_compact vec_slab = vec_compact"
  by (simp_all add: vec_slab_def)

interpretation vec: slab_contract vec_slab vec_ok
proof unfold_locales
  fix c :: usize
  show "vec_ok (slab_with_capacity vec_slab c)" "slab_get vec_slab (slab_with_capacity vec_slab c) = Map.empty"
    by (simp_all add: vec_slab_def vec_ok_def vec_get_def fun_eq_iff)
next
  fix s :: "'d vec_slab" and i n :: usize and d d' :: 'd
  assume ok: "vec_ok s"
  show "unat (slab_len vec_slab s) \<le> unat (slab_capacity vec_slab s)"
    using ok length_live_le [of "vec_entries s"] by (simp add: unat_vec_len vec_ok_def)
  show "unat (slab_len vec_slab s) = card (dom (slab_get vec_slab s))"
    by (simp add: unat_vec_len [OF ok] card_vec_get [OF ok])
  show "slab_is_empty vec_slab s \<longleftrightarrow> slab_get vec_slab s = Map.empty"
    using vec_is_empty [OF ok] by (simp add: vec_slab_def)
  show "slab_contains vec_slab s i \<longleftrightarrow> slab_get vec_slab s i \<noteq> None"
    by (simp add: vec_slab_def)
  show "set (slab_iter vec_slab s) = dom (slab_get vec_slab s)"
    by (simp add: dom_vec_get [OF ok]) (simp add: vec_slab_def)
  show "distinct (slab_iter vec_slab s)" using vec_iter [OF ok] by (simp add: vec_slab_def)
  show "slab_len vec_slab s < MAX_ENTRIES \<Longrightarrow> \<exists>i s'. slab_insert vec_slab s d = Inr (i, s') \<and> vec_ok s' \<and>
      slab_get vec_slab s i = None \<and> slab_get vec_slab s' = (slab_get vec_slab s)(i \<mapsto> d)"
    using vec_insert_ok [OF ok] by simp
  show "slab_get vec_slab s i = Some d \<Longrightarrow> vec_ok (slab_put vec_slab s i d')"
    "slab_get vec_slab s i = Some d \<Longrightarrow> slab_get vec_slab (slab_put vec_slab s i d') = (slab_get vec_slab s)(i \<mapsto> d')"
    using vec_put_ok [OF ok, of i d d'] by simp_all
  show "slab_get vec_slab s i = Some d \<Longrightarrow> \<exists>s'. slab_remove vec_slab s i = Inr (d, s') \<and> vec_ok s' \<and>
      slab_get vec_slab s' = (slab_get vec_slab s)(i := None)"
    using vec_remove_ok [OF ok] by simp
  show "slab_get vec_slab s i = None \<Longrightarrow> slab_remove vec_slab s i = Inl (Slab_Invalid_Key i)"
    by (simp add: vec_remove_def)
  show "slab_get vec_slab (slab_clear vec_slab s) = Map.empty"
    by (simp add: vec_slab_def vec_get_def fun_eq_iff)
  show "vec_ok (slab_clear vec_slab s)" using ok by (simp add: vec_slab_def vec_ok_def)
  show "vec_ok (slab_shrink_to_fit vec_slab s)"
    using ok unat_of_nat_small [of "length (vec_entries s)"] by (simp add: vec_slab_def vec_ok_def)
  show "slab_get vec_slab (slab_shrink_to_fit vec_slab s) = slab_get vec_slab s"
    by (simp add: vec_slab_def vec_get_def fun_eq_iff)
  show "slab_reserve vec_slab s n = Inr s' \<Longrightarrow> vec_ok s' \<and> slab_get vec_slab s' = slab_get vec_slab s \<and>
      unat (slab_len vec_slab s) + unat n \<le> unat (slab_capacity vec_slab s')" for s'
    using ok by (auto simp: vec_slab_def vec_ok_def vec_get_def fun_eq_iff unat_word_ariths split: if_splits)
  show "slab_reserve vec_slab s n = Inl e \<Longrightarrow> e = Capacity_Overflow \<and>
      unat (slab_capacity vec_slab s) < unat (slab_len vec_slab s) + unat n" for e
    by (auto simp: vec_slab_def split: if_splits)
next
  fix s s' :: "'d vec_slab" and ms
  assume ok: "vec_ok s" and "slab_compact vec_slab s = (ms, s')"
  then have c: "vec_compact s = (ms, s')" by simp
  note facts = vec_compact_ok [OF ok c]
  show "vec_ok s' \<and> distinct (map fst ms) \<and> inj_on (moved ms) (dom (slab_get vec_slab s)) \<and>
      dom (slab_get vec_slab s') = moved ms ` dom (slab_get vec_slab s) \<and>
      (\<forall>i\<in>dom (slab_get vec_slab s). slab_get vec_slab s' (moved ms i) = slab_get vec_slab s i)"
    unfolding vec_slab_sel by (intro conjI; rule facts)
  have "vec_cap s' = vec_len s" using c by (auto simp: vec_compact_def vec_len_def Let_def)
  then show "slab_capacity vec_slab s' \<le> slab_capacity vec_slab s"
    using ok length_live_le [of "vec_entries s"] by (simp add: word_le_nat_alt unat_vec_len vec_ok_def)
qed

end
