(* ===== verification/Slab_Storage.thy ===== *)
theory Slab_Storage
  imports Slab
begin

text \<open>
  \<open>SlabStorage\<close> of \<open>delay_queue.rs\<close>: the slab behind the keys that were handed out. Once
  \<open>compact\<close> has moved entries, \<open>key_map\<close> takes a handed-out key to the index its entry has
  now. \<open>stored\<close> is the abstraction: the partial map from handed-out keys to data. Every
  operation is the obvious one on that map, and \<open>compact\<close> leaves it unchanged.
\<close>

datatype key = Key (key_index: usize)

datatype key_internal = KeyInternal (ki_index: usize)

definition into_internal :: "key \<Rightarrow> key_internal" where
  "into_internal item = KeyInternal (key_index item)"

definition into_key :: "key_internal \<Rightarrow> key" where
  "into_key item = Key (ki_index item)"

record 'slab storage =
  st_inner :: 'slab
  st_key_map :: "key \<rightharpoonup> key_internal"
  st_next_key_index :: usize
  st_compact_called :: bool

definition storage_with_capacity :: "('slab, 'd) slab_ops \<Rightarrow> usize \<Rightarrow> 'slab storage" where
  "storage_with_capacity SL capacity =
     \<lparr>st_inner = slab_with_capacity SL capacity, st_key_map = Map.empty,
      st_next_key_index = 0, st_compact_called = False\<rparr>"

text \<open>The loop of \<open>create_new_key\<close>, which steps to the first index that names no key.\<close>

partial_function (option) new_key_loop :: "(key \<rightharpoonup> key_internal) \<Rightarrow> usize \<Rightarrow> usize res option" where
  "new_key_loop m i = (if m (Key i) \<noteq> None then new_key_loop m (i + 1) else Some (Inr i))"

declare new_key_loop.simps [code]

definition create_new_key :: "'slab storage \<Rightarrow> (key_internal \<times> 'slab storage) res" where
  "create_new_key S =
     rbind (of_loop (new_key_loop (st_key_map S) (st_next_key_index S))) (\<lambda>i.
     Inr (KeyInternal i, S\<lparr>st_next_key_index := i\<rparr>))"

definition storage_insert ::
  "('slab, 'd) slab_ops \<Rightarrow> 'slab storage \<Rightarrow> 'd \<Rightarrow> (key \<times> 'slab storage) res" where
  "storage_insert SL S val =
     rbind (slab_insert SL (st_inner S) val) (\<lambda>(i, inner).
     let S = S\<lparr>st_inner := inner\<rparr>;
         key = KeyInternal i;
         key_contained = st_key_map S (into_key key) \<noteq> None
     in
     if key_contained then
       rbind (create_new_key S) (\<lambda>(key_to_give_out, S).
       rbind (check (st_key_map S (into_key key_to_give_out) = None) Assert_Failed) (\<lambda>_.
       Inr (into_key key_to_give_out,
            S\<lparr>st_key_map := (st_key_map S)(into_key key_to_give_out \<mapsto> key)\<rparr>)))
     else if st_compact_called S then
       Inr (into_key key, S\<lparr>st_key_map := (st_key_map S)(into_key key \<mapsto> key)\<rparr>)
     else Inr (into_key key, S))"

definition storage_remove ::
  "('slab, 'd) slab_ops \<Rightarrow> 'slab storage \<Rightarrow> key \<Rightarrow> ('d \<times> 'slab storage) res" where
  "storage_remove SL S key =
     rbind
       (if st_compact_called S then
          (case st_key_map S key of
             Some key_internal \<Rightarrow> Inr (key_internal, S\<lparr>st_key_map := (st_key_map S)(key := None)\<rparr>)
           | None \<Rightarrow> Inl Invalid_Key)
        else Inr (into_internal key, S)) (\<lambda>(remapped_key, S).
     rbind (slab_remove SL (st_inner S) (ki_index remapped_key)) (\<lambda>(d, inner).
     Inr (d, S\<lparr>st_inner := inner\<rparr>)))"

definition storage_shrink_to_fit :: "('slab, 'd) slab_ops \<Rightarrow> 'slab storage \<Rightarrow> 'slab storage" where
  "storage_shrink_to_fit SL S = S\<lparr>st_inner := slab_shrink_to_fit SL (st_inner S)\<rparr>"

text \<open>The capacity of the \<open>HashMap\<close>s is not modelled, so shrinking them is no step here.\<close>

definition storage_compact :: "('slab, 'd) slab_ops \<Rightarrow> 'slab storage \<Rightarrow> 'slab storage" where
  "storage_compact SL S =
     (let key_map =
            (if \<not> st_compact_called S
             then foldl (\<lambda>m key. m(Key key \<mapsto> KeyInternal key)) (st_key_map S) (slab_iter SL (st_inner S))
             else st_key_map S);
          (moves, inner) = slab_compact SL (st_inner S);
          remapping = foldl (\<lambda>m (from, to). m(from \<mapsto> to)) Map.empty moves;
          key_map = (\<lambda>k. map_option (\<lambda>internal_key.
             case remapping (ki_index internal_key) of
               Some new_internal_key \<Rightarrow> KeyInternal new_internal_key
             | None \<Rightarrow> internal_key) (key_map k))
      in S\<lparr>st_inner := inner, st_key_map := key_map, st_compact_called := True\<rparr>)"

definition remap_key :: "'slab storage \<Rightarrow> key \<Rightarrow> key_internal option" where
  "remap_key S key = (if st_compact_called S then st_key_map S key else Some (into_internal key))"

definition storage_len :: "('slab, 'd) slab_ops \<Rightarrow> 'slab storage \<Rightarrow> usize" where
  "storage_len SL S = slab_len SL (st_inner S)"

definition storage_capacity :: "('slab, 'd) slab_ops \<Rightarrow> 'slab storage \<Rightarrow> usize" where
  "storage_capacity SL S = slab_capacity SL (st_inner S)"

text \<open>
  The text of the storage: its entries, each with its index, with the alternate flag, whose layout is the
  parameter \<open>debug_map\<close> of the formatter, and only its size otherwise.
\<close>

definition storage_debug :: "('slab, 'd) slab_ops \<Rightarrow> ((usize \<times> 'd) list \<Rightarrow> string) \<Rightarrow> bool \<Rightarrow> 'slab storage \<Rightarrow> string" where
  "storage_debug SL debug_map alternate self =
     (if alternate
      then debug_map (List.map_filter (\<lambda>i. map_option (Pair i) (slab_get SL (st_inner self) i)) (slab_iter SL (st_inner self)))
      else debug_struct ''Slab'' [(''len'', decimal (unat (storage_len SL self))), (''cap'', decimal (unat (storage_capacity SL self)))])"

definition storage_clear :: "('slab, 'd) slab_ops \<Rightarrow> 'slab storage \<Rightarrow> 'slab storage" where
  "storage_clear SL S =
     S\<lparr>st_inner := slab_clear SL (st_inner S), st_key_map := Map.empty, st_compact_called := False\<rparr>"

text \<open>
  Whether the hash map of the keys can reserve, for a number of keys and more of them, is the
  parameter \<open>map_reserve\<close>: it panics when the size it needs overflows.
\<close>

definition storage_reserve :: "('slab, 'd) slab_ops \<Rightarrow> (nat \<Rightarrow> usize \<Rightarrow> bool) \<Rightarrow> 'slab storage \<Rightarrow> usize \<Rightarrow> 'slab storage res" where
  "storage_reserve SL map_reserve S additional =
     rbind (slab_reserve SL (st_inner S) additional) (\<lambda>inner.
     rbind (check (st_compact_called S \<longrightarrow> map_reserve (card (dom (st_key_map S))) additional) Capacity_Overflow) (\<lambda>_.
     Inr (S\<lparr>st_inner := inner\<rparr>)))"

definition storage_is_empty :: "('slab, 'd) slab_ops \<Rightarrow> 'slab storage \<Rightarrow> bool" where
  "storage_is_empty SL S = slab_is_empty SL (st_inner S)"

definition storage_contains :: "('slab, 'd) slab_ops \<Rightarrow> 'slab storage \<Rightarrow> key \<Rightarrow> bool" where
  "storage_contains SL S key =
     (case remap_key S key of
        Some internal_key \<Rightarrow> slab_contains SL (st_inner S) (ki_index internal_key)
      | None \<Rightarrow> False)"

text \<open>\<open>Index\<close> reads, \<open>IndexMut\<close> gives a reference through which the caller writes.\<close>

definition storage_index :: "('slab, 'd) slab_ops \<Rightarrow> 'slab storage \<Rightarrow> key \<Rightarrow> 'd res" where
  "storage_index SL S key =
     (case remap_key S key of
        Some internal_key \<Rightarrow>
          (case slab_get SL (st_inner S) (ki_index internal_key) of
             Some d \<Rightarrow> Inr d
           | None \<Rightarrow> Inl (Slab_Invalid_Key (ki_index internal_key)))
      | None \<Rightarrow> Inl (Invalid_Index (key_index key)))"

definition storage_index_mut ::
  "('slab, 'd) slab_ops \<Rightarrow> 'slab storage \<Rightarrow> key \<Rightarrow> ('d \<Rightarrow> 'd) \<Rightarrow> 'slab storage res" where
  "storage_index_mut SL S key f =
     (case remap_key S key of
        Some internal_key \<Rightarrow>
          (case slab_get SL (st_inner S) (ki_index internal_key) of
             Some d \<Rightarrow> Inr (S\<lparr>st_inner := slab_put SL (st_inner S) (ki_index internal_key) (f d)\<rparr>)
           | None \<Rightarrow> Inl (Slab_Invalid_Key (ki_index internal_key)))
      | None \<Rightarrow> Inl (Invalid_Index (key_index key)))"

section \<open>The map from handed-out keys to data\<close>

definition stored :: "('slab, 'd) slab_ops \<Rightarrow> 'slab storage \<Rightarrow> key \<rightharpoonup> 'd" where
  "stored SL S k = Option.bind (remap_key S k) (\<lambda>i. slab_get SL (st_inner S) (ki_index i))"

text \<open>
  The invariant: before the first \<open>compact\<close> the key map is empty, after it the key map takes
  the keys one to one to the occupied indices.
\<close>

definition storage_inv :: "('slab, 'd) slab_ops \<Rightarrow> ('slab \<Rightarrow> bool) \<Rightarrow> 'slab storage \<Rightarrow> bool" where
  "storage_inv SL ok S \<longleftrightarrow> ok (st_inner S) \<and>
     (if st_compact_called S
      then inj_on (st_key_map S) (dom (st_key_map S)) \<and>
           ran (st_key_map S) = KeyInternal ` dom (slab_get SL (st_inner S))
      else st_key_map S = Map.empty)"

lemma into_simps [simp]:
  "key_index (into_key i) = ki_index i" "ki_index (into_internal k) = key_index k"
  "into_internal (into_key i) = i" "into_key (into_internal k) = k"
  "into_key (KeyInternal n) = Key n" "into_internal (Key n) = KeyInternal n"
  by (simp_all add: into_key_def into_internal_def)

lemma stored_plain: "\<not> st_compact_called S \<Longrightarrow> stored SL S k = slab_get SL (st_inner S) (key_index k)"
  by (simp add: stored_def remap_key_def)

lemma stored_mapped:
  "st_compact_called S \<Longrightarrow>
   stored SL S k = Option.bind (st_key_map S k) (\<lambda>i. slab_get SL (st_inner S) (ki_index i))"
  by (simp add: stored_def remap_key_def)

lemma finite_keys [simp]: "finite (A :: key set)"
proof (rule finite_subset)
  show "A \<subseteq> range Key" by (metis key.exhaust rangeI subsetI)
qed simp

lemma remap_next_key [simp]: "remap_key (S\<lparr>st_next_key_index := n\<rparr>) = remap_key S"
  by (simp add: remap_key_def fun_eq_iff)

lemma stored_SomeD:
  assumes "stored SL S k = Some d"
  obtains i where "remap_key S k = Some i" "slab_get SL (st_inner S) (ki_index i) = Some d"
  using assms by (auto simp: stored_def bind_eq_Some_conv)

lemma storage_index_Some: "stored SL S k = Some d \<Longrightarrow> storage_index SL S k = Inr d"
  by (auto simp: storage_index_def elim: stored_SomeD)

lemma storage_index_Inr: "storage_index SL S k = Inr d \<longleftrightarrow> stored SL S k = Some d"
  by (auto simp: storage_index_def stored_def split: option.splits)

context slab_contract
begin

lemma storage_inv_ok: "storage_inv SL slab_ok S \<Longrightarrow> slab_ok (st_inner S)"
  by (simp add: storage_inv_def)

lemma storage_inv_mapped:
  assumes "storage_inv SL slab_ok S" "st_compact_called S"
  shows "inj_on (st_key_map S) (dom (st_key_map S))"
    "ran (st_key_map S) = KeyInternal ` dom (slab_get SL (st_inner S))"
    "dom (stored SL S) = dom (st_key_map S)"
proof -
  show "inj_on (st_key_map S) (dom (st_key_map S))"
    and r: "ran (st_key_map S) = KeyInternal ` dom (slab_get SL (st_inner S))"
    using assms by (simp_all add: storage_inv_def)
  have "ki_index i \<in> dom (slab_get SL (st_inner S))" if "st_key_map S k = Some i" for k i
    using ranI [of "st_key_map S", OF that] r by auto
  then show "dom (stored SL S) = dom (st_key_map S)"
    using assms(2) by (fastforce simp: stored_mapped bind_eq_Some_conv)
qed

lemma storage_inv_plain:
  assumes "storage_inv SL slab_ok S" "\<not> st_compact_called S"
  shows "st_key_map S = Map.empty" "stored SL S = slab_get SL (st_inner S) \<circ> key_index"
  using assms by (simp_all add: storage_inv_def stored_plain fun_eq_iff)

lemma remap_inj:
  assumes "storage_inv SL slab_ok S" "remap_key S k = Some i" "remap_key S k' = Some i"
  shows "k = k'"
proof (cases "st_compact_called S")
  case True
  then show ?thesis
    using assms inj_onD [OF storage_inv_mapped(1) [OF assms(1) True], of k k']
    by (auto simp: remap_key_def)
qed (use assms in \<open>auto simp: remap_key_def into_internal_def key.expand\<close>)

lemma card_stored:
  assumes inv: "storage_inv SL slab_ok S"
  shows "card (dom (stored SL S)) = card (dom (slab_get SL (st_inner S)))"
proof (cases "st_compact_called S")
  case True
  note m = storage_inv_mapped [OF inv True]
  have "card (dom (st_key_map S)) = card (st_key_map S ` dom (st_key_map S))"
    by (simp add: card_image m(1))
  also have "st_key_map S ` dom (st_key_map S) = Some ` ran (st_key_map S)"
    by (auto simp: ran_def) (metis domI imageI)
  also have "card \<dots> = card (KeyInternal ` dom (slab_get SL (st_inner S)))"
    by (simp add: card_image m(2))
  also have "\<dots> = card (dom (slab_get SL (st_inner S)))" by (rule card_image) (simp add: inj_on_def)
  finally show ?thesis by (simp add: m(3))
next
  case False
  have "dom (stored SL S) = Key ` dom (slab_get SL (st_inner S))"
    by (force simp: storage_inv_plain(2) [OF inv False] dom_def image_iff intro: key.collapse [symmetric])
  then show ?thesis by (simp add: card_image inj_on_def)
qed

lemma storage_len_ok: "storage_inv SL slab_ok S \<Longrightarrow> unat (storage_len SL S) = card (dom (stored SL S))"
  by (simp add: storage_len_def card_stored len_ok storage_inv_ok)

lemma storage_contains_ok: "storage_inv SL slab_ok S \<Longrightarrow> storage_contains SL S k \<longleftrightarrow> stored SL S k \<noteq> None"
  by (auto simp: storage_contains_def stored_def contains_ok storage_inv_ok split: option.splits)

lemma storage_is_empty_ok:
  assumes "storage_inv SL slab_ok S"
  shows "storage_is_empty SL S \<longleftrightarrow> stored SL S = Map.empty"
proof -
  have empty: "m = Map.empty \<longleftrightarrow> card (dom m) = 0" if "finite (dom m)" for m :: "'x \<rightharpoonup> 'y"
    using that by simp
  have "storage_is_empty SL S \<longleftrightarrow> card (dom (slab_get SL (st_inner S))) = 0"
    unfolding storage_is_empty_def is_empty_ok [OF storage_inv_ok [OF assms]] by (rule empty) simp
  also have "\<dots> \<longleftrightarrow> card (dom (stored SL S)) = 0" by (simp only: card_stored [OF assms])
  finally show ?thesis unfolding empty [of "stored SL S", OF finite_keys] .
qed

text \<open>Writing through \<open>IndexMut\<close>.\<close>

lemma storage_index_mut_ok:
  assumes inv: "storage_inv SL slab_ok S" and k: "stored SL S k = Some d"
  shows "\<exists>S'. storage_index_mut SL S k f = Inr S' \<and> storage_inv SL slab_ok S' \<and>
           stored SL S' = (stored SL S)(k \<mapsto> f d)"
proof -
  obtain i where i: "remap_key S k = Some i" "slab_get SL (st_inner S) (ki_index i) = Some d"
    using k by (rule stored_SomeD)
  note ok = storage_inv_ok [OF inv]
  let ?S = "S\<lparr>st_inner := slab_put SL (st_inner S) (ki_index i) (f d)\<rparr>"
  have d: "dom (slab_get SL (slab_put SL (st_inner S) (ki_index i) (f d))) = dom (slab_get SL (st_inner S))"
    using put_ok(2) [OF ok i(2)] i(2) by auto
  have r: "remap_key ?S = remap_key S" by (simp add: remap_key_def fun_eq_iff)
  have "stored SL ?S k' = ((stored SL S)(k \<mapsto> f d)) k'" for k'
    using i remap_inj [OF inv i(1), of k']
    by (cases "remap_key S k'") (auto simp: stored_def r put_ok(2) [OF ok i(2)] key_internal.expand)
  moreover have "storage_inv SL slab_ok ?S"
    using inv put_ok(1) [OF ok i(2)] by (simp add: storage_inv_def d)
  moreover have "storage_index_mut SL S k f = Inr ?S" using i by (simp add: storage_index_mut_def)
  ultimately show ?thesis by (auto simp: fun_eq_iff)
qed

text \<open>A new key: there are fewer keys than indices, so the search ends.\<close>

lemma new_key_loop_ok:
  assumes "m (Key (i + of_nat n)) = None"
  shows "\<exists>j. new_key_loop m i = Some (Inr j) \<and> m (Key j) = None"
  using assms
proof (induction n arbitrary: i)
  case 0
  then show ?case by (auto simp: new_key_loop.simps [of m i])
next
  case (Suc n)
  show ?case
  proof (cases "m (Key i) = None")
    case False
    have "m (Key (i + 1 + of_nat n)) = None" using Suc.prems by (simp add: add.assoc)
    from Suc.IH [OF this] False show ?thesis by (simp add: new_key_loop.simps [of m i])
  qed (auto simp: new_key_loop.simps [of m i])
qed

lemma create_new_key_ok:
  assumes "dom (st_key_map S) \<noteq> UNIV"
  shows "\<exists>j. create_new_key S = Inr (KeyInternal j, S\<lparr>st_next_key_index := j\<rparr>) \<and> st_key_map S (Key j) = None"
proof -
  let ?i = "st_next_key_index S"
  from assms obtain k where "st_key_map S k = None" by auto
  then have "st_key_map S (Key (?i + of_nat (unat (key_index k - ?i)))) = None" by simp
  from new_key_loop_ok [of "st_key_map S" ?i "unat (key_index k - ?i)", OF this]
  show ?thesis by (auto simp: create_new_key_def)
qed

lemma card_key: "card (UNIV :: key set) = 2 ^ 32"
proof -
  have "(UNIV :: key set) = range Key" by (metis UNIV_I key.exhaust rangeI set_eqI)
  moreover have "card (range Key) = 2 ^ 32" by (simp add: card_image inj_on_def card_word)
  ultimately show ?thesis by simp
qed

lemma few_not_UNIV: "card (A :: key set) < 2 ^ 32 \<Longrightarrow> A \<noteq> UNIV"
  using card_key by force

lemma MAX_ENTRIES_nat: "unat MAX_ENTRIES = 2 ^ 30 - 1"
  by (simp add: MAX_ENTRIES_def push_bit_eq_mult)

lemma storage_insert_plain:
  assumes inv: "storage_inv SL slab_ok S" and c: "\<not> st_compact_called S"
    and i: "slab_insert SL (st_inner S) d = Inr (i, s')" "slab_ok s'"
      "slab_get SL s' = (slab_get SL (st_inner S))(i \<mapsto> d)"
  shows "storage_insert SL S d = Inr (Key i, S\<lparr>st_inner := s'\<rparr>)"
    "storage_inv SL slab_ok (S\<lparr>st_inner := s'\<rparr>)"
    "stored SL (S\<lparr>st_inner := s'\<rparr>) = (stored SL S)(Key i \<mapsto> d)"
proof -
  note p = storage_inv_plain [OF inv c]
  show "storage_insert SL S d = Inr (Key i, S\<lparr>st_inner := s'\<rparr>)"
    using i(1) c p(1) by (simp add: storage_insert_def Let_def)
  show "storage_inv SL slab_ok (S\<lparr>st_inner := s'\<rparr>)" using i(2) c p(1) by (simp add: storage_inv_def)
  have "k = Key i \<longleftrightarrow> key_index k = i" for k by (cases k) simp
  then show "stored SL (S\<lparr>st_inner := s'\<rparr>) = (stored SL S)(Key i \<mapsto> d)"
    using c by (auto simp: fun_eq_iff stored_plain i(3))
qed

text \<open>After a compaction the new key is mapped to the index of the entry.\<close>

lemma storage_insert_mapped:
  assumes inv: "storage_inv SL slab_ok S" and c: "st_compact_called S" and k: "st_key_map S k = None"
    and i: "slab_ok s'" "slab_get SL (st_inner S) i = None"
      "slab_get SL s' = (slab_get SL (st_inner S))(i \<mapsto> d)"
    and S': "S' = S\<lparr>st_inner := s', st_key_map := (st_key_map S)(k \<mapsto> KeyInternal i), st_next_key_index := n\<rparr>"
  shows "storage_inv SL slab_ok S'" "stored SL S' = (stored SL S)(k \<mapsto> d)"
proof -
  note m = storage_inv_mapped [OF inv c]
  have fresh: "KeyInternal i \<notin> ran (st_key_map S)" using i(2) m(2) by auto
  then have not_i: "st_key_map S k' \<noteq> Some (KeyInternal i)" for k' by (auto simp: ran_def)
  have "inj_on ((st_key_map S)(k \<mapsto> KeyInternal i)) (insert k (dom (st_key_map S)))"
    using m(1) not_i by (auto simp: inj_on_def)
  moreover have "ran ((st_key_map S)(k \<mapsto> KeyInternal i)) = insert (KeyInternal i) (ran (st_key_map S))"
    by (rule ran_map_upd) (rule k)
  ultimately show "storage_inv SL slab_ok S'"
    using i c m(2) by (simp add: storage_inv_def S')
  show "stored SL S' = (stored SL S)(k \<mapsto> d)"
    using not_i c unfolding S'
    by (auto simp: fun_eq_iff stored_mapped i(3) bind_eq_None_conv split: Option.bind_splits)
qed

lemma storage_insert_ok:
  assumes inv: "storage_inv SL slab_ok S" and room: "storage_len SL S < MAX_ENTRIES"
  shows "\<exists>k S'. storage_insert SL S d = Inr (k, S') \<and> storage_inv SL slab_ok S' \<and>
           stored SL S k = None \<and> stored SL S' = (stored SL S)(k \<mapsto> d)"
proof -
  obtain i s' where i: "slab_insert SL (st_inner S) d = Inr (i, s')" "slab_ok s'"
      "slab_get SL (st_inner S) i = None" "slab_get SL s' = (slab_get SL (st_inner S))(i \<mapsto> d)"
    using insert_ok [OF storage_inv_ok [OF inv]] room unfolding storage_len_def by blast
  consider "\<not> st_compact_called S" | "st_compact_called S" "st_key_map S (Key i) = None"
    | "st_compact_called S" "st_key_map S (Key i) \<noteq> None" by blast
  then show ?thesis
  proof cases
    case 1
    then show ?thesis
      using storage_insert_plain [OF inv 1 i(1,2,4)] i(3) by (auto simp: stored_plain)
  next
    case 2
    have "storage_insert SL S d =
        Inr (Key i, S\<lparr>st_inner := s', st_key_map := (st_key_map S)(Key i \<mapsto> KeyInternal i),
                      st_next_key_index := st_next_key_index S\<rparr>)"
      using i(1) 2 by (simp add: storage_insert_def Let_def)
    then show ?thesis
      using storage_insert_mapped [OF inv 2 i(2-4) refl, where n = "st_next_key_index S"] 2 by (auto simp: stored_mapped)
  next
    case 3
    have "card (dom (st_key_map S)) < 2 ^ 32"
      using storage_len_ok [OF inv] room storage_inv_mapped(3) [OF inv 3(1)]
      by (simp add: word_less_nat_alt MAX_ENTRIES_nat)
    then have "dom (st_key_map S) \<noteq> UNIV" by (rule few_not_UNIV)
    then obtain j where j: "create_new_key (S\<lparr>st_inner := s'\<rparr>) =
        Inr (KeyInternal j, S\<lparr>st_inner := s', st_next_key_index := j\<rparr>)" "st_key_map S (Key j) = None"
      using create_new_key_ok [of "S\<lparr>st_inner := s'\<rparr>"] by auto
    have "storage_insert SL S d =
        Inr (Key j, S\<lparr>st_inner := s', st_key_map := (st_key_map S)(Key j \<mapsto> KeyInternal i), st_next_key_index := j\<rparr>)"
      using i(1) 3 j by (simp add: storage_insert_def Let_def)
    then show ?thesis
      using storage_insert_mapped [OF inv 3(1) j(2) i(2-4) refl] 3(1) j(2) by (auto simp: stored_mapped)
  qed
qed

lemma storage_remove_Some:
  assumes inv: "storage_inv SL slab_ok S" and k: "stored SL S k = Some d"
  shows "\<exists>S'. storage_remove SL S k = Inr (d, S') \<and> storage_inv SL slab_ok S' \<and>
           stored SL S' = (stored SL S)(k := None)"
proof -
  obtain i where i: "remap_key S k = Some i" "slab_get SL (st_inner S) (ki_index i) = Some d"
    using k by (rule stored_SomeD)
  obtain s' where s': "slab_remove SL (st_inner S) (ki_index i) = Inr (d, s')" "slab_ok s'"
      "slab_get SL s' = (slab_get SL (st_inner S))(ki_index i := None)"
    using remove_Some [OF storage_inv_ok [OF inv] i(2)] by blast
  show ?thesis
  proof (cases "st_compact_called S")
    case True
    note m = storage_inv_mapped [OF inv True]
    let ?S = "S\<lparr>st_inner := s', st_key_map := (st_key_map S)(k := None)\<rparr>"
    have ki: "st_key_map S k = Some i" using i(1) True by (simp add: remap_key_def)
    have other: "st_key_map S k' \<noteq> Some i" if "k' \<noteq> k" for k'
      using that remap_inj [OF inv i(1), of k'] True by (auto simp: remap_key_def)
    have "ran ((st_key_map S)(k := None)) = ran (st_key_map S) - {i}"
    proof (intro set_eqI iffI)
      fix x assume "x \<in> ran (st_key_map S) - {i}"
      then obtain a where a: "st_key_map S a = Some x" "x \<noteq> i" by (auto simp: ran_def)
      then have "((st_key_map S)(k := None)) a = Some x" using ki by auto
      then show "x \<in> ran ((st_key_map S)(k := None))" by (rule ranI)
    qed (use other in \<open>auto simp: ran_def split: if_splits\<close>)
    also have "\<dots> = KeyInternal ` dom (slab_get SL s')"
      unfolding m(2) s'(3) by (cases i) auto
    finally have "storage_inv SL slab_ok ?S"
      using s'(2) True m(1) by (auto simp: storage_inv_def inj_on_def)
    moreover have "stored SL ?S k' = ((stored SL S)(k := None)) k'" for k'
      using True other [of k'] by (cases "st_key_map S k'") (auto simp: stored_mapped s'(3) key_internal.expand)
    moreover have "storage_remove SL S k = Inr (d, ?S)"
      using True ki s'(1) by (simp add: storage_remove_def)
    ultimately show ?thesis by (auto simp: fun_eq_iff)
  next
    case False
    let ?S = "S\<lparr>st_inner := s'\<rparr>"
    have ki: "i = into_internal k" using i(1) False by (simp add: remap_key_def)
    have "storage_inv SL slab_ok ?S" using inv False s'(2) by (simp add: storage_inv_def)
    moreover have "stored SL ?S k' = ((stored SL S)(k := None)) k'" for k'
      using False ki by (auto simp: stored_plain s'(3) key.expand)
    moreover have "storage_remove SL S k = Inr (d, ?S)"
      using False ki s'(1) by (simp add: storage_remove_def)
    ultimately show ?thesis by (auto simp: fun_eq_iff)
  qed
qed

text \<open>A key that names nothing panics, after a compaction with the queue's own message.\<close>

lemma storage_remove_None:
  assumes inv: "storage_inv SL slab_ok S" and k: "stored SL S k = None"
  shows "storage_remove SL S k =
           Inl (if st_compact_called S then Invalid_Key else Slab_Invalid_Key (key_index k))"
proof (cases "st_compact_called S")
  case True
  have "k \<notin> dom (stored SL S)" using k by auto
  then have "st_key_map S k = None" by (simp only: storage_inv_mapped(3) [OF inv True]) auto
  then show ?thesis using True by (simp add: storage_remove_def)
next
  case False
  then show ?thesis
    using k remove_None [OF storage_inv_ok [OF inv], of "key_index k"]
    by (simp add: storage_remove_def stored_plain)
qed

section \<open>Compaction\<close>

lemma remapping_map_of:
  "distinct (map fst ms) \<Longrightarrow>
   foldl (\<lambda>m (from, to). m(from \<mapsto> to)) m0 ms = m0 ++ map_of ms"
proof (induction ms arbitrary: m0)
  case (Cons p ms)
  obtain i j where p: "p = (i, j)" by (cases p)
  have "i \<notin> dom (map_of ms)" using Cons.prems p by (simp add: dom_map_of_conv_image_fst)
  then have "m0(i \<mapsto> j) ++ map_of ms = m0 ++ (map_of ms)(i \<mapsto> j)"
    by (auto simp: fun_eq_iff map_add_def split: option.splits)
  then show ?case using Cons p by (simp del: fun_upd_apply)
qed simp

lemma identity_map:
  "foldl (\<lambda>m key. m(Key key \<mapsto> KeyInternal key)) m0 ks k =
     (if key_index k \<in> set ks then Some (into_internal k) else m0 k)"
  by (induction ks arbitrary: m0) (auto simp: into_internal_def)

text \<open>The key map before its values are remapped: one entry for every entry of the slab.\<close>

definition full_map :: "'slab storage \<Rightarrow> key \<rightharpoonup> key_internal" where
  "full_map S =
     (if st_compact_called S then st_key_map S
      else (\<lambda>k. if key_index k \<in> dom (slab_get SL (st_inner S)) then Some (into_internal k) else None))"

lemma full_map_ok:
  assumes inv: "storage_inv SL slab_ok S"
  shows "inj_on (full_map S) (dom (full_map S))"
    "ran (full_map S) = KeyInternal ` dom (slab_get SL (st_inner S))"
    "stored SL S k = Option.bind (full_map S k) (\<lambda>i. slab_get SL (st_inner S) (ki_index i))"
proof -
  show "inj_on (full_map S) (dom (full_map S))"
    using storage_inv_mapped(1) [OF inv]
    by (auto simp: full_map_def inj_on_def into_internal_def key.expand split: if_splits)
  have "KeyInternal i \<in> ran (full_map S)" if "slab_get SL (st_inner S) i = Some d" "\<not> st_compact_called S" for i d
    by (rule ranI [of _ "Key i"]) (use that in \<open>auto simp: full_map_def\<close>)
  then have "\<not> st_compact_called S \<Longrightarrow> KeyInternal ` dom (slab_get SL (st_inner S)) \<subseteq> ran (full_map S)"
    by auto
  moreover have "\<not> st_compact_called S \<Longrightarrow> ran (full_map S) \<subseteq> KeyInternal ` dom (slab_get SL (st_inner S))"
    by (auto simp: full_map_def ran_def into_internal_def split: if_splits)
  moreover have "st_compact_called S \<Longrightarrow> ran (full_map S) = KeyInternal ` dom (slab_get SL (st_inner S))"
    using storage_inv_mapped(2) [OF inv] by (simp add: full_map_def)
  ultimately show "ran (full_map S) = KeyInternal ` dom (slab_get SL (st_inner S))" by blast
  show "stored SL S k = Option.bind (full_map S k) (\<lambda>i. slab_get SL (st_inner S) (ki_index i))"
    by (auto simp: full_map_def stored_def remap_key_def)
qed

lemma storage_compact_eq:
  assumes inv: "storage_inv SL slab_ok S" and c: "slab_compact SL (st_inner S) = (ms, s')"
  shows "storage_compact SL S = S\<lparr>st_inner := s', st_compact_called := True,
           st_key_map := \<lambda>k. map_option (\<lambda>i. KeyInternal (moved ms (ki_index i))) (full_map S k)\<rparr>"
proof -
  note ok = storage_inv_ok [OF inv]
  have "distinct (map fst ms)" using compact_ok [OF ok c] by blast
  then have re: "foldl (\<lambda>m (from, to). m(from \<mapsto> to)) Map.empty ms = map_of ms"
    by (simp add: remapping_map_of)
  have "(if \<not> st_compact_called S
         then foldl (\<lambda>m key. m(Key key \<mapsto> KeyInternal key)) (st_key_map S) (slab_iter SL (st_inner S))
         else st_key_map S) = full_map S"
    using storage_inv_plain(1) [OF inv] by (auto simp: full_map_def identity_map iter_ok(1) [OF ok] fun_eq_iff)
  moreover have "(case map_of ms (ki_index i) of Some n \<Rightarrow> KeyInternal n | None \<Rightarrow> i) =
      KeyInternal (moved ms (ki_index i))" for i
    by (cases i) (simp add: moved_def split: option.splits)
  ultimately show ?thesis unfolding storage_compact_def by (simp add: c re Let_def)
qed

lemma storage_compact_ok:
  assumes inv: "storage_inv SL slab_ok S"
  shows "storage_inv SL slab_ok (storage_compact SL S)" (is ?inv)
    and "stored SL (storage_compact SL S) = stored SL S" (is ?same)
    and "storage_capacity SL (storage_compact SL S) \<le> storage_capacity SL S" (is ?cap)
proof -
  let ?get = "slab_get SL (st_inner S)"
  obtain ms s' where c: "slab_compact SL (st_inner S) = (ms, s')" by force
  note eq = storage_compact_eq [OF inv c]
  have co: "slab_ok s'" "inj_on (moved ms) (dom ?get)" "dom (slab_get SL s') = moved ms ` dom ?get"
    "\<And>i. i \<in> dom ?get \<Longrightarrow> slab_get SL s' (moved ms i) = ?get i"
    using compact_ok [OF storage_inv_ok [OF inv] c] by blast+
  note f = full_map_ok [OF inv]
  have dom: "ki_index i \<in> dom ?get" if "full_map S k = Some i" for k i
    using ranI [of "full_map S", OF that] f(2) by auto
  let ?m = "\<lambda>k. map_option (\<lambda>i. KeyInternal (moved ms (ki_index i))) (full_map S k)"
  have "inj_on ?m (dom ?m)"
  proof (rule inj_onI)
    fix k k' assume "k \<in> dom ?m" "k' \<in> dom ?m" and e: "?m k = ?m k'"
    then obtain i i' where i: "full_map S k = Some i" "full_map S k' = Some i'" by auto
    then have "i = i'" using e inj_onD [OF co(2) _ dom [OF i(1)] dom [OF i(2)]]
      by (simp add: key_internal.expand)
    then show "k = k'" using inj_onD [OF f(1), of k k'] i by auto
  qed
  moreover have "ran ?m = (\<lambda>i. KeyInternal (moved ms (ki_index i))) ` ran (full_map S)"
    by (auto simp: ran_def)
  then have "ran ?m = KeyInternal ` dom (slab_get SL s')"
    by (simp add: f(2) image_image co(3))
  ultimately show ?inv using co(1) by (simp add: eq storage_inv_def)
  have "stored SL (storage_compact SL S) k = stored SL S k" for k
    using co(4) dom [of k] by (cases "full_map S k") (simp_all add: eq stored_mapped f(3))
  then show ?same by (simp add: fun_eq_iff)
  show ?cap
    using compact_capacity [OF storage_inv_ok [OF inv] c] by (simp add: eq storage_capacity_def storage_len_def)
qed

section \<open>The other operations\<close>

lemma storage_new_ok:
  "storage_inv SL slab_ok (storage_with_capacity SL c)" "stored SL (storage_with_capacity SL c) = Map.empty"
  by (simp_all add: storage_inv_def storage_with_capacity_def with_capacity_ok stored_plain fun_eq_iff)

lemma storage_clear_ok:
  assumes "storage_inv SL slab_ok S"
  shows "storage_inv SL slab_ok (storage_clear SL S)" "stored SL (storage_clear SL S) = Map.empty"
  using clear_ok [OF storage_inv_ok [OF assms]]
  by (simp_all add: storage_inv_def storage_clear_def stored_plain fun_eq_iff)

lemma storage_reserve_ok:
  assumes "storage_inv SL slab_ok S"
  shows "storage_reserve SL map_reserve S n = Inr S' \<Longrightarrow> storage_inv SL slab_ok S' \<and> stored SL S' = stored SL S \<and>
      unat (storage_len SL S) + unat n \<le> unat (storage_capacity SL S')"
    and "storage_reserve SL map_reserve S n = Inl e \<Longrightarrow> e = Capacity_Overflow \<and>
      (unat (storage_capacity SL S) < unat (storage_len SL S) + unat n \<or>
       st_compact_called S \<and> \<not> map_reserve (card (dom (st_key_map S))) n)"
proof -
  note ok = storage_inv_ok [OF assms]
  show "storage_inv SL slab_ok S' \<and> stored SL S' = stored SL S \<and>
      unat (storage_len SL S) + unat n \<le> unat (storage_capacity SL S')" if r: "storage_reserve SL map_reserve S n = Inr S'"
  proof -
    obtain inner where i: "slab_reserve SL (st_inner S) n = Inr inner" "S' = S\<lparr>st_inner := inner\<rparr>"
      using r by (auto simp: storage_reserve_def rbind_def check_def split: sum.splits if_splits)
    show ?thesis using assms reserve_Inr [OF ok i(1)]
      by (simp add: i(2) storage_inv_def stored_def remap_key_def storage_len_def storage_capacity_def fun_eq_iff [of "stored _ _"])
  qed
  show "e = Capacity_Overflow \<and> (unat (storage_capacity SL S) < unat (storage_len SL S) + unat n \<or>
       st_compact_called S \<and> \<not> map_reserve (card (dom (st_key_map S))) n)" if "storage_reserve SL map_reserve S n = Inl e"
    using that reserve_Inl [OF ok, of n]
    by (auto simp: storage_reserve_def storage_len_def storage_capacity_def check_def rbind_def split: sum.splits if_splits)
qed

lemma storage_shrink_ok:
  assumes "storage_inv SL slab_ok S"
  shows "storage_inv SL slab_ok (storage_shrink_to_fit SL S)" "stored SL (storage_shrink_to_fit SL S) = stored SL S"
  using assms shrink_ok [OF storage_inv_ok [OF assms]]
  by (simp_all add: storage_inv_def storage_shrink_to_fit_def stored_def remap_key_def fun_eq_iff [of "stored _ _"])

end

end
