(* ===== verification/Stack_Trait.thy ===== *)
theory Stack_Trait
  imports Prelude
begin

text \<open>
  The trait \<open>Stack\<close> of \<open>wheel/stack.rs\<close>, through which the timer wheel
  reaches the entries of a slot. The trait's operations are the fields of a record, the
  dictionary a generic function of the wheel receives; the store that every operation is
  passed is threaded through. Only keys are ever borrowed, so an owned and a borrowed item
  are the same value here.

  The locale \<open>stack_contract\<close> states what the wheel relies on: which list of items a
  stack holds in a store, what each operation does to that list, and that an operation
  leaves alone the stacks that share no item with the one it works on.
\<close>

record ('stk, 'own, 'store) stack_ops =
  stk_default :: 'stk
  stk_is_empty :: "'stk \<Rightarrow> bool"
  stk_push :: "'stk \<Rightarrow> 'own \<Rightarrow> 'store \<Rightarrow> ('stk \<times> 'store) res"
  stk_pop :: "'stk \<Rightarrow> 'store \<Rightarrow> ('own option \<times> 'stk \<times> 'store) res"
  stk_remove :: "'stk \<Rightarrow> 'own \<Rightarrow> 'store \<Rightarrow> ('stk \<times> 'store) res"
  stk_when :: "'own \<Rightarrow> 'store \<Rightarrow> u64 res"

text \<open>
  From store \<open>st\<close> to store \<open>st'\<close> nothing changed outside the items \<open>A\<close>:
  stacks without an item of \<open>A\<close> hold what they held, an item outside \<open>A\<close> that was in
  no stack still is in none, and the data of the items (\<open>core\<close>) is the same.
\<close>

definition frame ::
  "('store \<Rightarrow> 'stk \<Rightarrow> 'own list \<Rightarrow> bool) \<Rightarrow> ('store \<Rightarrow> 'own \<Rightarrow> bool) \<Rightarrow>
   ('store \<Rightarrow> 'v) \<Rightarrow> 'store \<Rightarrow> 'store \<Rightarrow> 'own set \<Rightarrow> bool" where
  "frame repr loose core st st' A \<longleftrightarrow>
     (\<forall>s ys. repr st s ys \<longrightarrow> set ys \<inter> A = {} \<longrightarrow> repr st' s ys) \<and>
     (\<forall>y. y \<notin> A \<longrightarrow> loose st y \<longrightarrow> loose st' y) \<and>
     core st' = core st"

lemma frame_repr: "frame repr loose core st st' A \<Longrightarrow> repr st s ys \<Longrightarrow> set ys \<inter> A = {} \<Longrightarrow> repr st' s ys"
  by (simp add: frame_def)

lemma frame_loose: "frame repr loose core st st' A \<Longrightarrow> loose st y \<Longrightarrow> y \<notin> A \<Longrightarrow> loose st' y"
  by (simp add: frame_def)

lemma frame_core: "frame repr loose core st st' A \<Longrightarrow> core st' = core st"
  by (simp add: frame_def)

lemma frame_refl [simp]: "frame repr loose core st st A"
  by (simp add: frame_def)

lemma frame_mono: "frame repr loose core st st' A \<Longrightarrow> A \<subseteq> B \<Longrightarrow> frame repr loose core st st' B"
  by (force simp: frame_def)

lemma frame_trans:
  "frame repr loose core st st' A \<Longrightarrow> frame repr loose core st' st'' A \<Longrightarrow>
   frame repr loose core st st'' A"
  by (force simp: frame_def)

locale stack_contract =
  fixes ops :: "('stk, 'own, 'store) stack_ops"
    and repr :: "'store \<Rightarrow> 'stk \<Rightarrow> 'own list \<Rightarrow> bool"
    and loose :: "'store \<Rightarrow> 'own \<Rightarrow> bool"
    and core :: "'store \<Rightarrow> 'v"
    and due :: "'v \<Rightarrow> 'own \<Rightarrow> u64"
    and good :: "'store \<Rightarrow> bool"
  assumes repr_good: "repr st s xs \<Longrightarrow> good st"
    and repr_default: "good st \<Longrightarrow> repr st (stk_default ops) []"
    and repr_is_empty: "repr st s xs \<Longrightarrow> stk_is_empty ops s \<longleftrightarrow> xs = []"
    and repr_distinct: "repr st s xs \<Longrightarrow> distinct xs"
    and when_repr: "repr st s xs \<Longrightarrow> x \<in> set xs \<Longrightarrow> stk_when ops x st = Inr (due (core st) x)"
    and when_loose: "loose st x \<Longrightarrow> stk_when ops x st = Inr (due (core st) x)"
    and push_ok: "repr st s xs \<Longrightarrow> loose st x \<Longrightarrow> x \<notin> set xs \<Longrightarrow>
      \<exists>s' st'. stk_push ops s x st = Inr (s', st') \<and> repr st' s' (x # xs) \<and>
        frame repr loose core st st' (insert x (set xs))"
    and pop_Nil: "repr st s [] \<Longrightarrow> stk_pop ops s st = Inr (None, s, st)"
    and pop_Cons: "repr st s (x # xs) \<Longrightarrow>
      \<exists>s' st'. stk_pop ops s st = Inr (Some x, s', st') \<and> repr st' s' xs \<and> loose st' x \<and>
        frame repr loose core st st' (set (x # xs))"
    and remove_ok: "repr st s xs \<Longrightarrow> x \<in> set xs \<Longrightarrow>
      \<exists>s' st'. stk_remove ops s x st = Inr (s', st') \<and> repr st' s' (remove1 x xs) \<and> loose st' x \<and>
        frame repr loose core st st' (set xs)"

end
