(* ===== verification/Level.thy ===== *)
theory Level
  imports Stack_Trait
begin

text \<open>
  One level of the timer wheel (\<open>wheel/level.rs\<close>): 64 slots, each a stack of
  entries, and a bit field that tells which slots are occupied. First the definitions, then
  the arithmetic of slots, deadlines and the bit field over \<open>nat\<close>, then what each
  operation does to the entries a level holds, proved for any stack that keeps the contract.
\<close>

record 'stk level =
  lv_level :: nat
  lv_occupied :: u64
  lv_slot :: "'stk list"

record expiration =
  ex_level :: nat
  ex_slot :: nat
  ex_deadline :: u64

definition LEVEL_MULT :: usize where
  "LEVEL_MULT = 64"

definition level_new :: "('stk, 'own, 'store) stack_ops \<Rightarrow> nat \<Rightarrow> 'stk level" where
  "level_new ops l = \<lparr>lv_level = l, lv_occupied = 0, lv_slot = replicate (unat LEVEL_MULT) (stk_default ops)\<rparr>"

definition level_debug :: "'stk level \<Rightarrow> string" where
  "level_debug self = debug_struct ''Level'' [(''occupied'', decimal (unat (lv_occupied self)))]"

definition occupied_bit :: "nat \<Rightarrow> u64" where
  "occupied_bit slot = push_bit slot 1"

definition slot_range :: "nat \<Rightarrow> u64" where
  "slot_range l = ucast (LEVEL_MULT ^ l)"

definition level_range :: "nat \<Rightarrow> u64" where
  "level_range l = ucast LEVEL_MULT * slot_range l"

definition slot_for :: "u64 \<Rightarrow> nat \<Rightarrow> nat" where
  "slot_for duration l = unat (drop_bit (l * 6) duration mod ucast LEVEL_MULT)"

definition next_occupied_slot :: "build \<Rightarrow> 'stk level \<Rightarrow> u64 \<Rightarrow> nat option res" where
  "next_occupied_slot b L now =
     (if lv_occupied L = 0 then Inr None
      else
        let now_slot = (ucast (now div slot_range (lv_level L)) :: usize);
            occupied = word_rotr (unat now_slot) (lv_occupied L);
            zeros = (of_nat (trailing_zeros occupied) :: usize)
        in rbind (usize_add b zeros now_slot) (\<lambda>s. Inr (Some (unat (s mod 64)))))"

definition next_expiration :: "build \<Rightarrow> 'stk level \<Rightarrow> u64 \<Rightarrow> expiration option res" where
  "next_expiration b L now =
     rbind (next_occupied_slot b L now) (\<lambda>o_slot. case o_slot of
       None \<Rightarrow> Inr None
     | Some slot \<Rightarrow>
         let lrange = level_range (lv_level L);
             srange = slot_range (lv_level L);
             level_start = now - (now mod lrange);
             deadline = level_start + of_nat slot * srange
         in rbind (debug_check b (Inr (now \<le> deadline))) (\<lambda>_.
            Inr (Some \<lparr>ex_level = lv_level L, ex_slot = slot, ex_deadline = deadline\<rparr>)))"

definition add_entry ::
  "('stk, 'own, 'store) stack_ops \<Rightarrow> 'stk level \<Rightarrow> u64 \<Rightarrow> 'own \<Rightarrow> 'store \<Rightarrow> ('stk level \<times> 'store) res" where
  "add_entry ops L when item st =
     (let slot = slot_for when (lv_level L) in
      rbind (index_get (lv_slot L) slot) (\<lambda>s.
      rbind (stk_push ops s item st) (\<lambda>(s', st').
      rbind (index_set (lv_slot L) slot s') (\<lambda>slots.
      Inr (L\<lparr>lv_slot := slots, lv_occupied := lv_occupied L OR occupied_bit slot\<rparr>, st')))))"

definition remove_entry ::
  "build \<Rightarrow> ('stk, 'own, 'store) stack_ops \<Rightarrow> 'stk level \<Rightarrow> u64 \<Rightarrow> 'own \<Rightarrow> 'store \<Rightarrow>
   ('stk level \<times> 'store) res" where
  "remove_entry b ops L when item st =
     (let slot = slot_for when (lv_level L) in
      rbind (index_get (lv_slot L) slot) (\<lambda>s.
      rbind (stk_remove ops s item st) (\<lambda>(s', st').
      rbind (index_set (lv_slot L) slot s') (\<lambda>slots.
      if stk_is_empty ops s' then
        rbind (debug_check b (Inr (lv_occupied L AND occupied_bit slot \<noteq> 0))) (\<lambda>_.
        Inr (L\<lparr>lv_slot := slots, lv_occupied := lv_occupied L XOR occupied_bit slot\<rparr>, st'))
      else Inr (L\<lparr>lv_slot := slots\<rparr>, st')))))"

definition pop_entry_slot ::
  "build \<Rightarrow> ('stk, 'own, 'store) stack_ops \<Rightarrow> 'stk level \<Rightarrow> nat \<Rightarrow> 'store \<Rightarrow>
   ('own option \<times> 'stk level \<times> 'store) res" where
  "pop_entry_slot b ops L slot st =
     rbind (index_get (lv_slot L) slot) (\<lambda>s.
     rbind (stk_pop ops s st) (\<lambda>(ret, s', st').
     rbind (index_set (lv_slot L) slot s') (\<lambda>slots.
     if ret \<noteq> None \<and> stk_is_empty ops s' then
       rbind (debug_check b (Inr (lv_occupied L AND occupied_bit slot \<noteq> 0))) (\<lambda>_.
       Inr (ret, L\<lparr>lv_slot := slots, lv_occupied := lv_occupied L XOR occupied_bit slot\<rparr>, st'))
     else Inr (ret, L\<lparr>lv_slot := slots\<rparr>, st'))))"

section \<open>Slots and deadlines in arithmetic\<close>

lemma pow64: "(2::nat) ^ (l * 6) = 64 ^ l"
  using power_mult [of "2::nat" 6 l] by (simp add: mult.commute)

lemma level_cases: "l < (6::nat) \<Longrightarrow> l = 0 \<or> l = 1 \<or> l = 2 \<or> l = 3 \<or> l = 4 \<or> l = 5"
  by linarith

lemma unat_slot_range: "l < 6 \<Longrightarrow> unat (slot_range l) = 64 ^ l"
  by (drule level_cases) (auto simp: slot_range_def LEVEL_MULT_def)

lemma unat_level_range: "l < 6 \<Longrightarrow> unat (level_range l) = 64 ^ Suc l"
  by (drule level_cases) (auto simp: level_range_def slot_range_def LEVEL_MULT_def)

lemma unat_drop_bit6: "unat (drop_bit (l * 6) (w::u64)) = unat w div 64 ^ l"
proof -
  have "unat (drop_bit (l * 6) w) = drop_bit (l * 6) (unat w)" by (rule unat_drop_bit_eq)
  also have "\<dots> = unat w div 64 ^ l" by (simp add: drop_bit_eq_div pow64)
  finally show ?thesis .
qed

lemma slot_for_nat: "slot_for w l = (unat w div 64 ^ l) mod 64"
  by (simp add: slot_for_def LEVEL_MULT_def unat_mod unat_drop_bit6)

lemma slot_for_less [simp]: "slot_for w l < 64"
  by (simp add: slot_for_nat)

lemma bit_occupied_bit: "s < 64 \<Longrightarrow> bit (occupied_bit s) i \<longleftrightarrow> i = s"
  by (auto simp: occupied_bit_def bit_simps)

lemma occupied_and: "s < 64 \<Longrightarrow> (w AND occupied_bit s) \<noteq> 0 \<longleftrightarrow> bit w s"
  by (auto simp: bit_eq_iff [of "w AND _"] bit_and_iff bit_occupied_bit)

lemma unat_now_slot:
  assumes "l < 6"
  shows "unat (ucast (now div slot_range l) :: usize) = (unat now div 64 ^ l) mod 2 ^ 32"
  using assms by (simp add: unsigned_ucast_eq take_bit_eq_mod unat_div unat_slot_range)

lemma mod_mod_64: "(n mod 2 ^ 32) mod 64 = n mod (64::nat)"
  by (simp add: mod_mod_cancel)

lemma usize_add_ok:
  assumes "b = Debug \<longrightarrow> unat x + unat y < 2 ^ 32"
  shows "usize_add b x y = Inr (x + y)"
  using assms by (auto simp: usize_add_def)

text \<open>
  The rotation by the current slot finds the lowest occupied slot, when none lies before it. The number of
  the slot is then added to a multiple of 64, so that the sum stays in the 32 bits.\<close>

lemma rotated_trailing_zeros:
  assumes occ: "bit w s" and least: "\<And>j. bit w j \<Longrightarrow> s \<le> j"
    and cs: "n mod 64 \<le> s"
  shows "trailing_zeros (word_rotr n w) = s - n mod 64"
proof (rule trailing_zeros_eqI)
  have s64: "s < 64" using bit_imp_le_length [OF occ] by simp
  have "(s - n mod 64 + n) mod 64 = (s - n mod 64 + n mod 64) mod 64" by (simp add: mod_add_right_eq)
  also have "\<dots> = s" using cs s64 by simp
  finally show "bit (word_rotr n w) (s - n mod 64)" using occ s64 by (simp add: bit_word_rotr_iff)
  fix i assume i: "i < s - n mod 64"
  have "(i + n) mod 64 = (i + n mod 64) mod 64" by (simp add: mod_add_right_eq)
  also have "\<dots> = i + n mod 64" using i s64 by simp
  finally show "\<not> bit (word_rotr n w) i" using i least [of "i + n mod 64"]
    by (auto simp: bit_word_rotr_iff)
qed

lemma next_occupied_slot_None: "lv_occupied L = 0 \<Longrightarrow> next_occupied_slot b L now = Inr None"
  by (simp add: next_occupied_slot_def)

lemma next_occupied_slot_Some:
  assumes l: "lv_level L < 6" and occ: "bit (lv_occupied L) s"
    and least: "\<And>j. bit (lv_occupied L) j \<Longrightarrow> s \<le> j"
    and cs: "slot_for now (lv_level L) \<le> s"
  shows "next_occupied_slot b L now = Inr (Some s)"
proof -
  let ?n = "(ucast (now div slot_range (lv_level L)) :: usize)"
  let ?k = "s - unat ?n mod 64"
  have s64: "s < 64" using bit_imp_le_length [OF occ] by simp
  have un: "unat ?n = (unat now div 64 ^ lv_level L) mod 2 ^ 32" by (rule unat_now_slot [OF l])
  have nm: "unat ?n mod 64 = slot_for now (lv_level L)"
    unfolding un mod_mod_64 by (simp add: slot_for_nat)
  have tz: "trailing_zeros (word_rotr (unat ?n) (lv_occupied L)) = ?k"
    by (rule rotated_trailing_zeros) (use occ least cs nm in auto)
  have k: "unat (of_nat ?k :: usize) = ?k" using s64 by (simp add: unat_of_nat)
  have "?k + unat ?n mod 64 = s" using cs nm by simp
  have "unat ?n div 64 < 2 ^ 26" using unsigned_less [of ?n] by (simp add: div_less_iff_less_mult)
  then have "unat ?n div 64 * 64 + 64 \<le> 2 ^ 32" by simp
  moreover have "unat ?n = unat ?n div 64 * 64 + unat ?n mod 64" by simp
  ultimately have ok: "b = Debug \<longrightarrow> unat (of_nat ?k :: usize) + unat ?n < 2 ^ 32"
    using \<open>?k + unat ?n mod 64 = s\<close> s64 unfolding k by linarith
  have "unat ((of_nat ?k + ?n) mod 64) = ((?k + unat ?n) mod 2 ^ 32) mod 64"
    unfolding unat_mod unat_word_ariths(1) k by simp
  also have "\<dots> = (?k + unat ?n mod 64) mod 64" unfolding mod_mod_64 by (simp add: mod_add_right_eq)
  also have "\<dots> = s" using cs s64 nm by simp
  finally have sum: "unat ((of_nat ?k + ?n) mod 64) = s" .
  have "lv_occupied L \<noteq> 0" using occ by auto
  then show ?thesis
    unfolding next_occupied_slot_def Let_def tz by (simp add: usize_add_ok [OF ok] sum)
qed

text \<open>The instant at which slot \<open>s\<close> of level \<open>l\<close> is due, seen from time \<open>e\<close>.\<close>

definition slot_start :: "nat \<Rightarrow> nat \<Rightarrow> nat \<Rightarrow> nat" where
  "slot_start e l s = e div 64 ^ Suc l * 64 ^ Suc l + s * 64 ^ l"

lemma unat_block_start:
  assumes "l < 6"
  shows "unat (now - now mod level_range l) = unat now div 64 ^ Suc l * 64 ^ Suc l"
proof -
  have le: "now mod level_range l \<le> now" by (simp add: word_le_nat_alt unat_mod)
  show ?thesis
    unfolding unat_sub [OF le] unat_mod unat_level_range [OF assms]
    by (simp add: minus_mod_eq_div_mult)
qed

lemma pow64_dvd: "l < 6 \<Longrightarrow> (64::nat) ^ Suc l dvd 2 ^ 64"
  by (drule level_cases) auto

lemma multiple_below:
  assumes "m dvd N" "q * m < N"
  shows "q * m + m \<le> (N::nat)"
proof -
  from assms(1) obtain k where k: "N = k * m" by (auto simp: dvd_def mult.commute)
  with assms(2) have "Suc q \<le> k" by auto
  then have "Suc q * m \<le> k * m" by (rule mult_le_mono1)
  then show ?thesis by (simp add: k)
qed

lemma block_end_bound:
  assumes "l < 6"
  shows "unat (now::u64) div 64 ^ Suc l * 64 ^ Suc l + 64 ^ Suc l \<le> 2 ^ 64"
proof (rule multiple_below [OF pow64_dvd [OF assms]])
  have "unat now div 64 ^ Suc l * 64 ^ Suc l \<le> unat now" by (rule div_times_less_eq_dividend)
  also have "\<dots> < 2 ^ 64" by (rule unat_u64_less)
  finally show "unat now div 64 ^ Suc l * 64 ^ Suc l < 2 ^ 64" .
qed

lemma slot_start_less:
  assumes "s < 64"
  shows "slot_start e l s < e div 64 ^ Suc l * 64 ^ Suc l + 64 ^ Suc l"
  using assms by (simp add: slot_start_def)

lemma unat_deadline:
  assumes l: "l < 6" and s: "s < 64"
  shows "unat (now - now mod level_range l + of_nat s * slot_range l) = slot_start (unat now) l s"
proof -
  have b: "slot_start (unat now) l s < 2 ^ 64"
    using slot_start_less [OF s, of "unat now" l] block_end_bound [OF l, of now] by linarith
  have "s * 64 ^ l < (2::nat) ^ 64" using b by (simp add: slot_start_def)
  then have p: "unat (of_nat s * slot_range l) = s * 64 ^ l"
    using s by (simp add: unat_word_ariths unat_of_nat unat_slot_range [OF l])
  show ?thesis
    unfolding unat_word_ariths(1) p unat_block_start [OF l]
    using b by (simp add: slot_start_def)
qed

lemma next_expiration_None: "lv_occupied L = 0 \<Longrightarrow> next_expiration b L now = Inr None"
  by (simp add: next_expiration_def next_occupied_slot_None)

lemma next_expiration_Some:
  assumes l: "lv_level L < 6" and occ: "bit (lv_occupied L) s"
    and least: "\<And>j. bit (lv_occupied L) j \<Longrightarrow> s \<le> j"
    and cs: "slot_for now (lv_level L) \<le> s"
    and future: "unat now \<le> slot_start (unat now) (lv_level L) s"
  shows "\<exists>d. next_expiration b L now = Inr (Some \<lparr>ex_level = lv_level L, ex_slot = s, ex_deadline = d\<rparr>) \<and>
             unat d = slot_start (unat now) (lv_level L) s"
proof -
  let ?d = "now - now mod level_range (lv_level L) + of_nat s * slot_range (lv_level L)"
  have s: "s < 64" using bit_imp_le_length [OF occ] by simp
  have d: "unat ?d = slot_start (unat now) (lv_level L) s" by (rule unat_deadline [OF l s])
  then have "now \<le> ?d" using future by (simp add: word_le_nat_alt)
  then show ?thesis
    using d by (simp add: next_expiration_def next_occupied_slot_Some [OF l occ least cs])
qed

section \<open>What a level holds\<close>

text \<open>
  \<open>holds st L l C\<close>: level \<open>L\<close> is level number \<open>l\<close>, slot \<open>s\<close> of it holds the
  items \<open>C s\<close>, no item is in two slots, and the bit field marks the non-empty slots.
\<close>

context stack_contract
begin

definition holds :: "'store \<Rightarrow> 'stk level \<Rightarrow> nat \<Rightarrow> (nat \<Rightarrow> 'own list) \<Rightarrow> bool" where
  "holds st L l C \<longleftrightarrow>
     lv_level L = l \<and> length (lv_slot L) = 64 \<and>
     (\<forall>s<64. repr st (lv_slot L ! s) (C s)) \<and>
     (\<forall>s. bit (lv_occupied L) s \<longleftrightarrow> s < 64 \<and> C s \<noteq> []) \<and>
     (\<forall>s<64. \<forall>t<64. s \<noteq> t \<longrightarrow> set (C s) \<inter> set (C t) = {})"

lemma holds_repr: "holds st L l C \<Longrightarrow> s < 64 \<Longrightarrow> repr st (lv_slot L ! s) (C s)"
  by (simp add: holds_def)

lemma holds_disjoint:
  "holds st L l C \<Longrightarrow> s < 64 \<Longrightarrow> t < 64 \<Longrightarrow> s \<noteq> t \<Longrightarrow> set (C s) \<inter> set (C t) = {}"
  by (simp add: holds_def)

lemma holds_good: "holds st L l C \<Longrightarrow> good st"
  using holds_repr [of st L l C 0] repr_good by simp

lemma holds_new: "good st \<Longrightarrow> holds st (level_new ops l) l (\<lambda>_. [])"
  by (simp add: holds_def level_new_def LEVEL_MULT_def repr_default)

text \<open>Exchanging one slot for another that holds \<open>ys\<close>, in a store that changed on \<open>A\<close> only.\<close>

lemma holds_upd:
  assumes h: "holds st L l C" and slot: "slot < 64"
    and r: "repr st' s' ys" and f: "frame repr loose core st st' A"
    and A: "\<And>t. t < 64 \<Longrightarrow> t \<noteq> slot \<Longrightarrow> set (C t) \<inter> A = {}"
    and ys: "set ys \<subseteq> A"
    and occ: "\<And>t. bit occ t \<longleftrightarrow> (if t = slot then ys \<noteq> [] else bit (lv_occupied L) t)"
  shows "holds st' (L\<lparr>lv_slot := (lv_slot L)[slot := s'], lv_occupied := occ\<rparr>) l (C(slot := ys))"
proof -
  have len: "length (lv_slot L) = 64" using h by (simp add: holds_def)
  have "repr st' ((lv_slot L)[slot := s'] ! t) ((C(slot := ys)) t)" if "t < 64" for t
    using that slot len r frame_repr [OF f holds_repr [OF h that] A]
    by (cases "t = slot") auto
  moreover have "set ((C(slot := ys)) t) \<inter> set ((C(slot := ys)) u) = {}"
    if "t < 64" "u < 64" "t \<noteq> u" for t u
    using h that A [of t] A [of u] ys by (auto simp: holds_def)
  ultimately show ?thesis using h slot len by (auto simp: holds_def occ)
qed

lemma holds_add_entry:
  assumes h: "holds st L l C" and slot: "slot = slot_for w l"
    and x: "loose st x" "\<And>s. s < 64 \<Longrightarrow> x \<notin> set (C s)"
  shows "\<exists>L' st'. add_entry ops L w x st = Inr (L', st') \<and> holds st' L' l (C(slot := x # C slot)) \<and>
           frame repr loose core st st' (insert x (set (C slot)))"
proof -
  have s64: "slot < 64" by (simp add: slot)
  have len: "length (lv_slot L) = 64" and lv: "lv_level L = l" using h by (auto simp: holds_def)
  obtain s' st' where p: "stk_push ops (lv_slot L ! slot) x st = Inr (s', st')"
    and r: "repr st' s' (x # C slot)" and f: "frame repr loose core st st' (insert x (set (C slot)))"
    using push_ok [OF holds_repr [OF h s64] x(1) x(2) [OF s64]] by blast
  let ?occ = "lv_occupied L OR occupied_bit slot"
  have "holds st' (L\<lparr>lv_slot := (lv_slot L)[slot := s'], lv_occupied := ?occ\<rparr>) l (C(slot := x # C slot))"
    by (rule holds_upd [OF h s64 r f])
      (use h x(2) s64 in \<open>auto simp: holds_def bit_or_iff bit_occupied_bit\<close>)
  then show ?thesis
    using p f s64 len lv by (simp add: add_entry_def Let_def slot [symmetric])
qed

lemma holds_remove_entry:
  assumes h: "holds st L l C" and slot: "slot = slot_for w l" and x: "x \<in> set (C slot)"
  shows "\<exists>L' st'. remove_entry b ops L w x st = Inr (L', st') \<and>
           holds st' L' l (C(slot := remove1 x (C slot))) \<and> loose st' x \<and>
           frame repr loose core st st' (set (C slot))"
proof -
  have s64: "slot < 64" by (simp add: slot)
  have len: "length (lv_slot L) = 64" and lv: "lv_level L = l" using h by (auto simp: holds_def)
  have set_bit: "bit (lv_occupied L) slot" using h s64 x by (auto simp: holds_def)
  obtain s' st' where p: "stk_remove ops (lv_slot L ! slot) x st = Inr (s', st')"
    and r: "repr st' s' (remove1 x (C slot))" and lx: "loose st' x"
    and f: "frame repr loose core st st' (set (C slot))"
    using remove_ok [OF holds_repr [OF h s64] x] by blast
  define occ where "occ = (if remove1 x (C slot) = [] then lv_occupied L XOR occupied_bit slot
                           else lv_occupied L)"
  have "holds st' (L\<lparr>lv_slot := (lv_slot L)[slot := s'], lv_occupied := occ\<rparr>) l
          (C(slot := remove1 x (C slot)))"
    by (rule holds_upd [OF h s64 r f])
      (use h s64 set_bit in \<open>auto simp: holds_def occ_def bit_xor_iff bit_occupied_bit
         dest: set_mp [OF set_remove1_subset]\<close>)
  moreover have "remove_entry b ops L w x st =
      Inr (L\<lparr>lv_slot := (lv_slot L)[slot := s'], lv_occupied := occ\<rparr>, st')"
    using p s64 len lv set_bit repr_is_empty [OF r]
    by (simp add: remove_entry_def Let_def slot [symmetric] occupied_and occ_def)
  ultimately show ?thesis using lx f by blast
qed

lemma holds_pop_None:
  assumes "holds st L l C" "slot < 64" "C slot = []"
  shows "pop_entry_slot b ops L slot st = Inr (None, L, st)"
proof -
  have "length (lv_slot L) = 64" using assms(1) by (simp add: holds_def)
  moreover have "stk_pop ops (lv_slot L ! slot) st = Inr (None, lv_slot L ! slot, st)"
    using holds_repr [OF assms(1,2)] assms(3) by (simp add: pop_Nil)
  ultimately show ?thesis using assms(2) by (simp add: pop_entry_slot_def)
qed

lemma holds_pop_Some:
  assumes h: "holds st L l C" and s64: "slot < 64" and x: "C slot = x # xs"
  shows "\<exists>L' st'. pop_entry_slot b ops L slot st = Inr (Some x, L', st') \<and>
           holds st' L' l (C(slot := xs)) \<and> loose st' x \<and>
           frame repr loose core st st' (set (C slot))"
proof -
  have len: "length (lv_slot L) = 64" and lv: "lv_level L = l" using h by (auto simp: holds_def)
  have set_bit: "bit (lv_occupied L) slot" using h s64 x by (auto simp: holds_def)
  obtain s' st' where p: "stk_pop ops (lv_slot L ! slot) st = Inr (Some x, s', st')"
    and r: "repr st' s' xs" and lx: "loose st' x"
    and f: "frame repr loose core st st' (set (C slot))"
    using pop_Cons [of st "lv_slot L ! slot" x xs] holds_repr [OF h s64] unfolding x by blast
  define occ where "occ = (if xs = [] then lv_occupied L XOR occupied_bit slot else lv_occupied L)"
  have "holds st' (L\<lparr>lv_slot := (lv_slot L)[slot := s'], lv_occupied := occ\<rparr>) l (C(slot := xs))"
  proof (rule holds_upd [OF h s64 r f])
    show "set (C t) \<inter> set (C slot) = {}" if "t < 64" "t \<noteq> slot" for t
      by (rule holds_disjoint [OF h that(1) s64 that(2)])
    show "bit occ t \<longleftrightarrow> (if t = slot then xs \<noteq> [] else bit (lv_occupied L) t)" for t
      using s64 set_bit by (auto simp: occ_def bit_xor_iff bit_occupied_bit)
  qed (simp add: x subset_insertI)
  moreover have "pop_entry_slot b ops L slot st =
      Inr (Some x, L\<lparr>lv_slot := (lv_slot L)[slot := s'], lv_occupied := occ\<rparr>, st')"
    using p s64 len lv set_bit repr_is_empty [OF r]
    by (simp add: pop_entry_slot_def occupied_and occ_def)
  ultimately show ?thesis using lx f by blast
qed

text \<open>A store that changed on other items only leaves the level as it was.\<close>

lemma holds_frame:
  assumes "holds st L l C" "frame repr loose core st st' A" "\<And>s. s < 64 \<Longrightarrow> set (C s) \<inter> A = {}"
  shows "holds st' L l C"
  using assms(1,3) frame_repr [OF assms(2)] by (auto simp: holds_def)

end

end
