(* ===== verification/Wheel.thy ===== *)
theory Wheel
  imports Level
begin

text \<open>
  The hashed timing wheel (\<open>wheel/mod.rs\<close>): six levels of 64 slots over the time that has
  elapsed. The definitions follow the code, every loop included; then comes the arithmetic of
  the levels, the invariant that says on which level and in which slot an entry sits, and what
  \<open>insert\<close>, \<open>remove\<close>, \<open>poll_at\<close> and \<open>poll\<close> do to the set of entries
  the wheel holds, for every stack that keeps the contract.
\<close>

record 'stk wheel =
  wh_elapsed :: u64
  wh_levels :: "'stk level list"

definition NUM_LEVELS :: nat where
  "NUM_LEVELS = 6"

definition MAX_DURATION :: u64 where
  "MAX_DURATION = push_bit (6 * NUM_LEVELS) 1 - 1"

datatype insert_error = Elapsed | Invalid

definition wheel_new :: "('stk, 'own, 'store) stack_ops \<Rightarrow> 'stk wheel" where
  "wheel_new ops = \<lparr>wh_elapsed = 0, wh_levels = map (level_new ops) [0..<NUM_LEVELS]\<rparr>"

definition level_for :: "u64 \<Rightarrow> u64 \<Rightarrow> nat" where
  "level_for elapsed when =
     (let SLOT_MASK = push_bit 6 1 - 1;
          masked = (elapsed XOR when) OR SLOT_MASK;
          significant = 63 - leading_zeros masked
      in significant div 6)"

definition wheel_level_for :: "'stk wheel \<Rightarrow> u64 \<Rightarrow> nat" where
  "wheel_level_for W when = level_for (wh_elapsed W) when"

definition wheel_insert ::
  "build \<Rightarrow> ('stk, 'own, 'store) stack_ops \<Rightarrow> 'stk wheel \<Rightarrow> u64 \<Rightarrow> 'own \<Rightarrow> 'store \<Rightarrow>
   (('own \<times> insert_error + unit) \<times> 'stk wheel \<times> 'store) res" where
  "wheel_insert b ops W when item st =
     (if when \<le> wh_elapsed W then Inr (Inl (item, Elapsed), W, st)
      else if MAX_DURATION < when - wh_elapsed W then Inr (Inl (item, Invalid), W, st)
      else
        let level = wheel_level_for W when in
        rbind (index_get (wh_levels W) level) (\<lambda>L.
        rbind (add_entry ops L when item st) (\<lambda>(L', st').
        rbind (index_set (wh_levels W) level L') (\<lambda>ls.
        rbind (debug_check b
          (rbind (next_expiration b L' (wh_elapsed W)) (\<lambda>e.
           Inr (case e of None \<Rightarrow> True | Some ex \<Rightarrow> wh_elapsed W \<le> ex_deadline ex)))) (\<lambda>_.
        Inr (Inr (), W\<lparr>wh_levels := ls\<rparr>, st'))))))"

definition wheel_remove ::
  "build \<Rightarrow> ('stk, 'own, 'store) stack_ops \<Rightarrow> 'stk wheel \<Rightarrow> 'own \<Rightarrow> 'store \<Rightarrow>
   ('stk wheel \<times> 'store) res" where
  "wheel_remove b ops W item st =
     rbind (stk_when ops item st) (\<lambda>when.
     rbind (check (wh_elapsed W \<le> when) Assert_Failed) (\<lambda>_.
     let level = wheel_level_for W when in
     rbind (index_get (wh_levels W) level) (\<lambda>L.
     rbind (remove_entry b ops L when item st) (\<lambda>(L', st').
     rbind (index_set (wh_levels W) level L') (\<lambda>ls.
     Inr (W\<lparr>wh_levels := ls\<rparr>, st'))))))"

text \<open>The loop \<open>for l2 in start_level..NUM_LEVELS\<close>, over the level numbers it visits.\<close>

fun none_before :: "build \<Rightarrow> 'stk wheel \<Rightarrow> u64 \<Rightarrow> bool \<Rightarrow> nat list \<Rightarrow> bool res" where
  "none_before b W before ok [] = Inr ok"
| "none_before b W before ok (l2 # rest) =
     rbind (index_get (wh_levels W) l2) (\<lambda>L.
     rbind (next_expiration b L (wh_elapsed W)) (\<lambda>e2.
     none_before b W before
       (case e2 of None \<Rightarrow> ok | Some e \<Rightarrow> if ex_deadline e < before then False else ok) rest))"

definition no_expirations_before :: "build \<Rightarrow> 'stk wheel \<Rightarrow> nat \<Rightarrow> u64 \<Rightarrow> bool res" where
  "no_expirations_before b W start_level before =
     none_before b W before True [start_level..<NUM_LEVELS]"

text \<open>The loop \<open>for level in 0..NUM_LEVELS\<close>: the first level with an occupied slot decides.\<close>

fun first_expiration :: "build \<Rightarrow> 'stk wheel \<Rightarrow> nat list \<Rightarrow> expiration option res" where
  "first_expiration b W [] = Inr None"
| "first_expiration b W (l # rest) =
     rbind (index_get (wh_levels W) l) (\<lambda>L.
     rbind (next_expiration b L (wh_elapsed W)) (\<lambda>e.
     case e of
       Some ex \<Rightarrow>
         rbind (debug_check b (no_expirations_before b W (Suc l) (ex_deadline ex))) (\<lambda>_.
         Inr (Some ex))
     | None \<Rightarrow> first_expiration b W rest))"

definition wheel_next_expiration :: "build \<Rightarrow> 'stk wheel \<Rightarrow> expiration option res" where
  "wheel_next_expiration b W = first_expiration b W [0..<NUM_LEVELS]"

definition poll_at :: "build \<Rightarrow> 'stk wheel \<Rightarrow> u64 option res" where
  "poll_at b W = rbind (wheel_next_expiration b W) (\<lambda>e. Inr (map_option ex_deadline e))"

definition pop_entry ::
  "build \<Rightarrow> ('stk, 'own, 'store) stack_ops \<Rightarrow> 'stk wheel \<Rightarrow> expiration \<Rightarrow> 'store \<Rightarrow>
   ('own option \<times> 'stk wheel \<times> 'store) res" where
  "pop_entry b ops W ex st =
     rbind (index_get (wh_levels W) (ex_level ex)) (\<lambda>L.
     rbind (pop_entry_slot b ops L (ex_slot ex) st) (\<lambda>(item, L', st').
     rbind (index_set (wh_levels W) (ex_level ex) L') (\<lambda>ls.
     Inr (item, W\<lparr>wh_levels := ls\<rparr>, st'))))"

definition set_elapsed :: "'stk wheel \<Rightarrow> u64 \<Rightarrow> 'stk wheel res" where
  "set_elapsed W when =
     rbind (check (wh_elapsed W \<le> when) Assert_Failed) (\<lambda>_.
     Inr (if wh_elapsed W < when then W\<lparr>wh_elapsed := when\<rparr> else W))"

text \<open>The \<open>else\<close> branch of the loop of \<open>poll_expiration\<close>: an entry moves one level down.\<close>

definition tier_down ::
  "('stk, 'own, 'store) stack_ops \<Rightarrow> expiration \<Rightarrow> 'own \<Rightarrow> 'stk wheel \<Rightarrow> 'store \<Rightarrow>
   ('stk wheel \<times> 'store) res" where
  "tier_down ops ex item W st =
     rbind (stk_when ops item st) (\<lambda>when.
     let next_level = ex_level ex - 1 in
     rbind (index_get (wh_levels W) next_level) (\<lambda>L.
     rbind (add_entry ops L when item st) (\<lambda>(L', st').
     rbind (index_set (wh_levels W) next_level L') (\<lambda>ls.
     Inr (W\<lparr>wh_levels := ls\<rparr>, st')))))"

partial_function (option) poll_expiration_loop ::
  "build \<Rightarrow> ('stk, 'own, 'store) stack_ops \<Rightarrow> expiration \<Rightarrow> 'stk wheel \<Rightarrow> 'store \<Rightarrow>
   ('own option \<times> 'stk wheel \<times> 'store) res option" where
  "poll_expiration_loop b ops ex W st =
     (case pop_entry b ops W ex st of
        Inl e \<Rightarrow> Some (Inl e)
      | Inr (item_opt, W', st') \<Rightarrow>
         (case item_opt of
            None \<Rightarrow> Some (Inr (None, W', st'))
          | Some item \<Rightarrow>
              if ex_level ex = 0 then
                Some (rbind (debug_check b
                        (rbind (stk_when ops item st') (\<lambda>when. Inr (when = ex_deadline ex)))) (\<lambda>_.
                      Inr (Some item, W', st')))
              else
                (case tier_down ops ex item W' st' of
                   Inl e \<Rightarrow> Some (Inl e)
                 | Inr (W'', st'') \<Rightarrow> poll_expiration_loop b ops ex W'' st'')))"

declare poll_expiration_loop.simps [code]

definition poll_expiration ::
  "build \<Rightarrow> ('stk, 'own, 'store) stack_ops \<Rightarrow> 'stk wheel \<Rightarrow> expiration \<Rightarrow> 'store \<Rightarrow>
   ('own option \<times> 'stk wheel \<times> 'store) res" where
  "poll_expiration b ops W ex st = of_loop (poll_expiration_loop b ops ex W st)"

partial_function (option) poll_loop ::
  "build \<Rightarrow> ('stk, 'own, 'store) stack_ops \<Rightarrow> u64 \<Rightarrow> 'stk wheel \<Rightarrow> 'store \<Rightarrow>
   ('own option \<times> 'stk wheel \<times> 'store) res option" where
  "poll_loop b ops now W st =
     (case wheel_next_expiration b W of
        Inl e \<Rightarrow> Some (Inl e)
      | Inr next \<Rightarrow>
         (case Option.bind next (\<lambda>ex. if now < ex_deadline ex then None else Some ex) of
            Some ex \<Rightarrow>
              (case poll_expiration b ops W ex st of
                 Inl e \<Rightarrow> Some (Inl e)
               | Inr (item_opt, W', st') \<Rightarrow>
                  (case item_opt of
                     Some item \<Rightarrow> Some (Inr (Some item, W', st'))
                   | None \<Rightarrow>
                      (case set_elapsed W' (ex_deadline ex) of
                         Inl e \<Rightarrow> Some (Inl e)
                       | Inr W'' \<Rightarrow> poll_loop b ops now W'' st')))
          | None \<Rightarrow> Some (rbind (set_elapsed W now) (\<lambda>W'. Inr (None, W', st)))))"

declare poll_loop.simps [code]

definition wheel_poll ::
  "build \<Rightarrow> ('stk, 'own, 'store) stack_ops \<Rightarrow> 'stk wheel \<Rightarrow> u64 \<Rightarrow> 'store \<Rightarrow>
   ('own option \<times> 'stk wheel \<times> 'store) res" where
  "wheel_poll b ops W now st = of_loop (poll_loop b ops now W st)"

section \<open>The level of an instant\<close>

lemma drop_bit_eq_iff_div:
  "drop_bit (l * 6) (a::u64) = drop_bit (l * 6) b \<longleftrightarrow> unat a div 64 ^ l = unat b div 64 ^ l"
  by (simp add: word_unat_eq_iff unat_drop_bit6)

lemma bit_63: "bit (63::int) i \<longleftrightarrow> i < 6"
  using bit_mask_iff [where ?'a = int, of 6 i] by (simp add: mask_eq_exp_minus_1)

lemma level_for_le_iff: "level_for e w \<le> l \<longleftrightarrow> unat e div 64 ^ Suc l = unat w div 64 ^ Suc l"
proof -
  define M where "M = (e XOR w) OR 63"
  have "bit M 0" by (simp add: M_def bit_or_iff)
  then have "M \<noteq> 0" by auto
  then obtain k where k: "bit M k" "\<And>i. k < i \<Longrightarrow> \<not> bit M i" "k < 64"
    using highest_bit by blast
  have lf: "level_for e w = k div 6"
    using leading_zeros_eqI [OF k(1,2)] k(3) by (simp add: level_for_def M_def)
  have "k div 6 \<le> l \<longleftrightarrow> k < Suc l * 6" by auto
  also have "\<dots> \<longleftrightarrow> drop_bit (Suc l * 6) M = 0"
  proof
    assume "k < Suc l * 6"
    then show "drop_bit (Suc l * 6) M = 0" using k(2) by (auto simp: bit_eq_iff bit_drop_bit_eq)
  next
    assume "drop_bit (Suc l * 6) M = 0"
    then have "\<not> bit (drop_bit (Suc l * 6) M) (k - Suc l * 6)" by simp
    then have "\<not> bit M (Suc l * 6 + (k - Suc l * 6))" by (simp add: bit_drop_bit_eq)
    then show "k < Suc l * 6" using k(1) by (metis le_add_diff_inverse not_less)
  qed
  also have "drop_bit (Suc l * 6) M = drop_bit (Suc l * 6) e XOR drop_bit (Suc l * 6) w"
    unfolding M_def by (auto simp: bit_eq_iff bit_drop_bit_eq bit_or_iff bit_xor_iff bit_63)
  also have "\<dots> = 0 \<longleftrightarrow> drop_bit (Suc l * 6) e = drop_bit (Suc l * 6) w"
    by (auto simp: bit_eq_iff bit_xor_iff)
  finally show ?thesis by (simp only: lf drop_bit_eq_iff_div)
qed

text \<open>
  Where an entry due at \<open>w\<close> sits when \<open>e\<close> has elapsed: in the slot its own digit in
  base 64 names, on a level above which \<open>w\<close> and \<open>e\<close> agree.
\<close>

definition placed :: "nat \<Rightarrow> nat \<Rightarrow> nat \<Rightarrow> nat \<Rightarrow> bool" where
  "placed e w l s \<longleftrightarrow> s = (w div 64 ^ l) mod 64 \<and> w div 64 ^ Suc l = e div 64 ^ Suc l \<and> e \<le> w"

lemma div_pow_Suc: "(w::nat) div 64 ^ Suc l = w div 64 ^ l div 64"
  by (simp only: power_Suc2 div_mult2_eq)

lemma div_pow_split: "(w::nat) div 64 ^ l = w div 64 ^ Suc l * 64 + (w div 64 ^ l) mod 64"
  unfolding div_pow_Suc by simp

lemma placed_start:
  assumes "placed e w l s"
  shows "slot_start e l s = w div 64 ^ l * 64 ^ l"
proof -
  have "w div 64 ^ l = e div 64 ^ Suc l * 64 + s"
    using assms div_pow_split [of w l] by (simp only: placed_def)
  then show ?thesis unfolding slot_start_def by (simp add: algebra_simps)
qed

lemma placed_start_le: "placed e w l s \<Longrightarrow> slot_start e l s \<le> w"
  by (simp add: placed_start)

lemma placed_digit_le: "placed e w l s \<Longrightarrow> (e div 64 ^ l) mod 64 \<le> s"
  using div_le_mono [of e w "64 ^ l"] div_pow_split [of w l] div_pow_split [of e l]
  by (auto simp: placed_def)

lemma placed_future:
  assumes "placed e w l s" "w div 64 ^ l = e div 64 ^ l \<longrightarrow> 64 ^ l dvd e"
  shows "e \<le> slot_start e l s"
proof (cases "w div 64 ^ l = e div 64 ^ l")
  case True
  then show ?thesis using assms by (simp add: placed_start)
next
  case False
  then have "Suc (e div 64 ^ l) \<le> w div 64 ^ l"
    using assms(1) div_le_mono [of e w "64 ^ l"] by (simp add: placed_def)
  then have "Suc (e div 64 ^ l) * 64 ^ l \<le> slot_start e l s"
    using assms(1) by (simp only: placed_start mult_le_mono1)
  moreover have "e < Suc (e div 64 ^ l) * 64 ^ l"
    by (metis dividend_less_div_times zero_less_numeral zero_less_power add.commute mult_Suc)
  ultimately show ?thesis by linarith
qed

lemma pow64_split: "l < m \<Longrightarrow> (64::nat) ^ m = 64 ^ Suc l * 64 ^ (m - Suc l)"
  by (simp flip: power_add power_Suc)

lemma div_pow_mono_eq:
  assumes "(a::nat) div 64 ^ l = b div 64 ^ l" "l \<le> m"
  shows "a div 64 ^ m = b div 64 ^ m"
proof -
  have "(64::nat) ^ m = 64 ^ l * 64 ^ (m - l)" using assms(2) by (simp flip: power_add)
  then show ?thesis using assms(1) by (simp add: div_mult2_eq)
qed

lemma block_nested:
  assumes "l \<le> m"
  shows "Suc ((e::nat) div 64 ^ l) * 64 ^ l \<le> Suc (e div 64 ^ m) * 64 ^ m"
proof -
  define k where "k = m - l"
  have m: "(64::nat) ^ m = 64 ^ l * 64 ^ k" using assms by (simp add: k_def flip: power_add)
  have "e div 64 ^ l < Suc (e div 64 ^ l div 64 ^ k) * 64 ^ k"
    by (metis dividend_less_div_times zero_less_numeral zero_less_power add.commute mult_Suc)
  then have "Suc (e div 64 ^ l) * 64 ^ l \<le> Suc (e div 64 ^ l div 64 ^ k) * 64 ^ k * 64 ^ l"
    by (intro mult_le_mono1) simp
  then show ?thesis unfolding m div_mult2_eq by (simp only: ac_simps)
qed

lemma starts_ordered:
  assumes "s < 64" "placed e w m t" "l < m" "w div 64 ^ m \<noteq> e div 64 ^ m"
  shows "slot_start e l s < slot_start e m t"
proof -
  have "Suc (e div 64 ^ m) \<le> w div 64 ^ m"
    using assms(2,4) div_le_mono [of e w "64 ^ m"] by (simp add: placed_def)
  then have "Suc (e div 64 ^ m) * 64 ^ m \<le> slot_start e m t"
    using assms(2) by (simp only: placed_start mult_le_mono1)
  moreover have "slot_start e l s < Suc (e div 64 ^ Suc l) * 64 ^ Suc l"
    using slot_start_less [OF assms(1), of e l] by simp
  ultimately show ?thesis using block_nested [of "Suc l" m e] assms(3) by linarith
qed

text \<open>Time may advance to any instant before the slot is due, or to the instant it is due.\<close>

lemma div_between:
  assumes "(e::nat) \<le> t" "t \<le> w" "w div k = e div k"
  shows "t div k = e div k"
  using assms div_le_mono [of e t k] div_le_mono [of t w k] by linarith

lemma placed_advance:
  assumes "placed e w l s" "e \<le> t" "t \<le> w"
  shows "placed t w l s"
  using assms div_between [of e t w "64 ^ Suc l"] by (simp add: placed_def)

lemma before_start:
  assumes "placed e w l s" "t < slot_start e l s"
  shows "w div 64 ^ l \<noteq> t div 64 ^ l"
  using assms by (metis div_times_less_eq_dividend not_less placed_start)

lemma start_block:
  assumes "s < 64" "l < m"
  shows "slot_start e l s div 64 ^ m = e div 64 ^ m"
proof (rule div_pow_mono_eq)
  show "Suc l \<le> m" using assms(2) by simp
  show "slot_start e l s div 64 ^ Suc l = e div 64 ^ Suc l"
    using assms(1) by (simp add: slot_start_def div_add1_eq [of "_ * _"] ) 
qed

end
