(* ===== verification/Wheel_Inv.thy ===== *)
theory Wheel_Inv
  imports Wheel
begin

text \<open>
  The entries a wheel holds. \<open>D l s\<close> lists the entries of slot \<open>s\<close> of level \<open>l\<close>, and
  \<open>d x\<close> is the instant entry \<open>x\<close> is due. Between two operations the wheel is settled: an
  entry above level 0 is in a later slot than the current one. Inside \<open>poll\<close> it is only
  settling: entries that were just moved down may be in the current slot of their level, but
  then time stands at the start of that slot and the levels below are empty.
\<close>

type_synonym 'own layout = "nat \<Rightarrow> nat \<Rightarrow> 'own list"

definition items :: "'own layout \<Rightarrow> 'own set" where
  "items D = {x. \<exists>l<6. \<exists>s<64. x \<in> set (D l s)}"

definition all_placed :: "('own \<Rightarrow> nat) \<Rightarrow> nat \<Rightarrow> 'own layout \<Rightarrow> bool" where
  "all_placed d e D \<longleftrightarrow> (\<forall>l<6. \<forall>s<64. \<forall>x\<in>set (D l s). placed e (d x) l s)"

definition settled :: "('own \<Rightarrow> nat) \<Rightarrow> nat \<Rightarrow> 'own layout \<Rightarrow> bool" where
  "settled d e D \<longleftrightarrow> (\<forall>l<6. \<forall>s<64. \<forall>x\<in>set (D l s). 0 < l \<longrightarrow> d x div 64 ^ l \<noteq> e div 64 ^ l)"

definition settling :: "('own \<Rightarrow> nat) \<Rightarrow> nat \<Rightarrow> 'own layout \<Rightarrow> bool" where
  "settling d e D \<longleftrightarrow> (\<forall>l<6. \<forall>s<64. \<forall>x\<in>set (D l s). 0 < l \<longrightarrow> d x div 64 ^ l = e div 64 ^ l \<longrightarrow>
     64 ^ l dvd e \<and> (\<forall>m<l. \<forall>t<64. D m t = []))"

definition earliest :: "'own layout \<Rightarrow> nat \<Rightarrow> nat \<Rightarrow> bool" where
  "earliest D l s \<longleftrightarrow> l < 6 \<and> s < 64 \<and> D l s \<noteq> [] \<and> (\<forall>m<l. \<forall>t<64. D m t = []) \<and>
     (\<forall>t<64. D l t \<noteq> [] \<longrightarrow> s \<le> t)"

lemma itemsI: "l < 6 \<Longrightarrow> s < 64 \<Longrightarrow> x \<in> set (D l s) \<Longrightarrow> x \<in> items D"
  by (auto simp: items_def)

lemma itemsE:
  assumes "x \<in> items D"
  obtains l s where "l < 6" "s < 64" "x \<in> set (D l s)"
  using assms by (auto simp: items_def)

lemma finite_items [simp]: "finite (items D)"
proof -
  have "items D = (\<Union>l<6. \<Union>s<64. set (D l s))" by (auto simp: items_def)
  then show ?thesis by simp
qed

lemma settledI:
  "(\<And>l s x. l < 6 \<Longrightarrow> s < 64 \<Longrightarrow> x \<in> set (D l s) \<Longrightarrow> 0 < l \<Longrightarrow> d x div 64 ^ l \<noteq> e div 64 ^ l) \<Longrightarrow>
   settled d e D"
  unfolding settled_def by blast

lemma settledD:
  "settled d e D \<Longrightarrow> l < 6 \<Longrightarrow> s < 64 \<Longrightarrow> x \<in> set (D l s) \<Longrightarrow> 0 < l \<Longrightarrow> d x div 64 ^ l \<noteq> e div 64 ^ l"
  unfolding settled_def by blast

lemma settlingI:
  "(\<And>l s x. l < 6 \<Longrightarrow> s < 64 \<Longrightarrow> x \<in> set (D l s) \<Longrightarrow> 0 < l \<Longrightarrow> d x div 64 ^ l = e div 64 ^ l \<Longrightarrow>
     64 ^ l dvd e \<and> (\<forall>m<l. \<forall>t<64. D m t = [])) \<Longrightarrow>
   settling d e D"
  unfolding settling_def by blast

lemma settlingD:
  assumes "settling d e D" "l < 6" "s < 64" "x \<in> set (D l s)" "0 < l" "d x div 64 ^ l = e div 64 ^ l"
  shows "64 ^ l dvd e" "m < l \<Longrightarrow> t < 64 \<Longrightarrow> D m t = []"
  using assms unfolding settling_def by blast+

lemma settled_settling: "settled d e D \<Longrightarrow> settling d e D"
  by (rule settlingI) (blast dest: settledD)

text \<open>With an entry on level 0, settling means settled.\<close>

lemma settling_settled:
  assumes "settling d e D" "s < 64" "D 0 s \<noteq> []"
  shows "settled d e D"
  using assms(2,3) by (intro settledI) (blast dest: settlingD(2) [OF assms(1)])

lemma earliest_exists:
  assumes "items D \<noteq> {}"
  obtains l s where "earliest D l s"
proof -
  let ?P = "\<lambda>l. l < 6 \<and> (\<exists>s<64. D l s \<noteq> [])"
  from assms obtain x where "x \<in> items D" by blast
  then obtain m t where "m < 6" "t < 64" "x \<in> set (D m t)" by (rule itemsE)
  moreover from this(3) have "D m t \<noteq> []" by (cases "D m t") auto
  ultimately have ex: "\<exists>l. ?P l" by blast
  obtain l where l: "?P l" and min_l: "\<And>m. m < l \<Longrightarrow> \<not> ?P m"
    using ex exists_least_iff [of ?P] by blast
  then obtain s where s: "s < 64 \<and> D l s \<noteq> []" and min_s: "\<And>t. t < s \<Longrightarrow> \<not> (t < 64 \<and> D l t \<noteq> [])"
    using exists_least_iff [of "\<lambda>s. s < 64 \<and> D l s \<noteq> []"] by blast
  have "earliest D l s"
    unfolding earliest_def
  proof (intro conjI allI impI)
    show "D m t = []" if "m < l" "t < 64" for m t using min_l [OF that(1)] l that by auto
    show "s \<le> t" if "t < 64" "D l t \<noteq> []" for t using min_s [of t] that by force
  qed (use l s in auto)
  then show ?thesis by (rule that)
qed

lemma all_placedD: "all_placed d e D \<Longrightarrow> l < 6 \<Longrightarrow> s < 64 \<Longrightarrow> x \<in> set (D l s) \<Longrightarrow> placed e (d x) l s"
  by (simp add: all_placed_def)

lemma settling_future:
  assumes "all_placed d e D" "settling d e D" "l < 6" "s < 64" "D l s \<noteq> []"
  shows "e \<le> slot_start e l s" "(e div 64 ^ l) mod 64 \<le> s"
proof -
  from assms(5) obtain x where x: "x \<in> set (D l s)" by (cases "D l s") auto
  have p: "placed e (d x) l s" using all_placedD [OF assms(1,3,4) x] .
  show "(e div 64 ^ l) mod 64 \<le> s" using placed_digit_le [OF p] .
  show "e \<le> slot_start e l s"
  proof (rule placed_future [OF p], rule impI)
    assume "d x div 64 ^ l = e div 64 ^ l"
    then show "64 ^ l dvd e" using settlingD(1) [OF assms(2-4) x] by (cases "l = 0") auto
  qed
qed

lemma earliest_start:
  assumes p: "all_placed d e D" and st: "settling d e D" and f: "earliest D l s"
    and m: "m < 6" "t < 64" "D m t \<noteq> []"
  shows "l \<le> m" "slot_start e l s \<le> slot_start e m t"
    "l < m \<Longrightarrow> y \<in> set (D m t) \<Longrightarrow> d y div 64 ^ m \<noteq> e div 64 ^ m"
proof -
  show lm: "l \<le> m" using f m unfolding earliest_def by (meson not_less)
  have strict: "d y div 64 ^ m \<noteq> e div 64 ^ m" if "l < m" "y \<in> set (D m t)" for y
    using settlingD(2) [OF st m(1,2) that(2), of l s] f that(1) unfolding earliest_def by auto
  then show "l < m \<Longrightarrow> y \<in> set (D m t) \<Longrightarrow> d y div 64 ^ m \<noteq> e div 64 ^ m" .
  show "slot_start e l s \<le> slot_start e m t"
  proof (cases "l = m")
    case True
    then show ?thesis using f m by (simp add: earliest_def slot_start_def)
  next
    case False
    with lm have less: "l < m" by simp
    from m(3) obtain y where y: "y \<in> set (D m t)" by (cases "D m t") auto
    have "s < 64" using f by (simp add: earliest_def)
    from starts_ordered [OF this all_placedD [OF p m(1,2) y] less strict [OF less y]]
    show ?thesis by simp
  qed
qed

lemma earliest_due:
  assumes "all_placed d e D" "settling d e D" "earliest D l s" "y \<in> items D"
  shows "slot_start e l s \<le> d y"
proof -
  from assms(4) obtain m t where m: "m < 6" "t < 64" and y: "y \<in> set (D m t)" by (rule itemsE)
  then have "D m t \<noteq> []" by auto
  from earliest_start(2) [OF assms(1-3) m this] placed_start_le [OF all_placedD [OF assms(1) m y]]
  show ?thesis by linarith
qed

text \<open>Time advances to an instant before everything is due: the wheel is settled at that instant.\<close>

lemma advance_before:
  assumes p: "all_placed d e D" and st: "settling d e D" and f: "earliest D l s"
    and t: "e \<le> t" "t < slot_start e l s"
  shows "all_placed d t D" "settled d t D"
proof -
  have *: "placed t (d x) m u \<and> (0 < m \<longrightarrow> d x div 64 ^ m \<noteq> t div 64 ^ m)"
    if m: "m < 6" "u < 64" and x: "x \<in> set (D m u)" for m u x
  proof -
    have ne: "D m u \<noteq> []" using x by auto
    have less: "t < slot_start e m u" using earliest_start(2) [OF p st f m ne] t by linarith
    have pl: "placed e (d x) m u" by (rule all_placedD [OF p m x])
    have "t \<le> d x" using less placed_start_le [OF pl] by linarith
    then show ?thesis using placed_advance [OF pl t(1)] before_start [OF pl less] by blast
  qed
  then show "all_placed d t D" "settled d t D"
    unfolding all_placed_def by (blast intro: settledI)+
qed

lemma advance_empty: "items D = {} \<Longrightarrow> all_placed d t D \<and> settled d t D"
  unfolding all_placed_def by (blast intro: settledI dest: itemsI)

text \<open>
  All entries of slot \<open>s\<close> of level \<open>Suc l\<close> move one level down, each to the slot
  its digit names; time then advances to the start of the emptied slot.
\<close>

definition moved_down :: "('own \<Rightarrow> nat) \<Rightarrow> nat \<Rightarrow> nat \<Rightarrow> 'own layout \<Rightarrow> 'own layout \<Rightarrow> bool" where
  "moved_down d l s D D' \<longleftrightarrow>
     D' (Suc l) s = [] \<and>
     (\<forall>m t. m \<noteq> l \<longrightarrow> (m, t) \<noteq> (Suc l, s) \<longrightarrow> D' m t = D m t) \<and>
     (\<forall>t. set (D' l t) = set (D l t) \<union> {x \<in> set (D (Suc l) s). (d x div 64 ^ l) mod 64 = t})"

lemma moved_down_cases:
  assumes mv: "moved_down d l s D D'" and f: "earliest D (Suc l) s"
    and x: "m < 6" "t < 64" "x \<in> set (D' m t)"
  obtains "m = l" "x \<in> set (D (Suc l) s)" "t = (d x div 64 ^ l) mod 64"
  | "m = Suc l" "t \<noteq> s" "x \<in> set (D (Suc l) t)"
  | "Suc l < m" "x \<in> set (D m t)"
proof -
  have low: "D k u = []" if "k \<le> l" "u < 64" for k u using f that unfolding earliest_def by auto
  consider "m < l" | "m = l" | "m = Suc l" | "Suc l < m" by linarith
  then show ?thesis
  proof cases
    assume "m < l"
    then have "D' m t = D m t" using mv unfolding moved_down_def by auto
    then show ?thesis using x low [of m t] \<open>m < l\<close> by auto
  next
    assume m: "m = l"
    then show ?thesis using mv x low [of l t] that(1) unfolding moved_down_def by auto
  next
    assume m: "m = Suc l"
    then have "t \<noteq> s" using mv x unfolding moved_down_def by auto
    then have "D' m t = D m t" using mv m unfolding moved_down_def by auto
    then show ?thesis using that(2) m \<open>t \<noteq> s\<close> x by simp
  next
    assume m: "Suc l < m"
    then have "D' m t = D m t" using mv unfolding moved_down_def by auto
    then show ?thesis using that(3) m x by simp
  qed
qed

lemma moved_down_items:
  assumes mv: "moved_down d l s D D'" and f: "earliest D (Suc l) s"
  shows "items D' = items D"
proof (intro subset_antisym subsetI)
  have l: "Suc l < 6" "s < 64" using f by (auto simp: earliest_def)
  fix x assume "x \<in> items D'"
  then obtain m t where m: "m < 6" "t < 64" "x \<in> set (D' m t)" by (rule itemsE)
  then show "x \<in> items D" by (cases rule: moved_down_cases [OF mv f m]) (use l m itemsI [of _ _ x D] in blast)+
next
  have l: "Suc l < 6" "s < 64" using f by (auto simp: earliest_def)
  fix x assume "x \<in> items D"
  then obtain m t where m: "m < 6" "t < 64" "x \<in> set (D m t)" by (rule itemsE)
  show "x \<in> items D'"
  proof (cases "m = Suc l \<and> t = s")
    case True
    then have "x \<in> set (D' l ((d x div 64 ^ l) mod 64))" using mv m unfolding moved_down_def by auto
    then show ?thesis using l by (intro itemsI [of l "(d x div 64 ^ l) mod 64"]) auto
  next
    case False
    then have "x \<in> set (D' m t)" using mv m unfolding moved_down_def by (cases "m = l") auto
    then show ?thesis using m by (intro itemsI)
  qed
qed

lemma moved_down_layout:
  assumes p: "all_placed d e D" and st: "settling d e D" and f: "earliest D (Suc l) s"
    and mv: "moved_down d l s D D'"
  defines "T \<equiv> slot_start e (Suc l) s"
  shows "all_placed d T D'" "settling d T D'"
proof -
  have l: "Suc l < 6" "s < 64" and ne: "D (Suc l) s \<noteq> []" using f by (auto simp: earliest_def)
  have eT: "e \<le> T" unfolding T_def by (rule settling_future(1) [OF p st l ne])
  have T_eq: "T = d x div 64 ^ Suc l * 64 ^ Suc l" if "x \<in> set (D (Suc l) s)" for x
    unfolding T_def by (rule placed_start [OF all_placedD [OF p l that]])
  have Tdiv: "T div 64 ^ Suc l mod 64 = s"
  proof -
    from ne obtain y where y: "y \<in> set (D (Suc l) s)" by (cases "D (Suc l) s") auto
    from all_placedD [OF p l y] have "s = d y div 64 ^ Suc l mod 64" by (simp only: placed_def)
    then show ?thesis unfolding T_eq [OF y] by simp
  qed
  have old: "placed T (d x) m t" if "m < 6" "t < 64" "x \<in> set (D m t)" for m t x
    using placed_advance [OF all_placedD [OF p that] eT] earliest_due [OF p st f itemsI [of m t x D]] that
    by (simp add: T_def)
  have *: "placed T (d x) m t \<and> (0 < m \<longrightarrow> d x div 64 ^ m = T div 64 ^ m \<longrightarrow>
      64 ^ m dvd T \<and> (\<forall>k<m. \<forall>u<64. D' k u = []))"
    if m: "m < 6" "t < 64" "x \<in> set (D' m t)" for m t x
  proof (cases rule: moved_down_cases [OF mv f m])
    case 1
    have "placed T (d x) m t"
      using 1 eT placed_start_le [OF all_placedD [OF p l 1(2)]] T_eq [OF 1(2)] by (simp add: placed_def T_def)
    moreover have "64 ^ m dvd T" unfolding T_eq [OF 1(2)] 1(1) by simp
    moreover have "D' k u = []" if "k < m" "u < 64" for k u
      using mv f that 1(1) unfolding moved_down_def earliest_def by auto
    ultimately show ?thesis by blast
  next
    case 2
    have "placed T (d x) m t" using old [OF m(1,2)] 2 by simp
    moreover have "d x div 64 ^ m \<noteq> T div 64 ^ m"
    proof
      assume "d x div 64 ^ m = T div 64 ^ m"
      then have "d x div 64 ^ m mod 64 = s" using Tdiv 2(1) by simp
      moreover have "t = d x div 64 ^ m mod 64"
        using \<open>placed T (d x) m t\<close> by (simp only: placed_def)
      ultimately show False using 2(2) by simp
    qed
    ultimately show ?thesis by blast
  next
    case 3
    have "D m t \<noteq> []" using 3(2) by auto
    then have "d x div 64 ^ m \<noteq> e div 64 ^ m"
      by (rule earliest_start(3) [OF p st f m(1,2) _ 3])
    moreover have "T div 64 ^ m = e div 64 ^ m" unfolding T_def by (rule start_block [OF l(2) 3(1)])
    ultimately show ?thesis using old [OF m(1,2) 3(2)] by simp
  qed
  show "all_placed d T D'" unfolding all_placed_def using * by blast
  show "settling d T D'" by (rule settlingI) (use * in blast)
qed

text \<open>Taking entries out of a slot.\<close>

lemma shrink_set: "set ys \<subseteq> set (D l s) \<Longrightarrow> x \<in> set ((D(l := (D l)(s := ys))) m t) \<Longrightarrow> x \<in> set (D m t)"
  by (auto split: if_splits)

lemma shrink_placed: "set ys \<subseteq> set (D l s) \<Longrightarrow> all_placed d e D \<Longrightarrow> all_placed d e (D(l := (D l)(s := ys)))"
  unfolding all_placed_def by (blast dest: shrink_set)

lemma shrink_settled: "set ys \<subseteq> set (D l s) \<Longrightarrow> settled d e D \<Longrightarrow> settled d e (D(l := (D l)(s := ys)))"
  by (rule settledI) (blast dest: shrink_set settledD)

end
