(* ===== verification/Wheel_Correct.thy ===== *)
theory Wheel_Correct
  imports Wheel_Inv
begin

text \<open>
  What the operations of the timer wheel do to the set of entries it holds, proved inside
  the contract of the \<open>Stack\<close> trait: \<open>insert\<close> adds an entry, \<open>remove\<close> finds the
  entry on the level computed from the present time, \<open>poll_at\<close> is the start of the
  earliest occupied slot, and \<open>poll\<close> ends, returns an entry that is due and due first, and
  reports nothing only when nothing is due. No panic and no failed assertion occurs.
\<close>

context stack_contract
begin

definition due_nat :: "'store \<Rightarrow> 'own \<Rightarrow> nat" where
  "due_nat st x = unat (due (core st) x)"

definition wheel_holds :: "'store \<Rightarrow> 'stk wheel \<Rightarrow> 'own layout \<Rightarrow> bool" where
  "wheel_holds st W D \<longleftrightarrow>
     length (wh_levels W) = 6 \<and>
     (\<forall>l<6. holds st (wh_levels W ! l) l (D l)) \<and>
     (\<forall>l<6. \<forall>m<6. l \<noteq> m \<longrightarrow> (\<forall>s<64. \<forall>t<64. set (D l s) \<inter> set (D m t) = {}))"

definition layout_ok :: "'store \<Rightarrow> 'stk wheel \<Rightarrow> 'own layout \<Rightarrow> bool" where
  "layout_ok st W D \<longleftrightarrow> wheel_holds st W D \<and>
     all_placed (due_nat st) (unat (wh_elapsed W)) D \<and> settling (due_nat st) (unat (wh_elapsed W)) D"

definition wheel_inv :: "'store \<Rightarrow> 'stk wheel \<Rightarrow> 'own set \<Rightarrow> bool" where
  "wheel_inv st W X \<longleftrightarrow> (\<exists>D. wheel_holds st W D \<and>
     all_placed (due_nat st) (unat (wh_elapsed W)) D \<and>
     settled (due_nat st) (unat (wh_elapsed W)) D \<and> X = items D)"

lemma wheel_invE:
  assumes "wheel_inv st W X"
  obtains D where "wheel_holds st W D" "all_placed (due_nat st) (unat (wh_elapsed W)) D"
    "settled (due_nat st) (unat (wh_elapsed W)) D" "X = items D"
  using assms unfolding wheel_inv_def by blast

lemma layout_okI:
  "wheel_holds st W D \<Longrightarrow> all_placed (due_nat st) (unat (wh_elapsed W)) D \<Longrightarrow>
   settled (due_nat st) (unat (wh_elapsed W)) D \<Longrightarrow> layout_ok st W D"
  by (simp add: layout_ok_def settled_settling)

lemma layout_okD:
  assumes "layout_ok st W D"
  shows "wheel_holds st W D" "all_placed (due_nat st) (unat (wh_elapsed W)) D"
    "settling (due_nat st) (unat (wh_elapsed W)) D"
  using assms by (simp_all add: layout_ok_def)

lemma due_nat_frame:
  assumes "frame repr loose core st st' A"
  shows "due_nat st' = due_nat st"
proof -
  from assms have "core st' = core st" by (rule frame_core)
  then show ?thesis by (simp add: due_nat_def fun_eq_iff)
qed

lemma wheel_holds_level: "wheel_holds st W D \<Longrightarrow> l < 6 \<Longrightarrow> holds st (wh_levels W ! l) l (D l)"
  by (simp add: wheel_holds_def)

lemma wheel_holds_get: "wheel_holds st W D \<Longrightarrow> l < 6 \<Longrightarrow> index_get (wh_levels W) l = Inr (wh_levels W ! l)"
  by (simp add: wheel_holds_def)

lemma wheel_holds_set:
  "wheel_holds st W D \<Longrightarrow> l < 6 \<Longrightarrow> index_set (wh_levels W) l L = Inr ((wh_levels W)[l := L])"
  by (simp add: wheel_holds_def)

lemma wheel_holds_cross:
  "wheel_holds st W D \<Longrightarrow> l < 6 \<Longrightarrow> m < 6 \<Longrightarrow> l \<noteq> m \<Longrightarrow> s < 64 \<Longrightarrow> t < 64 \<Longrightarrow> set (D l s) \<inter> set (D m t) = {}"
  unfolding wheel_holds_def by blast

lemma wheel_holds_unique:
  assumes w: "wheel_holds st W D" and "l < 6" "m < 6" "s < 64" "t < 64" "x \<in> set (D l s)" "x \<in> set (D m t)"
  shows "l = m \<and> s = t"
proof (cases "l = m")
  case True
  then show ?thesis
    using holds_disjoint [OF wheel_holds_level [OF w assms(2)] assms(4,5)] assms(6,7) by (cases "s = t") auto
next
  case False
  from wheel_holds_cross [OF w assms(2,3) False assms(4,5)] assms(6,7) show ?thesis by auto
qed

lemma wheel_holds_distinct: "wheel_holds st W D \<Longrightarrow> l < 6 \<Longrightarrow> s < 64 \<Longrightarrow> distinct (D l s)"
  by (blast intro: repr_distinct holds_repr wheel_holds_level)

lemma items_upd:
  "items (D(l := (D l)(s := ys))) \<subseteq> items D \<union> set ys"
  by (auto simp: items_def split: if_splits)

lemma items_replace:
  assumes "wheel_holds st W D" "l < 6" "s < 64"
  shows "items (D(l := (D l)(s := ys))) = (items D - set (D l s)) \<union> set ys"
proof (intro subset_antisym subsetI)
  fix x assume "x \<in> items (D(l := (D l)(s := ys)))"
  then obtain m t where m: "m < 6" "t < 64" and x: "x \<in> set ((D(l := (D l)(s := ys))) m t)" by (rule itemsE)
  show "x \<in> (items D - set (D l s)) \<union> set ys"
  proof (cases "m = l \<and> t = s")
    case True
    then show ?thesis using x by simp
  next
    case False
    then have "x \<in> set (D m t)" using x by (auto split: if_splits)
    then show ?thesis using m False wheel_holds_unique [OF assms(1) m(1) assms(2) m(2) assms(3)]
      by (auto intro: itemsI)
  qed
next
  fix x assume "x \<in> (items D - set (D l s)) \<union> set ys"
  then show "x \<in> items (D(l := (D l)(s := ys)))"
  proof
    assume "x \<in> items D - set (D l s)"
    then obtain m t where "m < 6" "t < 64" "x \<in> set (D m t)" "x \<notin> set (D l s)" by (auto elim: itemsE)
    then show ?thesis by (intro itemsI [of m t]) auto
  next
    assume "x \<in> set ys"
    then show ?thesis using assms(2,3) by (intro itemsI [of l s]) auto
  qed
qed

text \<open>One level is replaced, in a store that changed on the items \<open>A\<close> only.\<close>

lemma wheel_holds_upd:
  assumes w: "wheel_holds st W D" and l: "l < 6" "s < 64"
    and h: "holds st' L' l ((D l)(s := ys))" and f: "frame repr loose core st st' A"
    and A: "\<And>m t. m < 6 \<Longrightarrow> m \<noteq> l \<Longrightarrow> t < 64 \<Longrightarrow> set (D m t) \<inter> A = {}"
    and ys: "set ys \<subseteq> A"
  shows "wheel_holds st' (W\<lparr>wh_levels := (wh_levels W)[l := L']\<rparr>) (D(l := (D l)(s := ys)))"
    (is "wheel_holds st' ?W ?D")
proof -
  have len: "length (wh_levels W) = 6" using w by (simp add: wheel_holds_def)
  have "holds st' (wh_levels ?W ! m) m (?D m)" if m: "m < 6" for m
  proof (cases "m = l")
    case True
    then show ?thesis using h l len by simp
  next
    case False
    have "holds st' (wh_levels W ! m) m (D m)"
      by (rule holds_frame [OF wheel_holds_level [OF w m] f A]) (use m False in auto)
    then show ?thesis using False by simp
  qed
  moreover have "set (?D m u) \<inter> set (?D n t) = {}"
    if "m < 6" "n < 6" "m \<noteq> n" "u < 64" "t < 64" for m n u t
    using wheel_holds_cross [OF w that] A [of m u] A [of n t] ys that by (auto split: if_splits)
  ultimately show ?thesis unfolding wheel_holds_def using len by simp
qed

section \<open>The next expiration\<close>

lemma level_next_expiration:
  assumes ok: "layout_ok st W D" and l: "l < 6"
  shows "\<forall>s<64. D l s = [] \<Longrightarrow> next_expiration b (wh_levels W ! l) (wh_elapsed W) = Inr None"
    and "s < 64 \<Longrightarrow> D l s \<noteq> [] \<Longrightarrow> (\<And>t. t < 64 \<Longrightarrow> D l t \<noteq> [] \<Longrightarrow> s \<le> t) \<Longrightarrow>
      \<exists>d. next_expiration b (wh_levels W ! l) (wh_elapsed W) =
            Inr (Some \<lparr>ex_level = l, ex_slot = s, ex_deadline = d\<rparr>) \<and>
          unat d = slot_start (unat (wh_elapsed W)) l s"
proof -
  let ?L = "wh_levels W ! l"
  note okD = layout_okD [OF ok]
  have h: "holds st ?L l (D l)" by (rule wheel_holds_level [OF okD(1) l])
  then have lv: "lv_level ?L = l" and bits: "\<And>s. bit (lv_occupied ?L) s \<longleftrightarrow> s < 64 \<and> D l s \<noteq> []"
    by (auto simp: holds_def)
  show "next_expiration b ?L (wh_elapsed W) = Inr None" if "\<forall>s<64. D l s = []"
    by (rule next_expiration_None) (use that bits in \<open>auto simp: bit_eq_iff\<close>)
  show "\<exists>d. next_expiration b ?L (wh_elapsed W) =
            Inr (Some \<lparr>ex_level = l, ex_slot = s, ex_deadline = d\<rparr>) \<and>
          unat d = slot_start (unat (wh_elapsed W)) l s"
    if s: "s < 64" "D l s \<noteq> []" and least: "\<And>t. t < 64 \<Longrightarrow> D l t \<noteq> [] \<Longrightarrow> s \<le> t"
  proof -
    note fut = settling_future [OF okD(2,3) l s]
    have "\<exists>d. next_expiration b ?L (wh_elapsed W) =
            Inr (Some \<lparr>ex_level = lv_level ?L, ex_slot = s, ex_deadline = d\<rparr>) \<and>
          unat d = slot_start (unat (wh_elapsed W)) (lv_level ?L) s"
      by (rule next_expiration_Some) (use l lv bits s least fut in \<open>auto simp: slot_for_nat\<close>)
    then show ?thesis by (simp add: lv)
  qed
qed

text \<open>For any level: nothing, or an expiration no earlier than the earliest.\<close>

lemma level_next_cases:
  assumes ok: "layout_ok st W D" and l: "l < 6"
  obtains "next_expiration b (wh_levels W ! l) (wh_elapsed W) = Inr None" "\<forall>s<64. D l s = []"
  | s d where "next_expiration b (wh_levels W ! l) (wh_elapsed W) =
        Inr (Some \<lparr>ex_level = l, ex_slot = s, ex_deadline = d\<rparr>)"
      "s < 64" "D l s \<noteq> []" "unat d = slot_start (unat (wh_elapsed W)) l s"
      "\<And>t. t < 64 \<Longrightarrow> D l t \<noteq> [] \<Longrightarrow> s \<le> t"
proof (cases "\<forall>s<64. D l s = []")
  case True
  with level_next_expiration(1) [OF assms True] show ?thesis by (rule that(1))
next
  case False
  then obtain s where s: "s < 64 \<and> D l s \<noteq> []" and least: "\<And>t. t < s \<Longrightarrow> \<not> (t < 64 \<and> D l t \<noteq> [])"
    using exists_least_iff [of "\<lambda>s. s < 64 \<and> D l s \<noteq> []"] by blast
  then have le: "\<And>t. t < 64 \<Longrightarrow> D l t \<noteq> [] \<Longrightarrow> s \<le> t" by (meson not_less)
  from level_next_expiration(2) [OF assms conjunct1 [OF s] conjunct2 [OF s] le] that(2) [of s] s le
  show ?thesis by blast
qed

lemma none_before_True:
  assumes ok: "layout_ok st W D" and ls: "\<forall>l\<in>set ls. l < 6"
    and bf: "\<And>l s. l \<in> set ls \<Longrightarrow> s < 64 \<Longrightarrow> D l s \<noteq> [] \<Longrightarrow> unat before \<le> slot_start (unat (wh_elapsed W)) l s"
  shows "none_before b W before True ls = Inr True"
  using ls bf
proof (induction ls)
  case Nil
  then show ?case by simp
next
  case (Cons l ls)
  then have l: "l < 6" and IH: "none_before b W before True ls = Inr True" by auto
  note get = wheel_holds_get [OF layout_okD(1) [OF ok] l]
  show ?case
  proof (cases rule: level_next_cases [OF ok l, where b = b])
    case 1
    then show ?thesis using IH by (simp add: get)
  next
    case (2 s d)
    then have "\<not> d < before" using Cons.prems(2) [of l s] by (simp add: word_less_nat_alt)
    then show ?thesis using IH 2(1) by (simp add: get)
  qed
qed

lemma first_expiration_skip:
  assumes ok: "layout_ok st W D"
    and "l \<le> 6" "k \<le> l" and e: "\<And>m s. m < l \<Longrightarrow> s < 64 \<Longrightarrow> D m s = []"
  shows "first_expiration b W [k..<6] = first_expiration b W [l..<6]"
  using \<open>k \<le> l\<close>
proof (induction rule: inc_induct)
  case base
  then show ?case by simp
next
  case (step m)
  then have m: "m < 6" using \<open>l \<le> 6\<close> by simp
  have "\<forall>s<64. D m s = []" using e step.hyps(2) by blast
  with level_next_expiration(1) [OF ok m this] step.IH
  show ?case by (simp add: upt_conv_Cons [OF m] wheel_holds_get [OF layout_okD(1) [OF ok] m])
qed

lemma wheel_next_None:
  assumes ok: "layout_ok st W D" and "items D = {}"
  shows "wheel_next_expiration b W = Inr None"
proof -
  have "D m s = []" if "m < 6" "s < 64" for m s
    using assms(2) itemsI [OF that, of "hd (D m s)" D] by (cases "D m s") auto
  then have "first_expiration b W [0..<6] = first_expiration b W [6..<6]"
    by (intro first_expiration_skip [OF ok]) auto
  then show ?thesis by (simp add: wheel_next_expiration_def NUM_LEVELS_def)
qed

lemma wheel_next_Some:
  assumes ok: "layout_ok st W D" and f: "earliest D l s"
  shows "\<exists>d. wheel_next_expiration b W = Inr (Some \<lparr>ex_level = l, ex_slot = s, ex_deadline = d\<rparr>) \<and>
             unat d = slot_start (unat (wh_elapsed W)) l s"
proof -
  have l: "l < 6" "s < 64" "D l s \<noteq> []" and least: "\<And>t. t < 64 \<Longrightarrow> D l t \<noteq> [] \<Longrightarrow> s \<le> t"
    and low: "\<And>m t. m < l \<Longrightarrow> t < 64 \<Longrightarrow> D m t = []"
    using f unfolding earliest_def by blast+
  obtain d where n: "next_expiration b (wh_levels W ! l) (wh_elapsed W) =
      Inr (Some \<lparr>ex_level = l, ex_slot = s, ex_deadline = d\<rparr>)"
    and d: "unat d = slot_start (unat (wh_elapsed W)) l s"
    using level_next_expiration(2) [OF ok l(1-3) least] by blast
  have "no_expirations_before b W (Suc l) d = Inr True"
    unfolding no_expirations_before_def NUM_LEVELS_def
    by (rule none_before_True [OF ok])
      (use earliest_start(2) [OF layout_okD(2,3) [OF ok] f] in \<open>auto simp: d\<close>)
  moreover have "first_expiration b W [0..<6] = first_expiration b W [l..<6]"
    by (rule first_expiration_skip [OF ok]) (use l low in auto)
  ultimately show ?thesis
    using n d by (simp add: wheel_next_expiration_def NUM_LEVELS_def upt_conv_Cons [OF l(1)]
        wheel_holds_get [OF layout_okD(1) [OF ok] l(1)])
qed

section \<open>Adding and taking one entry\<close>

lemma slot_subset_items: "l < 6 \<Longrightarrow> s < 64 \<Longrightarrow> set (D l s) \<subseteq> items D"
  by (auto intro: itemsI)

lemma wheel_add:
  assumes w: "wheel_holds st W D" and l: "l < 6" and x: "loose st x" "x \<notin> items D"
    and slot: "slot = slot_for v l"
  shows "\<exists>L' st'. add_entry ops (wh_levels W ! l) v x st = Inr (L', st') \<and>
           wheel_holds st' (W\<lparr>wh_levels := (wh_levels W)[l := L']\<rparr>) (D(l := (D l)(slot := x # D l slot))) \<and>
           frame repr loose core st st' (insert x (items D))"
proof -
  have s64: "slot < 64" by (simp add: slot)
  have notin: "x \<notin> set (D m t)" if "m < 6" "t < 64" for m t using x(2) slot_subset_items [OF that, of D] by blast
  obtain L' st' where a: "add_entry ops (wh_levels W ! l) v x st = Inr (L', st')"
    and h: "holds st' L' l ((D l)(slot := x # D l slot))"
    and f: "frame repr loose core st st' (insert x (set (D l slot)))"
    using holds_add_entry [OF wheel_holds_level [OF w l] slot x(1)] notin [OF l] by blast
  have "wheel_holds st' (W\<lparr>wh_levels := (wh_levels W)[l := L']\<rparr>) (D(l := (D l)(slot := x # D l slot)))"
    by (rule wheel_holds_upd [OF w l s64 h f])
      (use wheel_holds_cross [OF w _ l _ _ s64] notin in auto)
  moreover have "frame repr loose core st st' (insert x (items D))"
    using slot_subset_items [OF l s64, of D] by (intro frame_mono [OF f]) auto
  ultimately show ?thesis using a by blast
qed

lemma wheel_pop:
  assumes w: "wheel_holds st W D" and ex: "ex_level ex < 6" "ex_slot ex < 64"
  shows "D (ex_level ex) (ex_slot ex) = [] \<Longrightarrow> pop_entry b ops W ex st = Inr (None, W, st)"
    and "D (ex_level ex) (ex_slot ex) = x # xs \<Longrightarrow>
      \<exists>W' st'. pop_entry b ops W ex st = Inr (Some x, W', st') \<and> wh_elapsed W' = wh_elapsed W \<and>
        wheel_holds st' W' (D(ex_level ex := (D (ex_level ex))(ex_slot ex := xs))) \<and> loose st' x \<and>
        frame repr loose core st st' (items D)"
proof -
  let ?l = "ex_level ex" and ?s = "ex_slot ex"
  have h: "holds st (wh_levels W ! ?l) ?l (D ?l)" by (rule wheel_holds_level [OF w ex(1)])
  show "pop_entry b ops W ex st = Inr (None, W, st)" if "D ?l ?s = []"
    using holds_pop_None [OF h ex(2) that, of b]
    by (simp add: pop_entry_def wheel_holds_get [OF w ex(1)] wheel_holds_set [OF w ex(1)])
  assume x: "D ?l ?s = x # xs"
  obtain L' st' where p: "pop_entry_slot b ops (wh_levels W ! ?l) ?s st = Inr (Some x, L', st')"
    and h': "holds st' L' ?l ((D ?l)(?s := xs))" and lx: "loose st' x"
    and f: "frame repr loose core st st' (set (D ?l ?s))"
    using holds_pop_Some [OF h ex(2) x] by blast
  have "wheel_holds st' (W\<lparr>wh_levels := (wh_levels W)[?l := L']\<rparr>) (D(?l := (D ?l)(?s := xs)))"
    by (rule wheel_holds_upd [OF w ex h' f])
      (use wheel_holds_cross [OF w _ ex(1) _ _ ex(2)] x in auto)
  then show "\<exists>W' st'. pop_entry b ops W ex st = Inr (Some x, W', st') \<and> wh_elapsed W' = wh_elapsed W \<and>
        wheel_holds st' W' (D(?l := (D ?l)(?s := xs))) \<and> loose st' x \<and>
        frame repr loose core st st' (items D)"
    using p lx frame_mono [OF f slot_subset_items [OF ex, of D]]
    by (auto simp: pop_entry_def wheel_holds_get [OF w ex(1)] wheel_holds_set [OF w ex(1)])
qed

section \<open>insert and remove\<close>

lemma unat_MAX_DURATION: "unat MAX_DURATION = 2 ^ 36 - 1"
  by (simp add: MAX_DURATION_def NUM_LEVELS_def push_bit_eq_mult)

lemma same_block_diff:
  assumes "(a::nat) div k = b div k" "0 < k"
  shows "b - a < k"
proof -
  have "a div k * k \<le> a" by (rule div_times_less_eq_dividend)
  moreover have "b < k + a div k * k"
    unfolding assms(1) using dividend_less_times_div [OF assms(2), of b] by (simp add: mult.commute)
  ultimately show ?thesis using assms(2) by linarith
qed

lemma same_block_in_range:
  assumes "e < w" "unat e div 2 ^ 36 = unat w div 2 ^ 36"
  shows "\<not> MAX_DURATION < w - e"
proof -
  have "e \<le> w" using assms(1) by simp
  then have "unat (w - e) = unat w - unat e" by (rule unat_sub)
  also have "\<dots> < 2 ^ 36" by (rule same_block_diff [OF assms(2)]) simp
  finally show ?thesis by (simp add: word_less_nat_alt unat_MAX_DURATION not_less)
qed

lemma level_for_less_6: "unat e div 2 ^ 36 = unat w div 2 ^ 36 \<Longrightarrow> level_for e w < 6"
  using level_for_le_iff [of e w 5] by simp

lemma placed_level_for:
  assumes "unat e \<le> unat w"
  shows "placed (unat e) (unat w) (level_for e w) (slot_for w (level_for e w))"
    and "0 < level_for e w \<Longrightarrow> unat w div 64 ^ level_for e w \<noteq> unat e div 64 ^ level_for e w"
proof -
  show "placed (unat e) (unat w) (level_for e w) (slot_for w (level_for e w))"
    using assms level_for_le_iff [of e w "level_for e w"] by (simp add: placed_def slot_for_nat)
  assume "0 < level_for e w"
  then show "unat w div 64 ^ level_for e w \<noteq> unat e div 64 ^ level_for e w"
    using level_for_le_iff [of e w "level_for e w - 1"] by auto
qed

lemma wheel_insert_ok:
  assumes inv: "wheel_inv st W X" and x: "loose st x" "x \<notin> X" "due (core st) x = when"
    and later: "wh_elapsed W < when" and block: "unat (wh_elapsed W) div 2 ^ 36 = unat when div 2 ^ 36"
  shows "\<exists>W' st'. wheel_insert b ops W when x st = Inr (Inr (), W', st') \<and>
           wheel_inv st' W' (insert x X) \<and> wh_elapsed W' = wh_elapsed W \<and>
           frame repr loose core st st' (insert x X)"
proof -
  let ?e = "wh_elapsed W"
  let ?l = "level_for ?e when"
  let ?s = "slot_for when ?l"
  obtain D where w: "wheel_holds st W D" and p: "all_placed (due_nat st) (unat ?e) D"
    and sd: "settled (due_nat st) (unat ?e) D" and X: "X = items D" using inv by (rule wheel_invE)
  have l: "?l < 6" by (rule level_for_less_6 [OF block])
  have xD: "x \<notin> items D" using x(2) X by simp
  obtain L' st' where a: "add_entry ops (wh_levels W ! ?l) when x st = Inr (L', st')"
    and w': "wheel_holds st' (W\<lparr>wh_levels := (wh_levels W)[?l := L']\<rparr>) (D(?l := (D ?l)(?s := x # D ?l ?s)))"
    and f: "frame repr loose core st st' (insert x (items D))"
    using wheel_add [OF w l x(1) xD refl] by blast
  let ?W = "W\<lparr>wh_levels := (wh_levels W)[?l := L']\<rparr>" and ?D = "D(?l := (D ?l)(?s := x # D ?l ?s))"
  have due: "due_nat st x = unat when" by (simp add: due_nat_def x(3))
  have le: "unat ?e \<le> unat when" using later by (simp add: word_less_nat_alt)
  have p': "all_placed (due_nat st') (unat ?e) ?D"
    using p placed_level_for(1) [OF le] unfolding due_nat_frame [OF f]
    by (auto simp: all_placed_def due)
  have sd': "settled (due_nat st') (unat ?e) ?D"
    unfolding due_nat_frame [OF f]
  proof (rule settledI)
    fix m u y assume m: "m < 6" "u < 64" "0 < m" and y: "y \<in> set (?D m u)"
    show "due_nat st y div 64 ^ m \<noteq> unat ?e div 64 ^ m"
    proof (cases "y \<in> set (D m u)")
      case True
      then show ?thesis using settledD [OF sd m(1,2) _ m(3)] by blast
    next
      case False
      then have "y = x" "m = ?l" using y by (auto split: if_splits)
      then show ?thesis using placed_level_for(2) [OF le] m(3) due by simp
    qed
  qed
  have ok: "layout_ok st' ?W ?D" using w' p' sd' by (intro layout_okI) simp_all
  have len: "length (wh_levels W) = 6" using w by (simp add: wheel_holds_def)
  have "rbind (next_expiration b L' ?e)
          (\<lambda>e. Inr (case e of None \<Rightarrow> True | Some ex \<Rightarrow> ?e \<le> ex_deadline ex)) = Inr True"
  proof (cases rule: level_next_cases [OF ok l, where b = b])
    case 1
    then show ?thesis using len l by simp
  next
    case (2 s d)
    then have "unat ?e \<le> unat d"
      using settling_future(1) [OF layout_okD(2,3) [OF ok] l \<open>s < 64\<close>] by simp
    then show ?thesis using 2(1) len l by (simp add: word_le_nat_alt)
  qed
  then have "wheel_insert b ops W when x st = Inr (Inr (), ?W, st')"
    using later same_block_in_range [OF later block] a w l
    by (simp add: wheel_insert_def wheel_level_for_def wheel_holds_get wheel_holds_set not_le Let_def)
  moreover have "items ?D = insert x X"
    using items_replace [OF w l, of ?s "x # D ?l ?s"] slot_subset_items [OF l, of ?s D] X by auto
  then have "wheel_inv st' ?W (insert x X)" using w' p' sd' unfolding wheel_inv_def by force
  ultimately show ?thesis using f X by auto
qed

text \<open>
  Removal looks for the entry on the level computed from the present time: in a settled wheel
  the entry is there.
\<close>

lemma settled_level:
  assumes "all_placed (due_nat st) (unat e) D" "settled (due_nat st) (unat e) D"
    and "l < 6" "s < 64" "x \<in> set (D l s)"
  shows "level_for e (due (core st) x) = l" "slot_for (due (core st) x) l = s" "e \<le> due (core st) x"
proof -
  have p: "placed (unat e) (unat (due (core st) x)) l s"
    using all_placedD [OF assms(1,3-5)] by (simp add: due_nat_def)
  have "level_for e (due (core st) x) \<le> l" using p level_for_le_iff [of e "due (core st) x" l] by (simp add: placed_def)
  moreover have "\<not> level_for e (due (core st) x) \<le> l - 1" if "0 < l"
    using settledD [OF assms(2-5) that] level_for_le_iff [of e "due (core st) x" "l - 1"] that
    by (simp add: due_nat_def)
  ultimately show "level_for e (due (core st) x) = l" by (cases "l = 0") auto
  show "slot_for (due (core st) x) l = s" "e \<le> due (core st) x"
    using p by (simp_all add: placed_def slot_for_nat word_le_nat_alt)
qed

lemma wheel_remove_ok:
  assumes inv: "wheel_inv st W X" and x: "x \<in> X"
  shows "\<exists>W' st'. wheel_remove b ops W x st = Inr (W', st') \<and> wheel_inv st' W' (X - {x}) \<and>
           loose st' x \<and> wh_elapsed W' = wh_elapsed W \<and> frame repr loose core st st' X"
proof -
  let ?e = "wh_elapsed W"
  obtain D where w: "wheel_holds st W D" and p: "all_placed (due_nat st) (unat ?e) D"
    and sd: "settled (due_nat st) (unat ?e) D" and X: "X = items D" using inv by (rule wheel_invE)
  from x X obtain l s where l: "l < 6" "s < 64" and xs: "x \<in> set (D l s)" by (auto elim: itemsE)
  note lv = settled_level [OF p sd l xs]
  have h: "holds st (wh_levels W ! l) l (D l)" by (rule wheel_holds_level [OF w l(1)])
  have whn: "stk_when ops x st = Inr (due (core st) x)" by (rule when_repr [OF holds_repr [OF h l(2)] xs])
  obtain L' st' where r: "remove_entry b ops (wh_levels W ! l) (due (core st) x) x st = Inr (L', st')"
    and h': "holds st' L' l ((D l)(s := remove1 x (D l s)))" and lx: "loose st' x"
    and f: "frame repr loose core st st' (set (D l s))"
    using holds_remove_entry [OF h lv(2) [symmetric] xs] by blast
  let ?W = "W\<lparr>wh_levels := (wh_levels W)[l := L']\<rparr>" and ?D = "D(l := (D l)(s := remove1 x (D l s)))"
  have sub: "set (remove1 x (D l s)) \<subseteq> set (D l s)" by (rule set_remove1_subset)
  have "wheel_holds st' ?W ?D"
    by (rule wheel_holds_upd [OF w l h' f _ sub]) (use wheel_holds_cross [OF w _ l(1) _ _ l(2)] in auto)
  moreover have "items ?D = X - {x}"
    using items_replace [OF w l] wheel_holds_distinct [OF w l] slot_subset_items [OF l, of D] xs X by auto
  ultimately have "wheel_inv st' ?W (X - {x})"
    using shrink_placed [OF sub p] shrink_settled [OF sub sd] due_nat_frame [OF f]
    unfolding wheel_inv_def by force
  moreover have "wheel_remove b ops W x st = Inr (?W, st')"
    using r l lv by (simp add: wheel_remove_def whn wheel_level_for_def wheel_holds_get [OF w]
        wheel_holds_set [OF w] Let_def)
  ultimately show ?thesis using lx frame_mono [OF f slot_subset_items [OF l, of D]] X by auto
qed

section \<open>poll_at\<close>

lemma poll_at_ok:
  assumes inv: "wheel_inv st W X"
  shows "X = {} \<Longrightarrow> poll_at b W = Inr None"
    and "X \<noteq> {} \<Longrightarrow> \<exists>t. poll_at b W = Inr (Some t) \<and> wh_elapsed W \<le> t \<and> (\<forall>x\<in>X. t \<le> due (core st) x)"
proof -
  let ?e = "unat (wh_elapsed W)"
  obtain D where w: "wheel_holds st W D" and p: "all_placed (due_nat st) ?e D"
    and sd: "settled (due_nat st) ?e D" and X: "X = items D" using inv by (rule wheel_invE)
  have ok: "layout_ok st W D" by (rule layout_okI [OF w p sd])
  show "poll_at b W = Inr None" if "X = {}"
    using wheel_next_None [OF ok] that X by (simp add: poll_at_def)
  assume "X \<noteq> {}"
  then obtain l s where f: "earliest D l s" using earliest_exists [of D] X by blast
  obtain d where n: "wheel_next_expiration b W = Inr (Some \<lparr>ex_level = l, ex_slot = s, ex_deadline = d\<rparr>)"
    and d: "unat d = slot_start ?e l s" using wheel_next_Some [OF ok f] by blast
  have "?e \<le> unat d"
    using settling_future(1) [OF p layout_okD(3) [OF ok]] f unfolding d earliest_def by blast
  moreover have "unat d \<le> unat (due (core st) x)" if "x \<in> X" for x
    using earliest_due [OF p layout_okD(3) [OF ok] f] that X unfolding d due_nat_def by blast
  ultimately show "\<exists>t. poll_at b W = Inr (Some t) \<and> wh_elapsed W \<le> t \<and> (\<forall>x\<in>X. t \<le> due (core st) x)"
    using n by (auto simp: poll_at_def word_le_nat_alt)
qed

section \<open>poll\<close>

lemma poll_expiration_level0:
  assumes ok: "layout_ok st W D" and f: "earliest D 0 s" and d: "unat d = slot_start (unat (wh_elapsed W)) 0 s"
  shows "\<exists>x W' st'. poll_expiration b ops W \<lparr>ex_level = 0, ex_slot = s, ex_deadline = d\<rparr> st = Inr (Some x, W', st') \<and>
           x \<in> items D \<and> due (core st) x = d \<and> wheel_inv st' W' (items D - {x}) \<and> loose st' x \<and>
           wh_elapsed W' = wh_elapsed W \<and> frame repr loose core st st' (items D)"
proof -
  let ?ex = "\<lparr>ex_level = 0, ex_slot = s, ex_deadline = d\<rparr>"
  note okD = layout_okD [OF ok]
  have s: "s < 64" and ne: "D 0 s \<noteq> []" using f by (auto simp: earliest_def)
  have l: "(0::nat) < 6" by simp
  from ne obtain x xs where x: "D 0 s = x # xs" by (cases "D 0 s") auto
  then have xD: "x \<in> set (D 0 s)" and sub: "set xs \<subseteq> set (D 0 s)" by auto
  obtain W' st' where p: "pop_entry b ops W ?ex st = Inr (Some x, W', st')"
    and el: "wh_elapsed W' = wh_elapsed W" and w': "wheel_holds st' W' (D(0 := (D 0)(s := xs)))"
    and lx: "loose st' x" and fr: "frame repr loose core st st' (items D)"
    using wheel_pop(2) [OF okD(1), of ?ex x xs b] x s by auto
  have "unat (due (core st) x) = unat d"
    using placed_start [OF all_placedD [OF okD(2) l s xD]] d by (simp add: due_nat_def)
  then have due: "due (core st) x = d" by (simp add: word_unat_eq_iff)
  have "stk_when ops x st' = Inr d" using when_loose [OF lx] frame_core [OF fr] due by simp
  then have "poll_expiration b ops W ?ex st = Inr (Some x, W', st')"
    using p by (simp add: poll_expiration_def poll_expiration_loop.simps)
  moreover have "items (D(0 := (D 0)(s := xs))) = items D - {x}"
    using items_replace [OF okD(1) l s] wheel_holds_distinct [OF okD(1) l s] slot_subset_items [OF l s, of D] x
    by auto
  then have "wheel_inv st' W' (items D - {x})"
    using w' el shrink_placed [OF sub okD(2)] shrink_settled [OF sub settling_settled [OF okD(3) s ne]]
      due_nat_frame [OF fr] unfolding wheel_inv_def by force
  ultimately show ?thesis using itemsI [of 0 s x D] l s xD due lx el fr by blast
qed

lemma tier_down_ok:
  assumes w: "wheel_holds st W D" and ex: "ex_level ex = Suc l" "l < 6" and x: "loose st x" "x \<notin> items D"
    and t: "t = (due_nat st x div 64 ^ l) mod 64"
  shows "\<exists>W' st'. tier_down ops ex x W st = Inr (W', st') \<and> wh_elapsed W' = wh_elapsed W \<and>
           wheel_holds st' W' (D(l := (D l)(t := x # D l t))) \<and>
           frame repr loose core st st' (insert x (items D))"
proof -
  have t': "t = slot_for (due (core st) x) l" by (simp add: t slot_for_nat due_nat_def)
  show ?thesis
    using wheel_add [OF w ex(2) x t'] when_loose [OF x(1)]
    by (auto simp: tier_down_def ex(1) wheel_holds_get [OF w ex(2)] wheel_holds_set [OF w ex(2)])
qed

lemma poll_expiration_cascade:
  assumes "wheel_holds st W D" "Suc l < 6" "s < 64" "D (Suc l) s = xs"
  shows "\<exists>W' st' D'. poll_expiration_loop b ops \<lparr>ex_level = Suc l, ex_slot = s, ex_deadline = d\<rparr> W st =
             Some (Inr (None, W', st')) \<and>
           wh_elapsed W' = wh_elapsed W \<and> wheel_holds st' W' D' \<and>
           moved_down (due_nat st) l s D D' \<and> frame repr loose core st st' (items D)"
  using assms
proof (induction xs arbitrary: st W D)
  case Nil
  let ?ex = "\<lparr>ex_level = Suc l, ex_slot = s, ex_deadline = d\<rparr>"
  have "pop_entry b ops W ?ex st = Inr (None, W, st)"
    using wheel_pop(1) [OF Nil.prems(1), of ?ex] Nil.prems by simp
  then have "poll_expiration_loop b ops ?ex W st = Some (Inr (None, W, st))"
    by (simp add: poll_expiration_loop.simps)
  moreover have "moved_down (due_nat st) l s D D" using Nil.prems(4) by (simp add: moved_down_def)
  ultimately show ?case
    using Nil.prems(1) by (intro exI [of _ W] exI [of _ st] exI [of _ D]) simp
next
  case (Cons x xs)
  let ?ex = "\<lparr>ex_level = Suc l, ex_slot = s, ex_deadline = d\<rparr>"
  have l: "l < 6" using Cons.prems(2) by simp
  define D1 where "D1 = D(Suc l := (D (Suc l))(s := xs))"
  define t where "t = (due_nat st x div 64 ^ l) mod 64"
  define D2 where "D2 = D1(l := (D1 l)(t := x # D1 l t))"
  obtain W1 st1 where p: "pop_entry b ops W ?ex st = Inr (Some x, W1, st1)"
    and el1: "wh_elapsed W1 = wh_elapsed W" and w1: "wheel_holds st1 W1 D1"
    and lx: "loose st1 x" and fr1: "frame repr loose core st st1 (items D)"
    using wheel_pop(2) [OF Cons.prems(1), of ?ex x xs b] Cons.prems unfolding D1_def by auto
  have it1: "items D1 = items D - {x}"
    using items_replace [OF Cons.prems(1-3), of xs] wheel_holds_distinct [OF Cons.prems(1-3)]
      slot_subset_items [OF Cons.prems(2,3), of D] Cons.prems(4) unfolding D1_def by auto
  have xD: "x \<in> items D" using slot_subset_items [OF Cons.prems(2,3), of D] Cons.prems(4) by auto
  have t: "t = (due_nat st1 x div 64 ^ l) mod 64" unfolding due_nat_frame [OF fr1] by (rule t_def)
  have "ex_level ?ex = Suc l" "x \<notin> items D1" using it1 by simp_all
  from tier_down_ok [OF w1 this(1) l lx this(2) t]
  obtain W2 st2 where td: "tier_down ops ?ex x W1 st1 = Inr (W2, st2)"
    and el2: "wh_elapsed W2 = wh_elapsed W1" and w2: "wheel_holds st2 W2 D2"
    and fr2: "frame repr loose core st1 st2 (insert x (items D1))"
    unfolding D2_def by blast
  have "t < 64" by (simp add: t_def)
  then have it2: "items D2 = items D"
    using items_replace [OF w1 l, of t "x # D1 l t"] slot_subset_items [OF l, of t D1] it1 xD
    unfolding D2_def by auto
  have frx: "insert x (items D1) = items D" using it1 xD by auto
  have fr02: "frame repr loose core st st2 (items D)"
    using fr2 unfolding frx by (rule frame_trans [OF fr1])
  have "D2 (Suc l) s = xs" by (simp add: D2_def D1_def)
  from Cons.IH [OF w2 Cons.prems(2,3) this]
  obtain W' st' D' where IH: "poll_expiration_loop b ops ?ex W2 st2 = Some (Inr (None, W', st'))"
    and el: "wh_elapsed W' = wh_elapsed W2" and w': "wheel_holds st' W' D'"
    and mv: "moved_down (due_nat st2) l s D2 D'" and fr3: "frame repr loose core st2 st' (items D2)"
    by blast
  have "frame repr loose core st st' (items D)" using fr3 unfolding it2 by (rule frame_trans [OF fr02])
  moreover have "moved_down (due_nat st) l s D D'"
    using mv Cons.prems(4) unfolding due_nat_frame [OF fr02] by (auto simp: moved_down_def D2_def D1_def t_def)
  moreover have "poll_expiration_loop b ops ?ex W st = Some (Inr (None, W', st'))"
    using p td IH by (simp add: poll_expiration_loop.simps [of b ops ?ex W])
  ultimately show ?case using w' el el1 el2 by auto
qed

text \<open>The level each entry is on, as a function; every cascade lowers its sum.\<close>

definition levels_of :: "('own \<Rightarrow> nat) \<Rightarrow> 'own layout \<Rightarrow> bool" where
  "levels_of g D \<longleftrightarrow> (\<forall>l<6. \<forall>s<64. \<forall>x\<in>set (D l s). g x = l)"

lemma levels_of_exists:
  assumes "wheel_holds st W D"
  shows "\<exists>g. levels_of g D"
proof
  show "levels_of (\<lambda>x. THE l. l < 6 \<and> (\<exists>s<64. x \<in> set (D l s))) D"
    unfolding levels_of_def
  proof (intro allI impI ballI)
    fix l s x assume "l < (6::nat)" "s < (64::nat)" "x \<in> set (D l s)"
    then show "(THE l. l < 6 \<and> (\<exists>s<64. x \<in> set (D l s))) = l"
      by (intro the_equality) (use wheel_holds_unique [OF assms] in blast)+
  qed
qed

lemma levels_of_moved:
  assumes g: "levels_of g D" and mv: "moved_down d l s D D'" and f: "earliest D (Suc l) s"
  defines "g' \<equiv> (\<lambda>x. if x \<in> set (D (Suc l) s) then l else g x)"
  assumes uniq: "\<And>m t x. m < 6 \<Longrightarrow> t < 64 \<Longrightarrow> x \<in> set (D m t) \<Longrightarrow> x \<in> set (D (Suc l) s) \<Longrightarrow> m = Suc l \<and> t = s"
  shows "levels_of g' D'" "sum g' (items D') < sum g (items D)"
proof -
  have l: "Suc l < 6" "s < 64" and ne: "D (Suc l) s \<noteq> []" using f by (auto simp: earliest_def)
  have gD: "g x = m" if "m < 6" "t < 64" "x \<in> set (D m t)" for m t x
    using g that unfolding levels_of_def by blast
  show "levels_of g' D'"
    unfolding levels_of_def
  proof (intro allI impI ballI)
    fix m t x assume m: "m < (6::nat)" "t < (64::nat)" "x \<in> set (D' m t)"
    show "g' x = m"
      by (cases rule: moved_down_cases [OF mv f m])
        (use m uniq [of m t x] gD [of m t x] in \<open>auto simp: g'_def\<close>)
  qed
  have "sum g' (items D) < sum g (items D)"
  proof (rule sum_strict_mono_ex1)
    show "\<forall>x\<in>items D. g' x \<le> g x" using gD [OF l] by (auto simp: g'_def)
    from ne obtain y where y: "y \<in> set (D (Suc l) s)" by (cases "D (Suc l) s") auto
    then show "\<exists>x\<in>items D. g' x < g x"
      using gD [OF l y] itemsI [of "Suc l" s y D] l by (intro bexI [of _ y]) (auto simp: g'_def)
  qed simp
  then show "sum g' (items D') < sum g (items D)" by (simp add: moved_down_items [OF mv f])
qed

lemma set_elapsed_ok:
  "wh_elapsed W \<le> t \<Longrightarrow> set_elapsed W t = Inr (W\<lparr>wh_elapsed := t\<rparr>)"
  by (cases W) (auto simp: set_elapsed_def)

lemma wheel_holds_elapsed [simp]: "wheel_holds st (W\<lparr>wh_elapsed := t\<rparr>) D = wheel_holds st W D"
  by (simp add: wheel_holds_def)

definition poll_result :: "'store \<Rightarrow> 'stk wheel \<Rightarrow> 'own set \<Rightarrow> u64 \<Rightarrow> 'own option \<Rightarrow> 'stk wheel \<Rightarrow> 'store \<Rightarrow> bool" where
  "poll_result st W X now r W' st' \<longleftrightarrow>
     frame repr loose core st st' X \<and> wh_elapsed W \<le> wh_elapsed W' \<and> wh_elapsed W' \<le> now \<and>
     (case r of
        None \<Rightarrow> wh_elapsed W' = now \<and> wheel_inv st' W' X \<and> (\<forall>x\<in>X. now < due (core st) x)
      | Some x \<Rightarrow> x \<in> X \<and> due (core st) x \<le> now \<and> (\<forall>y\<in>X. due (core st) x \<le> due (core st) y) \<and>
          wh_elapsed W' \<le> due (core st) x \<and> loose st' x \<and> wheel_inv st' W' (X - {x}))"

lemma poll_loop_ok:
  assumes "layout_ok st W D" "levels_of g D" "wh_elapsed W \<le> now"
  shows "\<exists>r W' st'. poll_loop b ops now W st = Some (Inr (r, W', st')) \<and>
           poll_result st W (items D) now r W' st'"
  using assms
proof (induction "sum g (items D)" arbitrary: g st W D rule: less_induct)
  case less
  note okD = layout_okD [OF less.prems(1)]
  let ?e = "unat (wh_elapsed W)"
  have e_now: "?e \<le> unat now" using less.prems(3) by (simp add: word_le_nat_alt)
  show ?case
  proof (cases "items D = {}")
    case True
    have "wheel_inv st (W\<lparr>wh_elapsed := now\<rparr>) (items D)"
      using okD(1) advance_empty [OF True, of "due_nat st" "unat now"] unfolding wheel_inv_def by auto
    moreover have "poll_loop b ops now W st = Some (Inr (None, W\<lparr>wh_elapsed := now\<rparr>, st))"
      using wheel_next_None [OF less.prems(1) True] set_elapsed_ok [OF less.prems(3)]
      by (simp add: poll_loop.simps)
    ultimately show ?thesis using True less.prems(3) by (auto simp: poll_result_def)
  next
    case False
    then obtain l s where f: "earliest D l s" using earliest_exists [of D] by blast
    then have l: "l < 6" "s < 64" and ne: "D l s \<noteq> []" by (auto simp: earliest_def)
    obtain d where n: "wheel_next_expiration b W = Inr (Some \<lparr>ex_level = l, ex_slot = s, ex_deadline = d\<rparr>)"
      and d: "unat d = slot_start ?e l s" using wheel_next_Some [OF less.prems(1) f] by blast
    have e_d: "?e \<le> unat d" unfolding d by (rule settling_future(1) [OF okD(2,3) l ne])
    have d_le: "d \<le> due (core st) y" if "y \<in> items D" for y
      using earliest_due [OF okD(2,3) f that] by (simp add: d due_nat_def word_le_nat_alt)
    consider "now < d" | "d \<le> now" "l = 0" | k where "d \<le> now" "l = Suc k"
      by (cases l; cases "now < d"; force simp: not_less)
    then show ?thesis
    proof cases
      case 1
      have "unat now < slot_start ?e l s" using 1 by (simp add: d [symmetric] word_less_nat_alt)
      from advance_before [OF okD(2,3) f e_now this]
      have "wheel_inv st (W\<lparr>wh_elapsed := now\<rparr>) (items D)"
        using okD(1) unfolding wheel_inv_def by auto
      moreover have "poll_loop b ops now W st = Some (Inr (None, W\<lparr>wh_elapsed := now\<rparr>, st))"
        using n 1 set_elapsed_ok [OF less.prems(3)] by (simp add: poll_loop.simps)
      moreover have "\<forall>x\<in>items D. now < due (core st) x" using 1 d_le by fastforce
      ultimately show ?thesis using less.prems(3) by (auto simp: poll_result_def)
    next
      case 2
      obtain x W' st' where px: "poll_expiration b ops W \<lparr>ex_level = 0, ex_slot = s, ex_deadline = d\<rparr> st = Inr (Some x, W', st')"
        and x: "x \<in> items D" "due (core st) x = d" and inv: "wheel_inv st' W' (items D - {x})"
        and lx: "loose st' x" and el: "wh_elapsed W' = wh_elapsed W"
        and fr: "frame repr loose core st st' (items D)"
        using poll_expiration_level0 [OF less.prems(1)] f d 2 by blast
      have "poll_loop b ops now W st = Some (Inr (Some x, W', st'))"
        using n px 2 by (auto simp: poll_loop.simps)
      then show ?thesis
        using x inv lx el fr d_le 2(1) e_d less.prems(3) by (auto simp: poll_result_def word_le_nat_alt)
    next
      case 3
      let ?ex = "\<lparr>ex_level = Suc k, ex_slot = s, ex_deadline = d\<rparr>"
      obtain W' st' D' where pe: "poll_expiration_loop b ops ?ex W st = Some (Inr (None, W', st'))"
        and el: "wh_elapsed W' = wh_elapsed W" and w': "wheel_holds st' W' D'"
        and mv: "moved_down (due_nat st) k s D D'" and fr: "frame repr loose core st st' (items D)"
        using poll_expiration_cascade [OF okD(1) _ l(2) refl] l 3(2) by blast
      let ?W = "W'\<lparr>wh_elapsed := d\<rparr>"
      have f': "earliest D (Suc k) s" using f 3(2) by simp
      note ml = moved_down_layout [OF okD(2,3) f' mv]
      have it: "items D' = items D" by (rule moved_down_items [OF mv f'])
      have ok': "layout_ok st' ?W D'"
        using w' ml d 3(2) unfolding layout_ok_def due_nat_frame [OF fr] by simp
      have uniq: "m = Suc k \<and> t = s"
        if "m < 6" "t < 64" "x \<in> set (D m t)" "x \<in> set (D (Suc k) s)" for m t x
        using wheel_holds_unique [OF okD(1) that(1) _ that(2) l(2) that(3,4)] l(1) 3(2) by simp
      let ?g = "\<lambda>x. if x \<in> set (D (Suc k) s) then k else g x"
      have g': "levels_of ?g D'" "sum ?g (items D') < sum g (items D)"
        by (rule levels_of_moved [OF less.prems(2) mv f' uniq]; assumption)+
      have "wh_elapsed ?W \<le> now" using 3(1) by simp
      from less.hyps [OF g'(2) ok' g'(1) this]
      obtain r W'' st'' where pl: "poll_loop b ops now ?W st' = Some (Inr (r, W'', st''))"
        and res: "poll_result st' ?W (items D') now r W'' st''" by blast
      have "wh_elapsed W' \<le> d" using e_d el by (simp add: word_le_nat_alt)
      then have "poll_loop b ops now W st = Some (Inr (r, W'', st''))"
        using n pe pl 3 by (auto simp: poll_loop.simps [of b ops now W] poll_expiration_def set_elapsed_ok)
      moreover have "poll_result st W (items D) now r W'' st''"
        using res e_d el frame_trans [OF fr, of st''] frame_core [OF fr]
        unfolding poll_result_def it by (auto simp: word_le_nat_alt split: option.splits)
      ultimately show ?thesis by blast
    qed
  qed
qed

lemma wheel_poll_ok:
  assumes inv: "wheel_inv st W X" and "wh_elapsed W \<le> now"
  shows "\<exists>r W' st'. wheel_poll b ops W now st = Inr (r, W', st') \<and> poll_result st W X now r W' st'"
proof -
  obtain D where w: "wheel_holds st W D" and p: "all_placed (due_nat st) (unat (wh_elapsed W)) D"
    and sd: "settled (due_nat st) (unat (wh_elapsed W)) D" and X: "X = items D" using inv by (rule wheel_invE)
  obtain g where "levels_of g D" using levels_of_exists [OF w] by blast
  from poll_loop_ok [OF layout_okI [OF w p sd] this assms(2), of b] show ?thesis
    unfolding X wheel_poll_def by auto
qed

lemma wheel_new_inv: "good st \<Longrightarrow> wheel_inv st (wheel_new ops) {}"
proof -
  assume g: "good st"
  have "wheel_holds st (wheel_new ops) (\<lambda>_ _. [])"
    unfolding wheel_holds_def by (simp add: wheel_new_def NUM_LEVELS_def holds_new [OF g])
  moreover have "items (\<lambda>_ _. [] :: 'own list) = {}" by (simp add: items_def)
  ultimately show ?thesis
    using advance_empty [of "\<lambda>_ _. [] :: 'own list"] unfolding wheel_inv_def by metis
qed

text \<open>Every entry is in some stack, and is due at or after the time that has elapsed.\<close>

lemma wheel_inv_repr:
  assumes "wheel_inv st W X" "x \<in> X"
  shows "\<exists>s ys. repr st s ys \<and> x \<in> set ys"
proof -
  obtain D where w: "wheel_holds st W D" and X: "X = items D" using assms(1) by (rule wheel_invE)
  from assms(2) X obtain l s where l: "l < 6" "s < 64" "x \<in> set (D l s)" by (auto elim: itemsE)
  then show ?thesis using holds_repr [OF wheel_holds_level [OF w l(1)] l(2)] by blast
qed

lemma wheel_inv_due:
  assumes "wheel_inv st W X" "x \<in> X"
  shows "wh_elapsed W \<le> due (core st) x" "unat (wh_elapsed W) div 2 ^ 36 = unat (due (core st) x) div 2 ^ 36"
proof -
  obtain D where w: "wheel_holds st W D" and p: "all_placed (due_nat st) (unat (wh_elapsed W)) D"
    and sd: "settled (due_nat st) (unat (wh_elapsed W)) D" and X: "X = items D"
    using assms(1) by (rule wheel_invE)
  from assms(2) X obtain l s where l: "l < 6" "s < 64" "x \<in> set (D l s)" by (auto elim: itemsE)
  show "wh_elapsed W \<le> due (core st) x" by (rule settled_level(3) [OF p sd l])
  have "unat (due (core st) x) div 64 ^ Suc l = unat (wh_elapsed W) div 64 ^ Suc l"
    using all_placedD [OF p l] by (simp add: placed_def due_nat_def)
  from div_pow_mono_eq [OF this, of 6] l(1)
  show "unat (wh_elapsed W) div 2 ^ 36 = unat (due (core st) x) div 2 ^ 36" by simp
qed

text \<open>
  A store in which the stacks of the wheel hold what they held and its entries are due when
  they were leaves the wheel as it was; so does a change on other items only.
\<close>

lemma wheel_inv_transfer:
  assumes "wheel_inv st W X"
    and r: "\<And>s ys. repr st s ys \<Longrightarrow> set ys \<subseteq> X \<Longrightarrow> repr st' s ys"
    and due: "\<And>x. x \<in> X \<Longrightarrow> due (core st') x = due (core st) x"
  shows "wheel_inv st' W X"
proof -
  obtain D where w: "wheel_holds st W D" and p: "all_placed (due_nat st) (unat (wh_elapsed W)) D"
    and sd: "settled (due_nat st) (unat (wh_elapsed W)) D" and X: "X = items D"
    using assms(1) by (rule wheel_invE)
  have sub: "set (D l s) \<subseteq> X" if "l < 6" "s < 64" for l s
    using slot_subset_items [OF that, of D] X by simp
  have d: "due_nat st' x = due_nat st x" if "l < 6" "s < 64" "x \<in> set (D l s)" for l s x
    using due sub [OF that(1,2)] that(3) by (auto simp: due_nat_def)
  have "holds st' (wh_levels W ! l) l (D l)" if "l < 6" for l
    using wheel_holds_level [OF w that] r sub [OF that] by (auto simp: holds_def)
  then have "wheel_holds st' W D" using w by (simp add: wheel_holds_def)
  moreover have "all_placed (due_nat st') (unat (wh_elapsed W)) D"
    using p d unfolding all_placed_def by metis
  moreover have "settled (due_nat st') (unat (wh_elapsed W)) D"
    using d settledD [OF sd] by (intro settledI) metis
  ultimately show ?thesis using X unfolding wheel_inv_def by blast
qed

lemma wheel_inv_frame:
  assumes "wheel_inv st W X" "frame repr loose core st st' A" "X \<inter> A = {}"
  shows "wheel_inv st' W X"
proof (rule wheel_inv_transfer [OF assms(1)])
  fix s ys assume "repr st s ys" "set ys \<subseteq> X"
  then show "repr st' s ys" using frame_repr [OF assms(2)] assms(3) by blast
qed (simp add: frame_core [OF assms(2)])

text \<open>When nothing is due yet the next poll is strictly later: polling makes progress.\<close>

lemma poll_at_strict:
  assumes inv: "wheel_inv st W X" and t: "poll_at b W = Inr (Some t)"
    and later: "\<And>x. x \<in> X \<Longrightarrow> wh_elapsed W < due (core st) x"
  shows "wh_elapsed W < t"
proof -
  let ?e = "unat (wh_elapsed W)"
  obtain D where w: "wheel_holds st W D" and p: "all_placed (due_nat st) ?e D"
    and sd: "settled (due_nat st) ?e D" and X: "X = items D" using inv by (rule wheel_invE)
  have ok: "layout_ok st W D" by (rule layout_okI [OF w p sd])
  have "X \<noteq> {}" using poll_at_ok(1) [OF inv] t by auto
  then obtain l s where f: "earliest D l s" using earliest_exists [of D] X by blast
  obtain d where n: "wheel_next_expiration b W = Inr (Some \<lparr>ex_level = l, ex_slot = s, ex_deadline = d\<rparr>)"
    and d: "unat d = slot_start ?e l s" using wheel_next_Some [OF ok f] by blast
  have l: "l < 6" "s < 64" using f by (simp_all add: earliest_def)
  obtain x where x: "x \<in> set (D l s)" using f by (cases "D l s") (auto simp: earliest_def)
  have px: "placed ?e (due_nat st x) l s" by (rule all_placedD [OF p l x])
  have "?e < due_nat st x" using later itemsI [of l s x D] l x X by (simp add: due_nat_def word_less_nat_alt)
  then have "?e div 64 ^ l < due_nat st x div 64 ^ l" if "l = 0" using that by simp
  moreover have "?e div 64 ^ l < due_nat st x div 64 ^ l" if "0 < l"
    using settledD [OF sd l x that] div_le_mono [of ?e "due_nat st x" "64 ^ l"] px
    by (simp add: placed_def)
  ultimately have "?e div 64 ^ l < due_nat st x div 64 ^ l" by blast
  then have "?e < slot_start ?e l s"
    unfolding placed_start [OF px] by (metis div_less_iff_less_mult zero_less_numeral zero_less_power)
  then show ?thesis using t n d by (simp add: poll_at_def word_less_nat_alt)
qed

end

end
