(* ===== verification/Queue_Stack.thy ===== *)
theory Queue_Stack
  imports Slab_Storage Wheel_Correct
begin

text \<open>
  The stack of the delay queue (\<open>impl wheel::Stack for Stack\<close> in \<open>delay_queue.rs\<close>): a
  doubly linked list through the \<open>next\<close> and \<open>prev\<close> fields of the stored data. It keeps
  the contract of the trait, for every slab that keeps its own.
\<close>

record 't data =
  data_inner :: 't
  data_when :: u64
  data_expired :: bool
  data_next :: "key option"
  data_prev :: "key option"

record stack =
  stack_head :: "key option"

definition stack_default :: stack where
  "stack_default = \<lparr>stack_head = None\<rparr>"

definition stack_is_empty :: "stack \<Rightarrow> bool" where
  "stack_is_empty self = (stack_head self = None)"

definition stack_push ::
  "build \<Rightarrow> ('slab, 't data) slab_ops \<Rightarrow> stack \<Rightarrow> key \<Rightarrow> 'slab storage \<Rightarrow> (stack \<times> 'slab storage) res" where
  "stack_push b SL self item store =
     rbind (debug_check b (rbind (storage_index SL store item) (\<lambda>d. Inr (data_next d = None)))) (\<lambda>_.
     rbind (debug_check b (rbind (storage_index SL store item) (\<lambda>d. Inr (data_prev d = None)))) (\<lambda>_.
     let old = stack_head self in
     rbind (case old of
              Some idx \<Rightarrow> storage_index_mut SL store idx (\<lambda>d. d\<lparr>data_prev := Some item\<rparr>)
            | None \<Rightarrow> Inr store) (\<lambda>store.
     rbind (storage_index_mut SL store item (\<lambda>d. d\<lparr>data_next := old\<rparr>)) (\<lambda>store.
     Inr (\<lparr>stack_head = Some item\<rparr>, store)))))"

definition stack_pop ::
  "build \<Rightarrow> ('slab, 't data) slab_ops \<Rightarrow> stack \<Rightarrow> 'slab storage \<Rightarrow> (key option \<times> stack \<times> 'slab storage) res" where
  "stack_pop b SL self store =
     (case stack_head self of
        Some key \<Rightarrow>
          rbind (storage_index SL store key) (\<lambda>d.
          let head = data_next d in
          rbind (case head of
                   Some idx \<Rightarrow> storage_index_mut SL store idx (\<lambda>d. d\<lparr>data_prev := None\<rparr>)
                 | None \<Rightarrow> Inr store) (\<lambda>store.
          rbind (storage_index_mut SL store key (\<lambda>d. d\<lparr>data_next := None\<rparr>)) (\<lambda>store.
          rbind (debug_check b (rbind (storage_index SL store key) (\<lambda>d. Inr (data_prev d = None)))) (\<lambda>_.
          Inr (Some key, \<lparr>stack_head = head\<rparr>, store)))))
      | None \<Rightarrow> Inr (None, self, store))"

text \<open>The walk of the full list in the assertion of \<open>remove\<close>.\<close>

partial_function (option) stack_walk ::
  "('slab, 't data) slab_ops \<Rightarrow> 'slab storage \<Rightarrow> key \<Rightarrow> key option \<Rightarrow> bool \<Rightarrow> bool res option" where
  "stack_walk SL store item next contains =
     (case next of
        None \<Rightarrow> Some (Inr contains)
      | Some idx \<Rightarrow>
          (case storage_index SL store idx of
             Inl e \<Rightarrow> Some (Inl e)
           | Inr data \<Rightarrow>
               if idx = item then
                 (if contains then Some (Inl Debug_Assert_Failed)
                  else stack_walk SL store item (data_next data) True)
               else stack_walk SL store item (data_next data) contains))"

declare stack_walk.simps [code]

definition stack_remove ::
  "build \<Rightarrow> ('slab, 't data) slab_ops \<Rightarrow> stack \<Rightarrow> key \<Rightarrow> 'slab storage \<Rightarrow> (stack \<times> 'slab storage) res" where
  "stack_remove b SL self key store =
     rbind (check (storage_contains SL store key) Assert_Failed) (\<lambda>_.
     rbind (debug_check b (of_loop (stack_walk SL store key (stack_head self) False))) (\<lambda>_.
     rbind (storage_index SL store key) (\<lambda>d.
     rbind (case data_next d of
              Some next \<Rightarrow> storage_index_mut SL store next (\<lambda>e. e\<lparr>data_prev := data_prev d\<rparr>)
            | None \<Rightarrow> Inr store) (\<lambda>store.
     rbind (storage_index SL store key) (\<lambda>d.
     rbind (case data_prev d of
              Some prev \<Rightarrow>
                rbind (storage_index_mut SL store prev (\<lambda>e. e\<lparr>data_next := data_next d\<rparr>)) (\<lambda>store.
                Inr (self, store))
            | None \<Rightarrow> Inr (self\<lparr>stack_head := data_next d\<rparr>, store)) (\<lambda>(self, store).
     rbind (storage_index_mut SL store key (\<lambda>d. d\<lparr>data_next := None\<rparr>)) (\<lambda>store.
     rbind (storage_index_mut SL store key (\<lambda>d. d\<lparr>data_prev := None\<rparr>)) (\<lambda>store.
     Inr (self, store)))))))))"

definition stack_when :: "('slab, 't data) slab_ops \<Rightarrow> key \<Rightarrow> 'slab storage \<Rightarrow> u64 res" where
  "stack_when SL item store = rbind (storage_index SL store item) (\<lambda>d. Inr (data_when d))"

definition queue_stack :: "build \<Rightarrow> ('slab, 't data) slab_ops \<Rightarrow> (stack, key, 'slab storage) stack_ops" where
  "queue_stack b SL = \<lparr>
     stk_default = stack_default,
     stk_is_empty = stack_is_empty,
     stk_push = stack_push b SL,
     stk_pop = stack_pop b SL,
     stk_remove = stack_remove b SL,
     stk_when = stack_when SL\<rparr>"

lemma queue_stack_sel [simp]:
  "stk_default (queue_stack b SL) = stack_default" "stk_is_empty (queue_stack b SL) = stack_is_empty"
  "stk_push (queue_stack b SL) = stack_push b SL" "stk_pop (queue_stack b SL) = stack_pop b SL"
  "stk_remove (queue_stack b SL) = stack_remove b SL" "stk_when (queue_stack b SL) = stack_when SL"
  by (simp_all add: queue_stack_def)

section \<open>Linked segments\<close>

text \<open>
  \<open>seg V p xs n\<close>: in the map \<open>V\<close> the keys \<open>xs\<close> are linked in this order, \<open>p\<close> before
  the first and \<open>n\<close> after the last.
\<close>

fun first_or :: "key list \<Rightarrow> key option \<Rightarrow> key option" where
  "first_or [] n = n"
| "first_or (x # xs) n = Some x"

fun last_or :: "key list \<Rightarrow> key option \<Rightarrow> key option" where
  "last_or [] p = p"
| "last_or (x # xs) p = last_or xs (Some x)"

fun seg :: "(key \<rightharpoonup> 't data) \<Rightarrow> key option \<Rightarrow> key list \<Rightarrow> key option \<Rightarrow> bool" where
  "seg V p [] n = True"
| "seg V p (x # xs) n =
     (\<exists>d. V x = Some d \<and> data_prev d = p \<and> data_next d = first_or xs n \<and> seg V (Some x) xs n)"

lemma seg_append: "seg V p (xs @ ys) n \<longleftrightarrow> seg V p xs (first_or ys n) \<and> seg V (last_or xs p) ys n"
proof (induction xs arbitrary: p)
  case (Cons x xs)
  have "first_or (xs @ ys) n = first_or xs (first_or ys n)" by (cases xs) simp_all
  then show ?case using Cons by auto
qed simp

lemma seg_cong: "(\<And>x. x \<in> set xs \<Longrightarrow> V' x = V x) \<Longrightarrow> seg V' p xs n \<longleftrightarrow> seg V p xs n"
  by (induction xs arbitrary: p) auto

lemma seg_upd [simp]: "y \<notin> set xs \<Longrightarrow> seg (V(y := v)) p xs n \<longleftrightarrow> seg V p xs n"
  by (rule seg_cong) auto

lemma seg_stored: "seg V p xs n \<Longrightarrow> x \<in> set xs \<Longrightarrow> \<exists>d. V x = Some d"
  by (induction xs arbitrary: p) auto

lemma seg_set_prev:
  assumes "seg V p (y # ys) n" "V y = Some d" "y \<notin> set ys"
  shows "seg (V(y \<mapsto> d\<lparr>data_prev := q\<rparr>)) q (y # ys) n"
  using assms by simp

lemma last_or_Some: "last_or xs (Some p) = Some (if xs = [] then p else last xs)"
  by (induction xs arbitrary: p) auto

lemma last_or_None: "last_or xs None = (if xs = [] then None else Some (last xs))"
  by (cases xs) (simp_all add: last_or_Some)

lemma seg_set_next:
  assumes "seg V p xs n" "xs \<noteq> []" "V (last xs) = Some d" "distinct xs"
  shows "seg (V(last xs \<mapsto> d\<lparr>data_next := m\<rparr>)) p xs m"
proof -
  obtain ys y where xs: "xs = ys @ [y]" using assms(2) by (metis append_butlast_last_id)
  then show ?thesis using assms by (simp add: seg_append)
qed

text \<open>The data of the entries, without the links: what the operations of a stack keep.\<close>

definition contents :: "(key \<rightharpoonup> 't data) \<Rightarrow> key \<rightharpoonup> 't \<times> u64 \<times> bool" where
  "contents V k = map_option (\<lambda>d. (data_inner d, data_when d, data_expired d)) (V k)"

definition due_of :: "(key \<rightharpoonup> 't \<times> u64 \<times> bool) \<Rightarrow> key \<Rightarrow> u64" where
  "due_of c k = (case c k of Some (_, w, _) \<Rightarrow> w | None \<Rightarrow> 0)"

definition stack_loose :: "('slab, 't data) slab_ops \<Rightarrow> 'slab storage \<Rightarrow> key \<Rightarrow> bool" where
  "stack_loose SL st x \<longleftrightarrow> (\<exists>d. stored SL st x = Some d \<and> data_next d = None \<and> data_prev d = None)"

definition stack_repr ::
  "('slab, 't data) slab_ops \<Rightarrow> ('slab \<Rightarrow> bool) \<Rightarrow> 'slab storage \<Rightarrow> stack \<Rightarrow> key list \<Rightarrow> bool" where
  "stack_repr SL ok st s xs \<longleftrightarrow> storage_inv SL ok st \<and> distinct xs \<and> stack_head s = first_or xs None \<and>
     seg (stored SL st) None xs None"

lemma contents_upd:
  "V k = Some d \<Longrightarrow> data_inner e = data_inner d \<Longrightarrow> data_when e = data_when d \<Longrightarrow>
   data_expired e = data_expired d \<Longrightarrow> contents (V(k \<mapsto> e)) = contents V"
  by (auto simp: contents_def fun_eq_iff)

lemma due_of_stored: "V k = Some d \<Longrightarrow> due_of (contents V) k = data_when d"
  by (simp add: due_of_def contents_def)

lemma stack_when_stored: "stored SL st k = Some d \<Longrightarrow> stack_when SL k st = Inr (data_when d)"
  by (simp add: stack_when_def storage_index_Some)

lemma stack_frame:
  assumes "storage_inv SL ok st'" "\<And>k. k \<notin> A \<Longrightarrow> stored SL st' k = stored SL st k"
    "contents (stored SL st') = contents (stored SL st)"
  shows "frame (stack_repr SL ok) (stack_loose SL) (\<lambda>st. contents (stored SL st)) st st' A"
proof -
  have "seg (stored SL st') None ys None" if "seg (stored SL st) None ys None" "set ys \<inter> A = {}" for ys
    using that assms(2) by (subst seg_cong [of ys _ "stored SL st"]) auto
  then show ?thesis using assms by (auto simp: frame_def stack_repr_def stack_loose_def)
qed

section \<open>The operations keep the contract of the trait\<close>

text \<open>The slab of a delay queue holds linked data.\<close>

locale queue_slab = slab_contract SL slab_ok
  for SL :: "('slab, 't data) slab_ops" and slab_ok :: "'slab \<Rightarrow> bool"

context queue_slab
begin

text \<open>Writing one link, the data unchanged.\<close>

lemma write_link:
  assumes inv: "storage_inv SL slab_ok st" and k: "stored SL st k = Some d"
    and f: "data_inner (f d) = data_inner d" "data_when (f d) = data_when d"
      "data_expired (f d) = data_expired d"
  shows "\<exists>st'. storage_index_mut SL st k f = Inr st' \<and> storage_inv SL slab_ok st' \<and>
           stored SL st' = (stored SL st)(k \<mapsto> f d) \<and> contents (stored SL st') = contents (stored SL st)"
  using storage_index_mut_ok [OF inv k, of f] contents_upd [of "stored SL st" k d "f d"] k f by auto

lemma set_first_prev:
  assumes inv: "storage_inv SL slab_ok st" and seg: "seg (stored SL st) p xs None" and d: "distinct xs"
  shows "\<exists>st'. (case first_or xs None of
             Some idx \<Rightarrow> storage_index_mut SL st idx (\<lambda>d. d\<lparr>data_prev := q\<rparr>) | None \<Rightarrow> Inr st) = Inr st' \<and>
           storage_inv SL slab_ok st' \<and> seg (stored SL st') q xs None \<and>
           (\<forall>k. k \<notin> set xs \<longrightarrow> stored SL st' k = stored SL st k) \<and>
           contents (stored SL st') = contents (stored SL st)"
proof (cases xs)
  case Nil
  then show ?thesis using inv by simp
next
  case (Cons y ys)
  then obtain e where e: "stored SL st y = Some e" using seg by auto
  obtain st' where "storage_index_mut SL st y (\<lambda>d. d\<lparr>data_prev := q\<rparr>) = Inr st'"
    "storage_inv SL slab_ok st'" "stored SL st' = (stored SL st)(y \<mapsto> e\<lparr>data_prev := q\<rparr>)"
    "contents (stored SL st') = contents (stored SL st)"
    using write_link [OF inv e, of "\<lambda>d. d\<lparr>data_prev := q\<rparr>"] by auto
  then show ?thesis using Cons seg d seg_set_prev [of "stored SL st" p y ys None e q] e by auto
qed

lemma stack_push_ok:
  assumes r: "stack_repr SL slab_ok st s xs" and x: "stack_loose SL st x" "x \<notin> set xs"
  shows "\<exists>s' st'. stack_push b SL s x st = Inr (s', st') \<and> stack_repr SL slab_ok st' s' (x # xs) \<and>
           frame (stack_repr SL slab_ok) (stack_loose SL) (\<lambda>st. contents (stored SL st)) st st' (insert x (set xs))"
proof -
  have inv: "storage_inv SL slab_ok st" and dx: "distinct xs" and hd: "stack_head s = first_or xs None"
    and seg: "seg (stored SL st) None xs None" using r by (simp_all add: stack_repr_def)
  obtain d where d: "stored SL st x = Some d" "data_next d = None" "data_prev d = None"
    using x(1) by (auto simp: stack_loose_def)
  obtain st1 where s1: "(case first_or xs None of
        Some idx \<Rightarrow> storage_index_mut SL st idx (\<lambda>d. d\<lparr>data_prev := Some x\<rparr>) | None \<Rightarrow> Inr st) = Inr st1"
    "storage_inv SL slab_ok st1" "seg (stored SL st1) (Some x) xs None"
    "\<forall>k. k \<notin> set xs \<longrightarrow> stored SL st1 k = stored SL st k" "contents (stored SL st1) = contents (stored SL st)"
    using set_first_prev [OF inv seg dx] by blast
  have d1: "stored SL st1 x = Some d" using s1(4) x(2) d(1) by simp
  obtain st2 where s2: "storage_index_mut SL st1 x (\<lambda>d. d\<lparr>data_next := first_or xs None\<rparr>) = Inr st2"
    "storage_inv SL slab_ok st2" "stored SL st2 = (stored SL st1)(x \<mapsto> d\<lparr>data_next := first_or xs None\<rparr>)"
    "contents (stored SL st2) = contents (stored SL st1)"
    using write_link [OF s1(2) d1, of "\<lambda>d. d\<lparr>data_next := first_or xs None\<rparr>"] by auto
  have "stack_push b SL s x st = Inr (\<lparr>stack_head = Some x\<rparr>, st2)"
    using s1(1) s2(1) d by (simp add: stack_push_def storage_index_Some hd Let_def)
  moreover have "stack_repr SL slab_ok st2 \<lparr>stack_head = Some x\<rparr> (x # xs)"
    using s2(2,3) s1(3) x(2) dx d(3) by (simp add: stack_repr_def)
  moreover have "frame (stack_repr SL slab_ok) (stack_loose SL) (\<lambda>st. contents (stored SL st)) st st2 (insert x (set xs))"
    using s1(4,5) s2 by (intro stack_frame) auto
  ultimately show ?thesis by blast
qed

lemma stack_pop_ok:
  assumes r: "stack_repr SL slab_ok st s (x # xs)"
  shows "\<exists>s' st'. stack_pop b SL s st = Inr (Some x, s', st') \<and> stack_repr SL slab_ok st' s' xs \<and>
           stack_loose SL st' x \<and>
           frame (stack_repr SL slab_ok) (stack_loose SL) (\<lambda>st. contents (stored SL st)) st st' (set (x # xs))"
proof -
  have inv: "storage_inv SL slab_ok st" and dx: "distinct xs" "x \<notin> set xs" and hd: "stack_head s = Some x"
    using r by (simp_all add: stack_repr_def)
  obtain d where d: "stored SL st x = Some d" "data_next d = first_or xs None" "data_prev d = None"
    and seg: "seg (stored SL st) (Some x) xs None"
    using r by (auto simp: stack_repr_def)
  obtain st1 where s1: "(case first_or xs None of
        Some idx \<Rightarrow> storage_index_mut SL st idx (\<lambda>d. d\<lparr>data_prev := None\<rparr>) | None \<Rightarrow> Inr st) = Inr st1"
    "storage_inv SL slab_ok st1" "seg (stored SL st1) None xs None"
    "\<forall>k. k \<notin> set xs \<longrightarrow> stored SL st1 k = stored SL st k" "contents (stored SL st1) = contents (stored SL st)"
    using set_first_prev [OF inv seg dx(1)] by blast
  have d1: "stored SL st1 x = Some d" using s1(4) dx(2) d(1) by simp
  obtain st2 where s2: "storage_index_mut SL st1 x (\<lambda>d. d\<lparr>data_next := None\<rparr>) = Inr st2"
    "storage_inv SL slab_ok st2" "stored SL st2 = (stored SL st1)(x \<mapsto> d\<lparr>data_next := None\<rparr>)"
    "contents (stored SL st2) = contents (stored SL st1)"
    using write_link [OF s1(2) d1, of "\<lambda>d. d\<lparr>data_next := None\<rparr>"] by auto
  have "stack_pop b SL s st = Inr (Some x, \<lparr>stack_head = first_or xs None\<rparr>, st2)"
    using s1(1) s2(1) d hd by (simp add: stack_pop_def storage_index_Some s2(3) Let_def)
  moreover have "stack_repr SL slab_ok st2 \<lparr>stack_head = first_or xs None\<rparr> xs"
    using s2(2,3) s1(3) dx by (simp add: stack_repr_def)
  moreover have "stack_loose SL st2 x" using s2(3) d(3) by (simp add: stack_loose_def)
  moreover have "frame (stack_repr SL slab_ok) (stack_loose SL) (\<lambda>st. contents (stored SL st)) st st2 (set (x # xs))"
    using s1(4,5) s2 by (intro stack_frame) auto
  ultimately show ?thesis by blast
qed

text \<open>The walk visits the list once and meets the entry once.\<close>

lemma stack_walk_seg:
  assumes "seg (stored SL st) p xs None" "distinct xs" "c \<longrightarrow> x \<notin> set xs"
  shows "stack_walk SL st x (first_or xs None) c = Some (Inr (c \<or> x \<in> set xs))"
  using assms
proof (induction xs arbitrary: p c)
  case Nil
  then show ?case by (simp add: stack_walk.simps)
next
  case (Cons y ys)
  obtain d where d: "stored SL st y = Some d" "data_next d = first_or ys None" "seg (stored SL st) (Some y) ys None"
    using Cons.prems(1) by auto
  have t: "stack_walk SL st x (first_or ys None) True = Some (Inr True)" if "x \<notin> set ys"
    using Cons.IH [OF d(3), of True] Cons.prems(2) that by simp
  have f: "stack_walk SL st x (first_or ys None) c = Some (Inr (c \<or> x \<in> set ys))"
    using Cons.IH [OF d(3), of c] Cons.prems(2,3) by simp
  show ?case
    using t f Cons.prems(2,3) d(2)
    by (auto simp: stack_walk.simps [of SL st x "Some y"] storage_index_Some [OF d(1)])
qed

text \<open>Unlinking on the left: the last entry before, or the head of the stack.\<close>

lemma set_last_next:
  assumes inv: "storage_inv SL slab_ok st" and seg: "seg (stored SL st) p xs n" and d: "distinct xs"
    and ne: "xs \<noteq> []"
  shows "\<exists>st'. storage_index_mut SL st (last xs) (\<lambda>d. d\<lparr>data_next := m\<rparr>) = Inr st' \<and>
           storage_inv SL slab_ok st' \<and> seg (stored SL st') p xs m \<and>
           (\<forall>k. k \<notin> set xs \<longrightarrow> stored SL st' k = stored SL st k) \<and>
           contents (stored SL st') = contents (stored SL st)"
proof -
  obtain e where e: "stored SL st (last xs) = Some e"
    using seg_stored [OF seg last_in_set [OF ne]] by blast
  obtain st' where "storage_index_mut SL st (last xs) (\<lambda>d. d\<lparr>data_next := m\<rparr>) = Inr st'"
    "storage_inv SL slab_ok st'" "stored SL st' = (stored SL st)(last xs \<mapsto> e\<lparr>data_next := m\<rparr>)"
    "contents (stored SL st') = contents (stored SL st)"
    using write_link [OF inv e, of "\<lambda>d. d\<lparr>data_next := m\<rparr>"] by auto
  then show ?thesis using seg_set_next [OF seg ne e d] ne by auto
qed

lemma unlink_left:
  assumes inv: "storage_inv SL slab_ok st" and seg: "seg (stored SL st) None xs n" and d: "distinct xs"
  shows "\<exists>s' st'. (case last_or xs None of
             Some prev \<Rightarrow> rbind (storage_index_mut SL st prev (\<lambda>e. e\<lparr>data_next := m\<rparr>)) (\<lambda>st. Inr (s, st))
           | None \<Rightarrow> Inr (s\<lparr>stack_head := m\<rparr>, st)) = Inr (s', st') \<and>
           stack_head s' = (if xs = [] then m else stack_head s) \<and>
           storage_inv SL slab_ok st' \<and> seg (stored SL st') None xs m \<and>
           (\<forall>k. k \<notin> set xs \<longrightarrow> stored SL st' k = stored SL st k) \<and>
           contents (stored SL st') = contents (stored SL st)"
proof (cases "xs = []")
  case True
  then show ?thesis using inv by simp
next
  case False
  then show ?thesis using set_last_next [OF inv seg d False, of m] by (auto simp: last_or_None)
qed

lemma clear_links:
  assumes inv: "storage_inv SL slab_ok st" and d: "stored SL st k = Some d"
  shows "\<exists>st'. rbind (storage_index_mut SL st k (\<lambda>d. d\<lparr>data_next := None\<rparr>)) (\<lambda>st.
             storage_index_mut SL st k (\<lambda>d. d\<lparr>data_prev := None\<rparr>)) = Inr st' \<and>
           storage_inv SL slab_ok st' \<and> stack_loose SL st' k \<and>
           (\<forall>k'. k' \<noteq> k \<longrightarrow> stored SL st' k' = stored SL st k') \<and>
           contents (stored SL st') = contents (stored SL st)"
proof -
  obtain st1 where s1: "storage_index_mut SL st k (\<lambda>d. d\<lparr>data_next := None\<rparr>) = Inr st1"
    "storage_inv SL slab_ok st1" "stored SL st1 = (stored SL st)(k \<mapsto> d\<lparr>data_next := None\<rparr>)"
    "contents (stored SL st1) = contents (stored SL st)"
    using write_link [OF inv d, of "\<lambda>d. d\<lparr>data_next := None\<rparr>"] by auto
  then have "stored SL st1 k = Some (d\<lparr>data_next := None\<rparr>)" by simp
  from write_link [OF s1(2) this, of "\<lambda>d. d\<lparr>data_prev := None\<rparr>"] s1 show ?thesis
    by (auto simp: stack_loose_def)
qed

lemma remove1_split: "x \<notin> set as \<Longrightarrow> remove1 x (as @ x # bs) = as @ bs"
  by (simp add: remove1_append)

lemma stack_remove_ok:
  assumes r: "stack_repr SL slab_ok st s xs" and x: "x \<in> set xs"
  shows "\<exists>s' st'. stack_remove b SL s x st = Inr (s', st') \<and> stack_repr SL slab_ok st' s' (remove1 x xs) \<and>
           stack_loose SL st' x \<and>
           frame (stack_repr SL slab_ok) (stack_loose SL) (\<lambda>st. contents (stored SL st)) st st' (set xs)"
proof -
  obtain as bs where xs: "xs = as @ x # bs" using x by (auto dest: split_list)
  have inv: "storage_inv SL slab_ok st" and hd: "stack_head s = first_or xs None" and dx: "distinct xs"
    and sx: "seg (stored SL st) None xs None" using r by (simp_all add: stack_repr_def)
  have ds: "distinct as" "distinct bs" "x \<notin> set as" "x \<notin> set bs" "set as \<inter> set bs = {}"
    using dx by (auto simp: xs)
  obtain d where d: "stored SL st x = Some d" "data_prev d = last_or as None" "data_next d = first_or bs None"
    and sa: "seg (stored SL st) None as (Some x)" and sb: "seg (stored SL st) (Some x) bs None"
    using sx by (auto simp: xs seg_append)
  obtain st1 where s1: "(case data_next d of
        Some idx \<Rightarrow> storage_index_mut SL st idx (\<lambda>e. e\<lparr>data_prev := data_prev d\<rparr>) | None \<Rightarrow> Inr st) = Inr st1"
    "storage_inv SL slab_ok st1" "seg (stored SL st1) (data_prev d) bs None"
    "\<forall>k. k \<notin> set bs \<longrightarrow> stored SL st1 k = stored SL st k" "contents (stored SL st1) = contents (stored SL st)"
    using set_first_prev [OF inv sb ds(2), of "data_prev d", folded d(3)] by blast
  have d1: "stored SL st1 x = Some d" using s1(4) ds(4) d(1) by simp
  have sa1: "seg (stored SL st1) None as (Some x)"
    using sa s1(4) ds(5) by (subst seg_cong [of as _ "stored SL st"]) auto
  obtain s' st2 where s2: "(case data_prev d of
        Some prev \<Rightarrow> rbind (storage_index_mut SL st1 prev (\<lambda>e. e\<lparr>data_next := data_next d\<rparr>)) (\<lambda>st. Inr (s, st))
      | None \<Rightarrow> Inr (s\<lparr>stack_head := data_next d\<rparr>, st1)) = Inr (s', st2)"
    "stack_head s' = (if as = [] then data_next d else stack_head s)"
    "storage_inv SL slab_ok st2" "seg (stored SL st2) None as (data_next d)"
    "\<forall>k. k \<notin> set as \<longrightarrow> stored SL st2 k = stored SL st1 k" "contents (stored SL st2) = contents (stored SL st1)"
    using unlink_left [OF s1(2) sa1 ds(1), of "data_next d" s, folded d(2)] by blast
  have d2: "stored SL st2 x = Some d" using s2(5) ds(3) d1 by simp
  obtain st3 where s3: "rbind (storage_index_mut SL st2 x (\<lambda>d. d\<lparr>data_next := None\<rparr>)) (\<lambda>st.
        storage_index_mut SL st x (\<lambda>d. d\<lparr>data_prev := None\<rparr>)) = Inr st3"
    "storage_inv SL slab_ok st3" "stack_loose SL st3 x"
    "\<forall>k'. k' \<noteq> x \<longrightarrow> stored SL st3 k' = stored SL st2 k'" "contents (stored SL st3) = contents (stored SL st2)"
    using clear_links [OF s2(3) d2] by blast
  have walk: "stack_walk SL st x (stack_head s) False = Some (Inr True)"
    using stack_walk_seg [OF sx dx, of False x] x hd by simp
  have "storage_contains SL st x" using storage_contains_ok [OF inv] d(1) by simp
  then have "stack_remove b SL s x st = Inr (s', st3)"
    using s1(1) s2(1) s3(1)
    by (auto simp: stack_remove_def walk storage_index_Some [OF d(1)] storage_index_Some [OF d1] rbind_Inr_iff)
  moreover have "stack_repr SL slab_ok st3 s' (remove1 x xs)"
  proof -
    have "seg (stored SL st3) None (as @ bs) None"
      unfolding seg_append
    proof
      show "seg (stored SL st3) None as (first_or bs None)"
        using s2(4) s3(4) ds(3) d(3) by (subst seg_cong [of as _ "stored SL st2"]) auto
      have "stored SL st3 y = stored SL st1 y" if "y \<in> set bs" for y
        using that s3(4) s2(5) ds(4,5) by (metis disjoint_iff)
      then show "seg (stored SL st3) (last_or as None) bs None"
        using s1(3) d(2) by (subst seg_cong [of bs _ "stored SL st1"]) auto
    qed
    moreover have "stack_head s' = first_or (as @ bs) None" using s2(2) hd d(3) by (cases as) (simp_all add: xs)
    ultimately show ?thesis using s3(2) ds by (simp add: stack_repr_def xs remove1_split)
  qed
  moreover have "frame (stack_repr SL slab_ok) (stack_loose SL) (\<lambda>st. contents (stored SL st)) st st3 (set xs)"
    using s1(4,5) s2(5,6) s3 by (intro stack_frame) (auto simp: xs)
  ultimately show ?thesis using s3(3) by blast
qed

text \<open>The linked list keeps the contract, so all that was proved of the wheel holds of the queue's wheel.\<close>

lemma queue_stack_contract:
  "stack_contract (queue_stack b SL) (stack_repr SL slab_ok) (stack_loose SL)
     (\<lambda>st. contents (stored SL st)) due_of (storage_inv SL slab_ok)"
proof unfold_locales
  fix st :: "'slab storage" and s x xs
  show "stack_repr SL slab_ok st s xs \<Longrightarrow> storage_inv SL slab_ok st" by (simp add: stack_repr_def)
  show "storage_inv SL slab_ok st \<Longrightarrow> stack_repr SL slab_ok st (stk_default (queue_stack b SL)) []"
    by (simp add: stack_repr_def stack_default_def)
  show "stack_repr SL slab_ok st s xs \<Longrightarrow> stk_is_empty (queue_stack b SL) s \<longleftrightarrow> xs = []"
    by (cases xs) (simp_all add: stack_repr_def stack_is_empty_def)
  show "stack_repr SL slab_ok st s xs \<Longrightarrow> distinct xs" by (simp add: stack_repr_def)
  show "stack_repr SL slab_ok st s xs \<Longrightarrow> x \<in> set xs \<Longrightarrow>
      stk_when (queue_stack b SL) x st = Inr (due_of (contents (stored SL st)) x)"
    using seg_stored [of "stored SL st" None xs None x]
    by (auto simp: stack_repr_def stack_when_stored due_of_stored)
  show "stack_loose SL st x \<Longrightarrow> stk_when (queue_stack b SL) x st = Inr (due_of (contents (stored SL st)) x)"
    by (auto simp: stack_loose_def stack_when_stored due_of_stored)
  show "stack_repr SL slab_ok st s [] \<Longrightarrow> stk_pop (queue_stack b SL) s st = Inr (None, s, st)"
    by (simp add: stack_repr_def stack_pop_def)
qed (simp_all add: stack_push_ok stack_pop_ok stack_remove_ok del: set_simps)

end

sublocale queue_slab \<subseteq> stk: stack_contract "queue_stack b SL" "stack_repr SL slab_ok" "stack_loose SL"
  "\<lambda>st. contents (stored SL st)" due_of "storage_inv SL slab_ok" for b
  by (rule queue_stack_contract)

interpretation vec_queue: queue_slab vec_slab vec_ok
  by (simp add: queue_slab_def vec.slab_contract_axioms)

end
