(* ===== verification/Time.thy ===== *)
theory Time
  imports Prelude
begin

text \<open>
  Durations and instants (\<open>instant.rs\<close>) and their conversion to milliseconds
  (\<open>ms\<close> of \<open>lib.rs\<close>). A \<open>std::time::Duration\<close> is its number of nanoseconds,
  below \<open>2^64\<close> seconds; a \<open>std::time::Instant\<close> is the duration since the epoch of the
  monotonic clock, as on the WASI target. Reading the clock is an argument of the
  definitions that do it. An operator that overflows panics; its checked form returns
  \<open>None\<close>. Subtracting a later instant saturates at zero, as the standard library
  documents.
\<close>

datatype duration = Duration (nanos: nat)

datatype instant = Instant (std: duration)

datatype round = Up | Down

definition NANOS_PER_SEC :: nat where
  "NANOS_PER_SEC = 1000000000"

definition duration_bound :: nat where
  "duration_bound = 2 ^ 64 * NANOS_PER_SEC"

definition as_secs :: "duration \<Rightarrow> u64" where
  "as_secs d = of_nat (nanos d div NANOS_PER_SEC)"

definition subsec_nanos :: "duration \<Rightarrow> u32" where
  "subsec_nanos d = of_nat (nanos d mod NANOS_PER_SEC)"

definition subsec_millis :: "duration \<Rightarrow> u32" where
  "subsec_millis d = subsec_nanos d div 1000000"

definition from_millis :: "u64 \<Rightarrow> duration" where
  "from_millis m = Duration (unat m * 1000000)"

definition from_secs :: "u64 \<Rightarrow> duration" where
  "from_secs s = Duration (unat s * NANOS_PER_SEC)"

definition duration_checked_add :: "duration \<Rightarrow> duration \<Rightarrow> duration option" where
  "duration_checked_add a b =
     (if nanos a + nanos b < duration_bound then Some (Duration (nanos a + nanos b)) else None)"

definition duration_checked_sub :: "duration \<Rightarrow> duration \<Rightarrow> duration option" where
  "duration_checked_sub a b = (if nanos b \<le> nanos a then Some (Duration (nanos a - nanos b)) else None)"

definition u64_saturating_mul :: "u64 \<Rightarrow> u64 \<Rightarrow> u64" where
  "u64_saturating_mul x y = (if unat x * unat y < 2 ^ 64 then x * y else - 1)"

definition u64_saturating_add :: "u64 \<Rightarrow> u64 \<Rightarrow> u64" where
  "u64_saturating_add x y = (if unat x + unat y < 2 ^ 64 then x + y else - 1)"

text \<open>The derived order of \<open>Duration\<close> and of \<open>Instant\<close>.\<close>

instantiation duration :: linorder
begin

definition less_eq_duration :: "duration \<Rightarrow> duration \<Rightarrow> bool" where
  "less_eq_duration a b \<longleftrightarrow> nanos a \<le> nanos b"

definition less_duration :: "duration \<Rightarrow> duration \<Rightarrow> bool" where
  "less_duration a b \<longleftrightarrow> nanos a < nanos b"

instance
  by standard (auto simp: less_eq_duration_def less_duration_def duration.expand)

end

instantiation instant :: linorder
begin

definition less_eq_instant :: "instant \<Rightarrow> instant \<Rightarrow> bool" where
  "less_eq_instant a b \<longleftrightarrow> std a \<le> std b"

definition less_instant :: "instant \<Rightarrow> instant \<Rightarrow> bool" where
  "less_instant a b \<longleftrightarrow> std a < std b"

instance
  by standard (auto simp: less_eq_instant_def less_instant_def instant.expand)

end

section \<open>Instants\<close>

definition from_std :: "duration \<Rightarrow> instant" where
  "from_std t = Instant t"

definition into_std :: "instant \<Rightarrow> duration" where
  "into_std i = std i"

definition instant_add :: "instant \<Rightarrow> duration \<Rightarrow> instant res" where
  "instant_add i d =
     (case duration_checked_add (std i) d of
        Some t \<Rightarrow> Inr (from_std t)
      | None \<Rightarrow> Inl Time_Overflow)"

definition instant_sub_duration :: "instant \<Rightarrow> duration \<Rightarrow> instant res" where
  "instant_sub_duration i d =
     (case duration_checked_sub (std i) d of
        Some t \<Rightarrow> Inr (from_std t)
      | None \<Rightarrow> Inl Time_Overflow)"

definition far_future :: "instant \<Rightarrow> instant res" where
  "far_future now = instant_add now (from_secs (86400 * 365 * 30))"

definition checked_duration_since :: "instant \<Rightarrow> instant \<Rightarrow> duration option" where
  "checked_duration_since self earlier = duration_checked_sub (std self) (std earlier)"

definition saturating_duration_since :: "instant \<Rightarrow> instant \<Rightarrow> duration" where
  "saturating_duration_since self earlier =
     (case checked_duration_since self earlier of Some d \<Rightarrow> d | None \<Rightarrow> Duration 0)"

definition duration_since :: "instant \<Rightarrow> instant \<Rightarrow> duration" where
  "duration_since self earlier = saturating_duration_since self earlier"

definition instant_sub :: "instant \<Rightarrow> instant \<Rightarrow> duration" where
  "instant_sub a b = duration_since a b"

definition elapsed_since :: "instant \<Rightarrow> instant \<Rightarrow> duration" where
  "elapsed_since now self = instant_sub now self"

definition checked_add :: "instant \<Rightarrow> duration \<Rightarrow> instant option" where
  "checked_add self d = map_option from_std (duration_checked_add (std self) d)"

definition checked_sub :: "instant \<Rightarrow> duration \<Rightarrow> instant option" where
  "checked_sub self d = map_option from_std (duration_checked_sub (std self) d)"

definition add_assign :: "instant \<Rightarrow> duration \<Rightarrow> instant res" where
  "add_assign self rhs = instant_add self rhs"

definition sub_assign :: "instant \<Rightarrow> duration \<Rightarrow> instant res" where
  "sub_assign self rhs = instant_sub_duration self rhs"

section \<open>Milliseconds\<close>

definition ms :: "duration \<Rightarrow> round \<Rightarrow> u64" where
  "ms d r =
     (let NANOS_PER_MILLI = 1000000 :: u32;
          MILLIS_PER_SEC = 1000 :: u64;
          millis = (case r of
              Up \<Rightarrow> (subsec_nanos d + NANOS_PER_MILLI - 1) div NANOS_PER_MILLI
            | Down \<Rightarrow> subsec_millis d)
      in u64_saturating_add (u64_saturating_mul (as_secs d) MILLIS_PER_SEC) (ucast millis))"

text \<open>The exact value: the nanoseconds divided by a million, rounded up or down, at most \<open>u64::MAX\<close>.\<close>

definition ms_exact :: "nat \<Rightarrow> round \<Rightarrow> nat" where
  "ms_exact n r = (case r of Up \<Rightarrow> (n + 999999) div 1000000 | Down \<Rightarrow> n div 1000000)"

lemma unat_u64_max: "unat (- 1 :: u64) = 2 ^ 64 - 1"
  by (simp add: unsigned_minus_1_eq_mask mask_eq_exp_minus_1)

lemma unat_u64_saturating_mul: "unat (u64_saturating_mul x y) = min (2 ^ 64 - 1) (unat x * unat y)"
  by (auto simp: u64_saturating_mul_def unat_word_ariths unat_u64_max)

lemma unat_u64_saturating_add: "unat (u64_saturating_add x y) = min (2 ^ 64 - 1) (unat x + unat y)"
  by (auto simp: u64_saturating_add_def unat_word_ariths unat_u64_max)

lemma unat_as_secs: "nanos d < duration_bound \<Longrightarrow> unat (as_secs d) = nanos d div NANOS_PER_SEC"
  by (simp add: as_secs_def duration_bound_def NANOS_PER_SEC_def unat_of_nat less_mult_imp_div_less)

lemma unat_subsec_nanos: "unat (subsec_nanos d) = nanos d mod NANOS_PER_SEC"
proof -
  have "nanos d mod NANOS_PER_SEC < 2 ^ 32"
    by (rule less_trans [of _ NANOS_PER_SEC]) (simp_all add: NANOS_PER_SEC_def)
  then show ?thesis by (simp add: subsec_nanos_def unat_of_nat)
qed

lemma unat_millis:
  "unat (case r of Up \<Rightarrow> (subsec_nanos d + 1000000 - 1) div 1000000 | Down \<Rightarrow> subsec_millis d) =
     ms_exact (nanos d mod NANOS_PER_SEC) r"
proof -
  have lt: "nanos d mod NANOS_PER_SEC < 1000000000" by (simp add: NANOS_PER_SEC_def)
  have "unat (999999 + subsec_nanos d) = nanos d mod NANOS_PER_SEC + 999999"
    using lt by (simp add: unat_word_ariths unat_subsec_nanos)
  then show ?thesis
    by (cases r) (simp_all add: ms_exact_def subsec_millis_def unat_div unat_subsec_nanos)
qed

lemma ms_exact_split: "n div NANOS_PER_SEC * 1000 + ms_exact (n mod NANOS_PER_SEC) r = ms_exact n r"
proof -
  have n: "n = n div NANOS_PER_SEC * 1000 * 1000000 + n mod NANOS_PER_SEC"
    by (simp add: NANOS_PER_SEC_def)
  show ?thesis
  proof (cases r)
    case Up
    have "(n + 999999) div 1000000 = (n div NANOS_PER_SEC * 1000 * 1000000 + (n mod NANOS_PER_SEC + 999999)) div 1000000"
      using n by simp
    then show ?thesis using Up by (simp add: ms_exact_def)
  next
    case Down
    have "n div 1000000 = (n div NANOS_PER_SEC * 1000 * 1000000 + n mod NANOS_PER_SEC) div 1000000"
      using n by simp
    then show ?thesis using Down by (simp add: ms_exact_def)
  qed
qed

lemma unat_ms:
  assumes "nanos d < duration_bound"
  shows "unat (ms d r) = min (2 ^ 64 - 1) (ms_exact (nanos d) r)"
proof -
  let ?m = "ms_exact (nanos d mod NANOS_PER_SEC) r"
  have "unat (ms d r) = min (2 ^ 64 - 1) (min (2 ^ 64 - 1) (nanos d div NANOS_PER_SEC * 1000) + ?m)"
    unfolding ms_def Let_def unat_u64_saturating_add unat_u64_saturating_mul
    by (simp add: unat_as_secs [OF assms] unat_millis [symmetric] unsigned_ucast_eq take_bit_eq_mod
        less_trans [OF unsigned_less])
  also have "\<dots> = min (2 ^ 64 - 1) (nanos d div NANOS_PER_SEC * 1000 + ?m)" by (simp add: min_def)
  finally show ?thesis by (simp only: ms_exact_split)
qed

lemma from_millis_bound: "nanos (from_millis m) < duration_bound"
  using unat_u64_less [of m] by (simp add: from_millis_def duration_bound_def NANOS_PER_SEC_def)

lemma ms_from_millis: "ms (from_millis m) r = m"
proof -
  have "unat (ms (from_millis m) r) = unat m"
    using unat_u64_less [of m] unfolding unat_ms [OF from_millis_bound]
    by (cases r) (simp_all add: ms_exact_def from_millis_def)
  then show ?thesis by (simp add: word_unat_eq_iff)
qed

end
