(* ===== verification/Sleep.thy ===== *)
theory Sleep
  imports Time
begin

text \<open>
  The sleep future (\<open>sleep.rs\<close>) over the delays of the host (\<open>delay.rs\<close>). What the
  code asks of its surroundings is an environment: the readings of the monotonic clock, and
  whether the host has woken a registered delay when it is polled. A world counts the
  readings and polls made and collects the wakers that were woken. \<open>env_ok\<close> is the
  documented behaviour of the surroundings: the clock never goes back and has not run for
  292 billion years (the second half of the range of \<open>Duration\<close>), and the host does not wake a
  delay before its milliseconds have passed.
\<close>

datatype 'a poll = Ready 'a | Pending

type_synonym waker = nat

text \<open>
  What drives a sleep: a delay registered with the host at an instant, for a number of
  milliseconds, or a future that is ready at once, and whether it was polled.
\<close>

datatype entry =
    Registered instant u64
  | Immediate bool

record sleep =
  sl_deadline :: instant
  sl_entry :: entry

record env =
  env_clock :: "nat \<Rightarrow> instant"
  env_woken :: "nat \<Rightarrow> entry \<Rightarrow> bool"

record world =
  wd_tick :: nat
  wd_wakes :: "waker list"

definition valid_instant :: "instant \<Rightarrow> bool" where
  "valid_instant i \<longleftrightarrow> nanos (std i) < duration_bound"

definition env_ok :: "env \<Rightarrow> bool" where
  "env_ok E \<longleftrightarrow> mono (env_clock E) \<and>
     (\<forall>n. nanos (std (env_clock E n)) < 2 ^ 63 * NANOS_PER_SEC) \<and>
     (\<forall>n i m. env_woken E n (Registered i m) \<longrightarrow>
        nanos (std i) + unat m * 1000000 \<le> nanos (std (env_clock E n)))"

text \<open>\<open>Instant::now()\<close>, and the waking of a task.\<close>

definition instant_now :: "env \<Rightarrow> world \<Rightarrow> instant \<times> world" where
  "instant_now E w = (env_clock E (wd_tick w), w\<lparr>wd_tick := Suc (wd_tick w)\<rparr>)"

definition wake :: "waker \<Rightarrow> world \<Rightarrow> world" where
  "wake k w = w\<lparr>wd_wakes := wd_wakes w @ [k]\<rparr>"

text \<open>\<open>del.as_millis() as u64\<close>: rounded down, and truncated to 64 bits.\<close>

definition as_millis_u64 :: "duration \<Rightarrow> u64" where
  "as_millis_u64 d = of_nat (nanos d div 1000000)"

definition register_delay :: "instant \<Rightarrow> duration \<Rightarrow> entry" where
  "register_delay now del = (let millis = as_millis_u64 del in Registered now millis)"

definition new_timeout :: "env \<Rightarrow> instant \<Rightarrow> world \<Rightarrow> sleep \<times> world" where
  "new_timeout E deadline w =
     (let (now, w) = instant_now E w in
      case checked_duration_since deadline now of
        Some dur \<Rightarrow> (\<lparr>sl_deadline = deadline, sl_entry = register_delay now dur\<rparr>, w)
      | None \<Rightarrow> (\<lparr>sl_deadline = deadline, sl_entry = Immediate False\<rparr>, w))"

definition sleep_until :: "env \<Rightarrow> instant \<Rightarrow> world \<Rightarrow> sleep \<times> world" where
  "sleep_until E deadline w = new_timeout E deadline w"

definition sleep_for :: "env \<Rightarrow> duration \<Rightarrow> world \<Rightarrow> (sleep \<times> world) res" where
  "sleep_for E duration w =
     (let (now, w) = instant_now E w in
      case checked_add now duration of
        Some deadline \<Rightarrow> Inr (new_timeout E deadline w)
      | None \<Rightarrow>
          (let (now, w) = instant_now E w in
           rbind (far_future now) (\<lambda>deadline. Inr (new_timeout E deadline w))))"

definition sleep_far_future :: "env \<Rightarrow> world \<Rightarrow> (sleep \<times> world) res" where
  "sleep_far_future E w =
     (let (now, w) = instant_now E w in
      rbind (far_future now) (\<lambda>deadline. Inr (new_timeout E deadline w)))"

definition sleep_deadline :: "sleep \<Rightarrow> instant" where
  "sleep_deadline self = sl_deadline self"

definition is_elapsed :: "env \<Rightarrow> sleep \<Rightarrow> world \<Rightarrow> bool \<times> world" where
  "is_elapsed E self w =
     (let (now, w) = instant_now E w in
      (checked_duration_since (sl_deadline self) now = None, w))"

definition sleep_reset :: "env \<Rightarrow> sleep \<Rightarrow> instant \<Rightarrow> world \<Rightarrow> sleep \<times> world" where
  "sleep_reset E self deadline w = new_timeout E deadline w"

text \<open>
  Polling the entry. A registered delay is ready once the host has woken it;
  \<open>std::future::ready\<close> is ready once and panics when it is polled again.
\<close>

definition sleep_poll :: "env \<Rightarrow> sleep \<Rightarrow> world \<Rightarrow> (unit poll \<times> sleep \<times> world) res" where
  "sleep_poll E self w =
     (case sl_entry self of
        Registered i m \<Rightarrow>
          Inr (if env_woken E (wd_tick w) (sl_entry self) then Ready () else Pending,
               self, w\<lparr>wd_tick := Suc (wd_tick w)\<rparr>)
      | Immediate taken \<Rightarrow>
          if taken then Inl Expect_Failed
          else Inr (Ready (), self\<lparr>sl_entry := Immediate True\<rparr>, w))"

section \<open>What a sleep promises\<close>

text \<open>How a sleep came to be: for its deadline at a reading of the clock.\<close>

definition sleep_ok :: "env \<Rightarrow> world \<Rightarrow> sleep \<Rightarrow> bool" where
  "sleep_ok E w s \<longleftrightarrow>
     (case sl_entry s of
        Registered i m \<Rightarrow> i \<le> sl_deadline s \<and> i \<le> env_clock E (wd_tick w) \<and>
          m = as_millis_u64 (Duration (nanos (std (sl_deadline s)) - nanos (std i)))
      | Immediate taken \<Rightarrow> \<not> taken \<and> sl_deadline s < env_clock E (wd_tick w))"

lemma env_ok_mono: "env_ok E \<Longrightarrow> m \<le> n \<Longrightarrow> env_clock E m \<le> env_clock E n"
  by (simp add: env_ok_def mono_def)

lemma env_ok_valid: "env_ok E \<Longrightarrow> valid_instant (env_clock E n)"
  unfolding env_ok_def valid_instant_def duration_bound_def NANOS_PER_SEC_def
  by (auto intro: less_trans)

lemma instant_le_nat: "i \<le> j \<longleftrightarrow> nanos (std i) \<le> nanos (std j)"
  by (simp add: less_eq_instant_def less_eq_duration_def)

lemma instant_less_nat: "i < j \<longleftrightarrow> nanos (std i) < nanos (std j)"
  by (simp add: less_instant_def less_duration_def)

lemma checked_duration_since_iff:
  "checked_duration_since d now =
     (if now \<le> d then Some (Duration (nanos (std d) - nanos (std now))) else None)"
  by (simp add: checked_duration_since_def duration_checked_sub_def instant_le_nat)

lemma new_timeout_simps [simp]:
  "sl_deadline (fst (new_timeout E d w)) = d"
  "snd (new_timeout E d w) = w\<lparr>wd_tick := Suc (wd_tick w)\<rparr>"
  by (simp_all add: new_timeout_def instant_now_def split: option.splits)

lemma new_timeout_ok:
  assumes "env_ok E"
  shows "sleep_ok E (snd (new_timeout E d w)) (fst (new_timeout E d w))"
  using env_ok_mono [OF assms, of "wd_tick w" "Suc (wd_tick w)"]
  by (auto simp: new_timeout_def instant_now_def sleep_ok_def checked_duration_since_iff register_delay_def
      Let_def not_le)

lemma sleep_ok_later:
  "env_ok E \<Longrightarrow> sleep_ok E w s \<Longrightarrow> wd_tick w \<le> wd_tick w' \<Longrightarrow> sleep_ok E w' s"
  using env_ok_mono [of E "wd_tick w" "wd_tick w'"]
  by (auto simp: sleep_ok_def split: entry.splits)

lemma unat_as_millis:
  assumes "nanos d div 1000000 < 2 ^ 64"
  shows "unat (as_millis_u64 d) = nanos d div 1000000"
  using assms by (simp add: as_millis_u64_def unat_of_nat)

text \<open>
  A sleep that is ready did not wait for less than its time rounded down to milliseconds: it
  ends less than one millisecond before its deadline, or later.
\<close>

lemma sleep_poll_ready:
  assumes E: "env_ok E" and s: "sleep_ok E w s" and r: "sleep_poll E s w = Inr (Ready u, s', w')"
    and small: "\<And>i m. sl_entry s = Registered i m \<Longrightarrow>
      (nanos (std (sl_deadline s)) - nanos (std i)) div 1000000 < 2 ^ 64"
  shows "nanos (std (sl_deadline s)) < nanos (std (env_clock E (wd_tick w))) + 1000000"
proof (cases "sl_entry s")
  case (Registered i m)
  let ?d = "nanos (std (sl_deadline s)) - nanos (std i)"
  have "env_woken E (wd_tick w) (Registered i m)" using r Registered by (simp add: sleep_poll_def split: if_splits)
  then have f: "nanos (std i) + unat m * 1000000 \<le> nanos (std (env_clock E (wd_tick w)))"
    using E by (simp add: env_ok_def)
  have i: "nanos (std i) \<le> nanos (std (sl_deadline s))" and m: "m = as_millis_u64 (Duration ?d)"
    using s Registered by (simp_all add: sleep_ok_def instant_le_nat)
  have "unat m = ?d div 1000000" unfolding m by (subst unat_as_millis) (use small [OF Registered] in simp_all)
  moreover have "?d < ?d div 1000000 * 1000000 + 1000000" using div_mult_mod_eq [of ?d 1000000] mod_less_divisor [of 1000000 ?d] by linarith
  ultimately show ?thesis using f i by simp
next
  case (Immediate t)
  then show ?thesis using s by (simp add: sleep_ok_def instant_less_nat)
qed

end
