(* ===== verification/Delay_Queue.thy ===== *)
theory Delay_Queue
  imports Queue_Stack Sleep
begin

text \<open>
  The delay queue (\<open>delay_queue.rs\<close>): the storage, the timer wheel, the stack of entries
  that were due when they were inserted, and the sleep until the next entry. Every public
  operation is a definition over the state of the queue and the world, composed as in the
  code.
\<close>

record 'slab delay_queue =
  dq_slab :: "'slab storage"
  dq_wheel :: "stack wheel"
  dq_expired :: stack
  dq_delay :: "sleep option"
  dq_wheel_now :: u64
  dq_start :: instant
  dq_waker :: "waker option"

record 't expired =
  exp_data :: 't
  exp_deadline :: instant
  exp_key :: key

definition dq_with_capacity ::
  "build \<Rightarrow> ('slab, 't data) slab_ops \<Rightarrow> env \<Rightarrow> usize \<Rightarrow> world \<Rightarrow> 'slab delay_queue \<times> world" where
  "dq_with_capacity b SL E capacity w =
     (let (now, w) = instant_now E w in
      (\<lparr>dq_slab = storage_with_capacity SL capacity, dq_wheel = wheel_new (queue_stack b SL),
        dq_expired = stack_default, dq_delay = None, dq_wheel_now = 0, dq_start = now,
        dq_waker = None\<rparr>, w))"

definition dq_new ::
  "build \<Rightarrow> ('slab, 't data) slab_ops \<Rightarrow> env \<Rightarrow> world \<Rightarrow> 'slab delay_queue \<times> world" where
  "dq_new b SL E w = dq_with_capacity b SL E 0 w"

definition normalize_deadline :: "'slab delay_queue \<Rightarrow> instant \<Rightarrow> u64" where
  "normalize_deadline Q when =
     (let when = (if when < dq_start Q then 0 else ms (instant_sub when (dq_start Q)) Up)
      in max when (wh_elapsed (dq_wheel Q)))"

text \<open>\<open>self.start + Duration::from_millis(t)\<close>, which panics when the sum overflows.\<close>

definition instant_of :: "'slab delay_queue \<Rightarrow> u64 \<Rightarrow> instant res" where
  "instant_of Q t = instant_add (dq_start Q) (from_millis t)"

definition next_deadline :: "build \<Rightarrow> 'slab delay_queue \<Rightarrow> instant option res" where
  "next_deadline b Q =
     rbind (poll_at b (dq_wheel Q)) (\<lambda>p.
     case p of
       None \<Rightarrow> Inr None
     | Some t \<Rightarrow> rbind (instant_of Q t) (\<lambda>i. Inr (Some i)))"

definition insert_idx ::
  "build \<Rightarrow> ('slab, 't data) slab_ops \<Rightarrow> u64 \<Rightarrow> key \<Rightarrow> 'slab delay_queue \<Rightarrow> 'slab delay_queue res" where
  "insert_idx b SL when key Q =
     rbind (wheel_insert b (queue_stack b SL) (dq_wheel Q) when key (dq_slab Q)) (\<lambda>(r, W, S).
     let Q = Q\<lparr>dq_wheel := W, dq_slab := S\<rparr> in
     case r of
       Inr _ \<Rightarrow> Inr Q
     | Inl (_, Elapsed) \<Rightarrow>
         rbind (storage_index_mut SL (dq_slab Q) key (\<lambda>d. d\<lparr>data_expired := True\<rparr>)) (\<lambda>S.
         rbind (stack_push b SL (dq_expired Q) key S) (\<lambda>(x, S).
         Inr (Q\<lparr>dq_expired := x, dq_slab := S\<rparr>)))
     | Inl (_, Invalid) \<Rightarrow> Inl Invalid_Deadline)"

text \<open>Setting the delay: a new one is allocated or the present one is reset.\<close>

definition set_delay :: "env \<Rightarrow> instant \<Rightarrow> 'slab delay_queue \<Rightarrow> world \<Rightarrow> 'slab delay_queue \<times> world" where
  "set_delay E deadline Q w =
     (case dq_delay Q of
        Some delay \<Rightarrow> (let (s, w) = sleep_reset E delay deadline w in (Q\<lparr>dq_delay := Some s\<rparr>, w))
      | None \<Rightarrow> (let (s, w) = sleep_until E deadline w in (Q\<lparr>dq_delay := Some s\<rparr>, w)))"

text \<open>The end of \<open>insert_at\<close>: a new delay if the present one is later than the new item.\<close>

definition advance_delay :: "env \<Rightarrow> u64 \<Rightarrow> 'slab delay_queue \<Rightarrow> world \<Rightarrow> ('slab delay_queue \<times> world) res" where
  "advance_delay E when Q w =
     (let should_set_delay =
            (case dq_delay Q of
               Some delay \<Rightarrow>
                 let current_exp = normalize_deadline Q (sleep_deadline delay) in when < current_exp
             | None \<Rightarrow> True)
      in
      if should_set_delay then
        let (Q, w) = (case dq_waker Q of
                        Some waker \<Rightarrow> (Q\<lparr>dq_waker := None\<rparr>, wake waker w)
                      | None \<Rightarrow> (Q, w)) in
        rbind (instant_of Q when) (\<lambda>delay_time. Inr (set_delay E delay_time Q w))
      else Inr (Q, w))"

definition insert_at ::
  "build \<Rightarrow> ('slab, 't data) slab_ops \<Rightarrow> env \<Rightarrow> 't \<Rightarrow> instant \<Rightarrow> 'slab delay_queue \<Rightarrow> world \<Rightarrow>
   (key \<times> 'slab delay_queue \<times> world) res" where
  "insert_at b SL E value when Q w =
     rbind (check (storage_len SL (dq_slab Q) < MAX_ENTRIES) Max_Entries_Exceeded) (\<lambda>_.
     let when = normalize_deadline Q when in
     rbind (storage_insert SL (dq_slab Q)
              \<lparr>data_inner = value, data_when = when, data_expired = False, data_next = None, data_prev = None\<rparr>)
       (\<lambda>(key, S).
     rbind (insert_idx b SL when key (Q\<lparr>dq_slab := S\<rparr>)) (\<lambda>Q.
     rbind (advance_delay E when Q w) (\<lambda>(Q, w).
     Inr (key, Q, w)))))"

definition dq_insert ::
  "build \<Rightarrow> ('slab, 't data) slab_ops \<Rightarrow> env \<Rightarrow> 't \<Rightarrow> duration \<Rightarrow> 'slab delay_queue \<Rightarrow> world \<Rightarrow>
   (key \<times> 'slab delay_queue \<times> world) res" where
  "dq_insert b SL E value timeout Q w =
     (let (now, w) = instant_now E w in
      rbind (instant_add now timeout) (\<lambda>when. insert_at b SL E value when Q w))"

definition remove_key ::
  "build \<Rightarrow> ('slab, 't data) slab_ops \<Rightarrow> key \<Rightarrow> 'slab delay_queue \<Rightarrow> 'slab delay_queue res" where
  "remove_key b SL key Q =
     rbind (storage_index SL (dq_slab Q) key) (\<lambda>d.
     if data_expired d then
       rbind (stack_remove b SL (dq_expired Q) key (dq_slab Q)) (\<lambda>(x, S).
       Inr (Q\<lparr>dq_expired := x, dq_slab := S\<rparr>))
     else
       rbind (wheel_remove b (queue_stack b SL) (dq_wheel Q) key (dq_slab Q)) (\<lambda>(W, S).
       Inr (Q\<lparr>dq_wheel := W, dq_slab := S\<rparr>)))"

text \<open>The delay after a removal and after a reset.\<close>

definition change_delay ::
  "env \<Rightarrow> instant option \<Rightarrow> instant option \<Rightarrow> 'slab delay_queue \<Rightarrow> world \<Rightarrow> 'slab delay_queue \<times> world" where
  "change_delay E prev_deadline nxt Q w =
     (if prev_deadline \<noteq> nxt then
        (case nxt of
           None \<Rightarrow> (Q\<lparr>dq_delay := None\<rparr>, w)
         | Some deadline \<Rightarrow> set_delay E deadline Q w)
      else (Q, w))"

definition repeat_delay ::
  "env \<Rightarrow> instant option \<Rightarrow> 'slab delay_queue \<Rightarrow> world \<Rightarrow> 'slab delay_queue \<times> world" where
  "repeat_delay E nxt Q w =
     (case (dq_delay Q, nxt) of
        (Some delay, Some deadline) \<Rightarrow> set_delay E deadline Q w
      | _ \<Rightarrow> (Q, w))"

definition dq_remove ::
  "build \<Rightarrow> ('slab, 't data) slab_ops \<Rightarrow> env \<Rightarrow> key \<Rightarrow> 'slab delay_queue \<Rightarrow> world \<Rightarrow>
   ('t expired \<times> 'slab delay_queue \<times> world) res" where
  "dq_remove b SL E key Q w =
     rbind (next_deadline b Q) (\<lambda>prev_deadline.
     rbind (remove_key b SL key Q) (\<lambda>Q.
     rbind (storage_remove SL (dq_slab Q) key) (\<lambda>(data, S).
     let Q = Q\<lparr>dq_slab := S\<rparr> in
     rbind (next_deadline b Q) (\<lambda>next.
     let (Q, w) = change_delay E prev_deadline next Q w in
     rbind (instant_of Q (data_when data)) (\<lambda>deadline.
     Inr (\<lparr>exp_data = data_inner data, exp_deadline = deadline, exp_key = Key (key_index key)\<rparr>, Q, w))))))"

definition reset_at ::
  "build \<Rightarrow> ('slab, 't data) slab_ops \<Rightarrow> env \<Rightarrow> key \<Rightarrow> instant \<Rightarrow> 'slab delay_queue \<Rightarrow> world \<Rightarrow>
   ('slab delay_queue \<times> world) res" where
  "reset_at b SL E key when Q w =
     rbind (remove_key b SL key Q) (\<lambda>Q.
     let when = normalize_deadline Q when in
     rbind (storage_index_mut SL (dq_slab Q) key (\<lambda>d. d\<lparr>data_when := when\<rparr>)) (\<lambda>S.
     rbind (storage_index_mut SL S key (\<lambda>d. d\<lparr>data_expired := False\<rparr>)) (\<lambda>S.
     rbind (insert_idx b SL when key (Q\<lparr>dq_slab := S\<rparr>)) (\<lambda>Q.
     rbind (next_deadline b Q) (\<lambda>next.
     Inr (repeat_delay E next Q w))))))"

definition dq_reset ::
  "build \<Rightarrow> ('slab, 't data) slab_ops \<Rightarrow> env \<Rightarrow> key \<Rightarrow> duration \<Rightarrow> 'slab delay_queue \<Rightarrow> world \<Rightarrow>
   ('slab delay_queue \<times> world) res" where
  "dq_reset b SL E key timeout Q w =
     (let (now, w) = instant_now E w in
      rbind (instant_add now timeout) (\<lambda>when. reset_at b SL E key when Q w))"

definition dq_shrink_to_fit :: "('slab, 't data) slab_ops \<Rightarrow> 'slab delay_queue \<Rightarrow> 'slab delay_queue" where
  "dq_shrink_to_fit SL Q = Q\<lparr>dq_slab := storage_shrink_to_fit SL (dq_slab Q)\<rparr>"

definition dq_compact :: "('slab, 't data) slab_ops \<Rightarrow> 'slab delay_queue \<Rightarrow> 'slab delay_queue" where
  "dq_compact SL Q = Q\<lparr>dq_slab := storage_compact SL (dq_slab Q)\<rparr>"

definition dq_clear :: "build \<Rightarrow> ('slab, 't data) slab_ops \<Rightarrow> 'slab delay_queue \<Rightarrow> 'slab delay_queue" where
  "dq_clear b SL Q =
     Q\<lparr>dq_slab := storage_clear SL (dq_slab Q), dq_expired := stack_default,
       dq_wheel := wheel_new (queue_stack b SL), dq_delay := None\<rparr>"

definition dq_capacity :: "('slab, 't data) slab_ops \<Rightarrow> 'slab delay_queue \<Rightarrow> usize" where
  "dq_capacity SL Q = storage_capacity SL (dq_slab Q)"

definition dq_len :: "('slab, 't data) slab_ops \<Rightarrow> 'slab delay_queue \<Rightarrow> usize" where
  "dq_len SL Q = storage_len SL (dq_slab Q)"

definition dq_reserve :: "('slab, 't data) slab_ops \<Rightarrow> (nat \<Rightarrow> usize \<Rightarrow> bool) \<Rightarrow> usize \<Rightarrow> 'slab delay_queue \<Rightarrow> 'slab delay_queue res" where
  "dq_reserve SL map_reserve additional Q =
     rbind (storage_reserve SL map_reserve (dq_slab Q) additional) (\<lambda>S. Inr (Q\<lparr>dq_slab := S\<rparr>))"

definition dq_is_empty :: "('slab, 't data) slab_ops \<Rightarrow> 'slab delay_queue \<Rightarrow> bool" where
  "dq_is_empty SL Q = storage_is_empty SL (dq_slab Q)"

text \<open>
  The first half of the loop of \<open>poll_idx\<close>: unless the delay has elapsed it is polled, and a
  delay that is pending ends the poll; otherwise the time of the wheel is that of the delay.
\<close>

definition poll_delay ::
  "env \<Rightarrow> 'slab delay_queue \<Rightarrow> world \<Rightarrow> (unit poll \<times> 'slab delay_queue \<times> world) res" where
  "poll_delay E Q w =
     (case dq_delay Q of
        None \<Rightarrow> Inr (Ready (), Q, w)
      | Some delay \<Rightarrow>
          (let (elapsed, w) = is_elapsed E delay w in
           rbind (if \<not> elapsed then sleep_poll E delay w else Inr (Ready (), delay, w)) (\<lambda>(p, delay, w).
           let Q = Q\<lparr>dq_delay := Some delay\<rparr> in
           case p of
             Pending \<Rightarrow> Inr (Pending, Q, w)
           | Ready _ \<Rightarrow>
               (let now = ms (instant_sub (sleep_deadline delay) (dq_start Q)) Down in
                Inr (Ready (), Q\<lparr>dq_wheel_now := now\<rparr>, w)))))"

text \<open>The second half: the wheel is polled and the delay set to the next deadline.\<close>

definition poll_wheel ::
  "build \<Rightarrow> ('slab, 't data) slab_ops \<Rightarrow> env \<Rightarrow> 'slab delay_queue \<Rightarrow> world \<Rightarrow>
   (key option \<times> 'slab delay_queue \<times> world) res" where
  "poll_wheel b SL E Q w =
     rbind (wheel_poll b (queue_stack b SL) (dq_wheel Q) (dq_wheel_now Q) (dq_slab Q)) (\<lambda>(wheel_idx, W, S).
     let Q = Q\<lparr>dq_wheel := W, dq_slab := S\<rparr> in
     rbind (next_deadline b Q) (\<lambda>next.
     Inr (case next of
            None \<Rightarrow> (wheel_idx, Q\<lparr>dq_delay := None\<rparr>, w)
          | Some when \<Rightarrow>
              (let (s, w) = sleep_until E when w in (wheel_idx, Q\<lparr>dq_delay := Some s\<rparr>, w)))))"

partial_function (option) poll_idx_loop ::
  "build \<Rightarrow> ('slab, 't data) slab_ops \<Rightarrow> env \<Rightarrow> 'slab delay_queue \<Rightarrow> world \<Rightarrow>
   (key option poll \<times> 'slab delay_queue \<times> world) res option" where
  "poll_idx_loop b SL E Q w =
     (case poll_delay E Q w of
        Inl e \<Rightarrow> Some (Inl e)
      | Inr (p, Q, w) \<Rightarrow>
         (case p of
            Pending \<Rightarrow> Some (Inr (Pending, Q, w))
          | Ready _ \<Rightarrow>
             (case poll_wheel b SL E Q w of
                Inl e \<Rightarrow> Some (Inl e)
              | Inr (wheel_idx, Q, w) \<Rightarrow>
                  (case wheel_idx of
                     Some idx \<Rightarrow> Some (Inr (Ready (Some idx), Q, w))
                   | None \<Rightarrow>
                       if dq_delay Q = None then Some (Inr (Ready None, Q, w))
                       else poll_idx_loop b SL E Q w))))"

declare poll_idx_loop.simps [code]

definition poll_idx ::
  "build \<Rightarrow> ('slab, 't data) slab_ops \<Rightarrow> env \<Rightarrow> 'slab delay_queue \<Rightarrow> world \<Rightarrow>
   (key option poll \<times> 'slab delay_queue \<times> world) res" where
  "poll_idx b SL E Q w =
     rbind (stack_pop b SL (dq_expired Q) (dq_slab Q)) (\<lambda>(expired, x, S).
     let Q = Q\<lparr>dq_expired := x, dq_slab := S\<rparr> in
     if expired \<noteq> None then Inr (Ready expired, Q, w)
     else of_loop (poll_idx_loop b SL E Q w))"

text \<open>The start of \<open>poll_expired\<close>; \<open>will_wake\<close> holds of equal wakers.\<close>

definition register_waker :: "waker \<Rightarrow> 'slab delay_queue \<Rightarrow> 'slab delay_queue" where
  "register_waker cx Q =
     (if \<not> (case map_option (\<lambda>k. k = cx) (dq_waker Q) of Some same \<Rightarrow> same | None \<Rightarrow> False)
      then Q\<lparr>dq_waker := Some cx\<rparr> else Q)"

definition poll_expired ::
  "build \<Rightarrow> ('slab, 't data) slab_ops \<Rightarrow> env \<Rightarrow> waker \<Rightarrow> 'slab delay_queue \<Rightarrow> world \<Rightarrow>
   ('t expired option poll \<times> 'slab delay_queue \<times> world) res" where
  "poll_expired b SL E cx Q w =
     (let Q = register_waker cx Q in
      rbind (poll_idx b SL E Q w) (\<lambda>(item, Q, w).
      case item of
        Pending \<Rightarrow> Inr (Pending, Q, w)
      | Ready None \<Rightarrow> Inr (Ready None, Q, w)
      | Ready (Some key) \<Rightarrow>
          rbind (storage_remove SL (dq_slab Q) key) (\<lambda>(data, S).
          rbind (debug_check b (Inr (data_next data = None))) (\<lambda>_.
          rbind (debug_check b (Inr (data_prev data = None))) (\<lambda>_.
          rbind (instant_of Q (data_when data)) (\<lambda>deadline.
          Inr (Ready (Some \<lparr>exp_data = data_inner data, exp_deadline = deadline, exp_key = key\<rparr>),
               Q\<lparr>dq_slab := S\<rparr>, w)))))))"

definition poll_next ::
  "build \<Rightarrow> ('slab, 't data) slab_ops \<Rightarrow> env \<Rightarrow> waker \<Rightarrow> 'slab delay_queue \<Rightarrow> world \<Rightarrow>
   ('t expired option poll \<times> 'slab delay_queue \<times> world) res" where
  "poll_next b SL E cx Q w = poll_expired b SL E cx Q w"

definition dq_default :: "build \<Rightarrow> ('slab, 't data) slab_ops \<Rightarrow> env \<Rightarrow> world \<Rightarrow> 'slab delay_queue \<times> world" where
  "dq_default b SL E w = dq_new b SL E w"

text \<open>What a client reads of an entry that has expired.\<close>

definition expired_get_ref :: "'t expired \<Rightarrow> 't" where
  "expired_get_ref self = exp_data self"

definition expired_get_mut :: "'t expired \<Rightarrow> ('t \<Rightarrow> 't) \<Rightarrow> 't expired" where
  "expired_get_mut self f = self\<lparr>exp_data := f (exp_data self)\<rparr>"

definition expired_into_inner :: "'t expired \<Rightarrow> 't" where
  "expired_into_inner self = exp_data self"

definition expired_deadline :: "'t expired \<Rightarrow> instant" where
  "expired_deadline self = exp_deadline self"

definition expired_key :: "'t expired \<Rightarrow> key" where
  "expired_key self = exp_key self"

end
