(* ===== verification/Queue_Inv.thy ===== *)
theory Queue_Inv
  imports Delay_Queue
begin

text \<open>
  The invariant of the delay queue and its internal steps. Every stored key is in the wheel or
  on the stack of expired entries, never in both, as its flag says, and an entry on that stack
  is due at the time that has elapsed. The abstraction of a queue, \<open>entries\<close>, is the
  partial map from keys to values and due times.
\<close>

definition flag_of :: "(key \<rightharpoonup> 't \<times> u64 \<times> bool) \<Rightarrow> key \<Rightarrow> bool" where
  "flag_of c k = (case c k of Some (_, _, e) \<Rightarrow> e | None \<Rightarrow> False)"

definition queue_parts ::
  "('slab, 't data) slab_ops \<Rightarrow> ('slab \<Rightarrow> bool) \<Rightarrow> 'slab storage \<Rightarrow> stack wheel \<Rightarrow> key set \<Rightarrow>
   stack \<Rightarrow> key list \<Rightarrow> bool" where
  "queue_parts SL ok S W X x xs \<longleftrightarrow>
     stack_contract.wheel_inv (stack_repr SL ok) (\<lambda>st. contents (stored SL st)) due_of S W X \<and>
     stack_repr SL ok S x xs \<and> X \<inter> set xs = {} \<and>
     (\<forall>k\<in>X. \<not> flag_of (contents (stored SL S)) k) \<and>
     (\<forall>k\<in>set xs. flag_of (contents (stored SL S)) k \<and>
        due_of (contents (stored SL S)) k = wh_elapsed W)"

text \<open>The entries of a queue, as a client sees them.\<close>

definition entries :: "('slab, 't data) slab_ops \<Rightarrow> 'slab delay_queue \<Rightarrow> key \<rightharpoonup> 't \<times> u64" where
  "entries SL Q k = map_option (\<lambda>d. (data_inner d, data_when d)) (stored SL (dq_slab Q) k)"

definition holds_keys :: "('slab, 't data) slab_ops \<Rightarrow> ('slab \<Rightarrow> bool) \<Rightarrow> 'slab delay_queue \<Rightarrow> key set \<Rightarrow> bool" where
  "holds_keys SL ok Q K \<longleftrightarrow>
     (\<exists>X xs. queue_parts SL ok (dq_slab Q) (dq_wheel Q) X (dq_expired Q) xs \<and> X \<union> set xs = K)"

lemma flag_of_stored: "V k = Some d \<Longrightarrow> flag_of (contents V) k = data_expired d"
  by (simp add: flag_of_def contents_def)

lemma contents_cong: "V' k = V k \<Longrightarrow> contents V' k = contents V k"
  by (simp add: contents_def)

lemma due_of_cong: "c' k = c k \<Longrightarrow> due_of c' k = due_of c k"
  by (simp add: due_of_def)

lemma flag_of_cong: "c' k = c k \<Longrightarrow> flag_of c' k = flag_of c k"
  by (simp add: flag_of_def)

lemma entries_contents:
  "entries SL Q k = map_option (\<lambda>(v, t, _). (v, t)) (contents (stored SL (dq_slab Q)) k)"
  by (simp add: entries_def contents_def option.map_comp o_def)

lemma entries_eqI: "contents (stored SL (dq_slab Q')) = contents (stored SL (dq_slab Q)) \<Longrightarrow> entries SL Q' = entries SL Q"
  by (simp add: fun_eq_iff entries_contents)

lemma dom_entries: "dom (entries SL Q) = dom (stored SL (dq_slab Q))"
  by (auto simp: entries_def dom_def)

lemma entries_due: "entries SL Q k = Some (v, t) \<Longrightarrow> due_of (contents (stored SL (dq_slab Q))) k = t"
  by (auto simp: entries_def due_of_stored)

lemma stack_repr_transfer:
  assumes "stack_repr SL ok st s ys" "storage_inv SL ok st'"
    and "\<And>k. k \<in> set ys \<Longrightarrow> stored SL st' k = stored SL st k"
  shows "stack_repr SL ok st' s ys"
  using assms seg_cong [of ys "stored SL st'" "stored SL st" None None] by (simp add: stack_repr_def)

lemma stack_repr_stored: "stack_repr SL ok st s ys \<Longrightarrow> k \<in> set ys \<Longrightarrow> stored SL st k \<noteq> None"
  using seg_stored [of "stored SL st" None ys None k] by (auto simp: stack_repr_def)

context queue_slab
begin

lemma parts_wheel: "queue_parts SL slab_ok S W X x xs \<Longrightarrow> stk.wheel_inv S W X"
  by (simp add: queue_parts_def)

lemma parts_repr: "queue_parts SL slab_ok S W X x xs \<Longrightarrow> stack_repr SL slab_ok S x xs"
  by (simp add: queue_parts_def)

lemma parts_inv: "queue_parts SL slab_ok S W X x xs \<Longrightarrow> storage_inv SL slab_ok S"
  by (simp add: queue_parts_def stack_repr_def)

lemma partsI:
  assumes "stk.wheel_inv S W X" "stack_repr SL slab_ok S x xs" "X \<inter> set xs = {}"
    and "\<And>k. k \<in> X \<Longrightarrow> \<not> flag_of (contents (stored SL S)) k"
    and "\<And>k. k \<in> set xs \<Longrightarrow> flag_of (contents (stored SL S)) k"
    and "\<And>k. k \<in> set xs \<Longrightarrow> due_of (contents (stored SL S)) k = wh_elapsed W"
  shows "queue_parts SL slab_ok S W X x xs"
  using assms by (simp add: queue_parts_def)

lemma partsD:
  assumes "queue_parts SL slab_ok S W X x xs"
  shows "X \<inter> set xs = {}" "k \<in> X \<Longrightarrow> \<not> flag_of (contents (stored SL S)) k"
    "k \<in> set xs \<Longrightarrow> flag_of (contents (stored SL S)) k"
    "k \<in> set xs \<Longrightarrow> due_of (contents (stored SL S)) k = wh_elapsed W"
  using assms by (auto simp: queue_parts_def)

text \<open>A change of the storage on other keys only.\<close>

lemma parts_transfer:
  assumes p: "queue_parts SL slab_ok S W X x xs" and inv: "storage_inv SL slab_ok S'"
    and same: "\<And>k. k \<in> X \<union> set xs \<Longrightarrow> stored SL S' k = stored SL S k"
  shows "queue_parts SL slab_ok S' W X x xs"
proof (rule partsI)
  have c: "contents (stored SL S') k = contents (stored SL S) k" if "k \<in> X \<union> set xs" for k
    using same [OF that] by (rule contents_cong)
  show "stk.wheel_inv S' W X"
  proof (rule stk.wheel_inv_transfer [OF parts_wheel [OF p]])
    show "stack_repr SL slab_ok S' s ys" if "stack_repr SL slab_ok S s ys" "set ys \<subseteq> X" for s ys
      by (rule stack_repr_transfer [OF that(1) inv]) (use same that(2) in auto)
    show "due_of (contents (stored SL S')) k = due_of (contents (stored SL S)) k" if "k \<in> X" for k
      using c that by (intro due_of_cong) simp
  qed
  show "stack_repr SL slab_ok S' x xs"
    by (rule stack_repr_transfer [OF parts_repr [OF p] inv]) (use same in auto)
  show "X \<inter> set xs = {}" by (rule partsD [OF p])
  have flag: "flag_of (contents (stored SL S')) k = flag_of (contents (stored SL S)) k"
    and due: "due_of (contents (stored SL S')) k = due_of (contents (stored SL S)) k"
    if "k \<in> X \<union> set xs" for k
    using c [OF that] by (rule flag_of_cong, rule due_of_cong)
  show "\<not> flag_of (contents (stored SL S')) k" if "k \<in> X" for k
    using partsD(2) [OF p that] flag that by simp
  show "flag_of (contents (stored SL S')) k" if "k \<in> set xs" for k
    using partsD(3) [OF p that] flag that by simp
  show "due_of (contents (stored SL S')) k = wh_elapsed W" if "k \<in> set xs" for k
    using partsD(4) [OF p that] due that by simp
qed

text \<open>A step of the wheel on its own entries (and a loose one), and one of the stack.\<close>

lemma parts_wheel_step:
  assumes p: "queue_parts SL slab_ok S W X x xs" and w: "stk.wheel_inv S' W' X'"
    and f: "frame (stack_repr SL slab_ok) (stack_loose SL) (\<lambda>st. contents (stored SL st)) S S' A"
    and A: "A \<inter> set xs = {}" and X': "X' \<inter> set xs = {}"
    and new: "\<And>k. k \<in> X' \<Longrightarrow> k \<notin> X \<Longrightarrow> \<not> flag_of (contents (stored SL S)) k"
    and e: "wh_elapsed W' = wh_elapsed W \<or> xs = []"
  shows "queue_parts SL slab_ok S' W' X' x xs"
proof -
  have c: "contents (stored SL S') = contents (stored SL S)" by (rule frame_core [OF f])
  have r: "stack_repr SL slab_ok S' x xs" by (rule frame_repr [OF f parts_repr [OF p]]) (use A in auto)
  show ?thesis
  proof (rule partsI [OF w r X']; unfold c)
    show "\<not> flag_of (contents (stored SL S)) k" if "k \<in> X'" for k
      using partsD(2) [OF p] new that by blast
    show "flag_of (contents (stored SL S)) k" if "k \<in> set xs" for k
      by (rule partsD(3) [OF p that])
    show "due_of (contents (stored SL S)) k = wh_elapsed W'" if "k \<in> set xs" for k
      using partsD(4) [OF p that] e that by auto
  qed
qed

lemma parts_stack_step:
  assumes p: "queue_parts SL slab_ok S W X x xs" and r: "stack_repr SL slab_ok S' x' xs'"
    and f: "frame (stack_repr SL slab_ok) (stack_loose SL) (\<lambda>st. contents (stored SL st)) S S' A"
    and A: "X \<inter> A = {}" and X: "X \<inter> set xs' = {}"
    and new: "\<And>k. k \<in> set xs' \<Longrightarrow> k \<notin> set xs \<Longrightarrow> flag_of (contents (stored SL S)) k"
      "\<And>k. k \<in> set xs' \<Longrightarrow> k \<notin> set xs \<Longrightarrow> due_of (contents (stored SL S)) k = wh_elapsed W"
  shows "queue_parts SL slab_ok S' W X x' xs'"
proof -
  have c: "contents (stored SL S') = contents (stored SL S)" by (rule frame_core [OF f])
  have w: "stk.wheel_inv S' W X" by (rule stk.wheel_inv_frame [OF parts_wheel [OF p] f A])
  show ?thesis
  proof (rule partsI [OF w r X]; unfold c)
    show "\<not> flag_of (contents (stored SL S)) k" if "k \<in> X" for k
      by (rule partsD(2) [OF p that])
    show "flag_of (contents (stored SL S)) k" if "k \<in> set xs'" for k
      using partsD(3) [OF p] new(1) that by blast
    show "due_of (contents (stored SL S)) k = wh_elapsed W" if "k \<in> set xs'" for k
      using partsD(4) [OF p] new(2) that by blast
  qed
qed

section \<open>insert_idx and remove_key\<close>

lemma insert_idx_wheel:
  assumes p: "queue_parts SL slab_ok (dq_slab Q) (dq_wheel Q) X (dq_expired Q) xs"
    and k: "stack_loose SL (dq_slab Q) k" "k \<notin> X" "k \<notin> set xs"
    and c: "contents (stored SL (dq_slab Q)) k = Some (v, when, False)"
    and less: "wh_elapsed (dq_wheel Q) < when"
    and block: "unat (wh_elapsed (dq_wheel Q)) div 2 ^ 36 = unat when div 2 ^ 36"
  shows "\<exists>W S. insert_idx b SL when k Q = Inr (Q\<lparr>dq_wheel := W, dq_slab := S\<rparr>) \<and>
           queue_parts SL slab_ok S W (insert k X) (dq_expired Q) xs \<and> wh_elapsed W = wh_elapsed (dq_wheel Q) \<and>
           contents (stored SL S) = contents (stored SL (dq_slab Q))"
proof -
  have due: "due_of (contents (stored SL (dq_slab Q))) k = when" using c by (simp add: due_of_def)
  obtain W S where w: "wheel_insert b (queue_stack b SL) (dq_wheel Q) when k (dq_slab Q) = Inr (Inr (), W, S)"
    "stk.wheel_inv S W (insert k X)" "wh_elapsed W = wh_elapsed (dq_wheel Q)"
    and f: "frame (stack_repr SL slab_ok) (stack_loose SL) (\<lambda>st. contents (stored SL st)) (dq_slab Q) S (insert k X)"
    using stk.wheel_insert_ok [OF parts_wheel [OF p] k(1,2) due less block] by blast
  have fl: "\<not> flag_of (contents (stored SL (dq_slab Q))) k" using c by (simp add: flag_of_def)
  have "insert k X \<inter> set xs = {}" using partsD(1) [OF p] k(3) by simp
  then have "queue_parts SL slab_ok S W (insert k X) (dq_expired Q) xs"
    using fl w(3) by (intro parts_wheel_step [OF p w(2) f]) auto
  moreover have "insert_idx b SL when k Q = Inr (Q\<lparr>dq_wheel := W, dq_slab := S\<rparr>)"
    using w(1) by (simp add: insert_idx_def Let_def)
  moreover have "contents (stored SL S) = contents (stored SL (dq_slab Q))" by (rule frame_core [OF f])
  ultimately show ?thesis using w(3) by blast
qed

lemma insert_idx_expired:
  assumes p: "queue_parts SL slab_ok (dq_slab Q) (dq_wheel Q) X (dq_expired Q) xs"
    and k: "stack_loose SL (dq_slab Q) k" "k \<notin> X" "k \<notin> set xs"
    and c: "contents (stored SL (dq_slab Q)) k = Some (v, wh_elapsed (dq_wheel Q), False)"
  shows "\<exists>x S. insert_idx b SL (wh_elapsed (dq_wheel Q)) k Q = Inr (Q\<lparr>dq_expired := x, dq_slab := S\<rparr>) \<and>
           queue_parts SL slab_ok S (dq_wheel Q) X x (k # xs) \<and>
           contents (stored SL S) = (contents (stored SL (dq_slab Q)))(k \<mapsto> (v, wh_elapsed (dq_wheel Q), True))"
proof -
  let ?e = "wh_elapsed (dq_wheel Q)"
  obtain d where d: "stored SL (dq_slab Q) k = Some d" "data_next d = None" "data_prev d = None"
    using k(1) by (auto simp: stack_loose_def)
  obtain S1 where s1: "storage_index_mut SL (dq_slab Q) k (\<lambda>d. d\<lparr>data_expired := True\<rparr>) = Inr S1"
    "storage_inv SL slab_ok S1" "stored SL S1 = (stored SL (dq_slab Q))(k \<mapsto> d\<lparr>data_expired := True\<rparr>)"
    using storage_index_mut_ok [OF parts_inv [OF p] d(1), of "\<lambda>d. d\<lparr>data_expired := True\<rparr>"] by auto
  have c1: "contents (stored SL S1) = (contents (stored SL (dq_slab Q)))(k \<mapsto> (v, ?e, True))"
    using c d(1) by (auto simp: s1(3) contents_def fun_eq_iff)
  have p1: "queue_parts SL slab_ok S1 (dq_wheel Q) X (dq_expired Q) xs"
    by (rule parts_transfer [OF p s1(2)]) (use k(2,3) s1(3) in auto)
  have "stack_loose SL S1 k" using d by (simp add: stack_loose_def s1(3))
  then obtain x S where s2: "stack_push b SL (dq_expired Q) k S1 = Inr (x, S)"
    "stack_repr SL slab_ok S x (k # xs)"
    and f: "frame (stack_repr SL slab_ok) (stack_loose SL) (\<lambda>st. contents (stored SL st)) S1 S (insert k (set xs))"
    using stack_push_ok [OF parts_repr [OF p1] _ k(3)] by blast
  have fd: "flag_of (contents (stored SL S1)) k" "due_of (contents (stored SL S1)) k = ?e"
    by (simp_all add: c1 flag_of_def due_of_def)
  have dis: "X \<inter> set (k # xs) = {}" using partsD(1) [OF p] k(2) by simp
  have "queue_parts SL slab_ok S (dq_wheel Q) X x (k # xs)"
    by (rule parts_stack_step [OF p1 s2(2) f _ dis]) (use dis fd in auto)
  moreover have "insert_idx b SL ?e k Q = Inr (Q\<lparr>dq_expired := x, dq_slab := S\<rparr>)"
    using s1(1) s2(1) by (simp add: insert_idx_def wheel_insert_def Let_def)
  moreover have "contents (stored SL S) = contents (stored SL S1)" by (rule frame_core [OF f])
  ultimately show ?thesis using c1 by auto
qed

text \<open>Both cases of an insertion, over the keys of the queue.\<close>

lemma insert_idx_ok:
  assumes h: "holds_keys SL slab_ok Q K" and k: "stack_loose SL (dq_slab Q) k" "k \<notin> K"
    and c: "contents (stored SL (dq_slab Q)) k = Some (v, when, False)"
    and le: "wh_elapsed (dq_wheel Q) \<le> when"
    and block: "unat (wh_elapsed (dq_wheel Q)) div 2 ^ 36 = unat when div 2 ^ 36"
  shows "\<exists>W S x. insert_idx b SL when k Q = Inr (Q\<lparr>dq_wheel := W, dq_slab := S, dq_expired := x\<rparr>) \<and>
           holds_keys SL slab_ok (Q\<lparr>dq_wheel := W, dq_slab := S, dq_expired := x\<rparr>) (insert k K) \<and>
           wh_elapsed W = wh_elapsed (dq_wheel Q) \<and>
           contents (stored SL S) =
             (contents (stored SL (dq_slab Q)))(k \<mapsto> (v, when, when \<le> wh_elapsed (dq_wheel Q)))"
proof -
  obtain X xs where p: "queue_parts SL slab_ok (dq_slab Q) (dq_wheel Q) X (dq_expired Q) xs" and K: "X \<union> set xs = K"
    using h by (auto simp: holds_keys_def)
  have kn: "k \<notin> X" "k \<notin> set xs" using k(2) K by auto
  show ?thesis
  proof (cases "when \<le> wh_elapsed (dq_wheel Q)")
    case True
    then have now: "when = wh_elapsed (dq_wheel Q)" using le by simp
    obtain x S where s: "insert_idx b SL (wh_elapsed (dq_wheel Q)) k Q = Inr (Q\<lparr>dq_expired := x, dq_slab := S\<rparr>)"
      "queue_parts SL slab_ok S (dq_wheel Q) X x (k # xs)"
      "contents (stored SL S) = (contents (stored SL (dq_slab Q)))(k \<mapsto> (v, wh_elapsed (dq_wheel Q), True))"
      using insert_idx_expired [OF p k(1) kn] c unfolding now by blast
    let ?Q = "Q\<lparr>dq_wheel := dq_wheel Q, dq_slab := S, dq_expired := x\<rparr>"
    have "holds_keys SL slab_ok ?Q (insert k K)" using s(2) K unfolding holds_keys_def by force
    moreover have "insert_idx b SL when k Q = Inr ?Q" using s(1) now by simp
    ultimately show ?thesis using s(3) now by (intro exI conjI) auto
  next
    case False
    then have less: "wh_elapsed (dq_wheel Q) < when" by simp
    obtain W S where s: "insert_idx b SL when k Q = Inr (Q\<lparr>dq_wheel := W, dq_slab := S\<rparr>)"
      "queue_parts SL slab_ok S W (insert k X) (dq_expired Q) xs" "wh_elapsed W = wh_elapsed (dq_wheel Q)"
      "contents (stored SL S) = contents (stored SL (dq_slab Q))"
      using insert_idx_wheel [OF p k(1) kn c less block] by blast
    let ?Q = "Q\<lparr>dq_wheel := W, dq_slab := S, dq_expired := dq_expired Q\<rparr>"
    have "holds_keys SL slab_ok ?Q (insert k K)" using s(2) K unfolding holds_keys_def by force
    moreover have "insert_idx b SL when k Q = Inr ?Q" using s(1) by simp
    moreover have "contents (stored SL S) = (contents (stored SL (dq_slab Q)))(k \<mapsto> (v, when, when \<le> wh_elapsed (dq_wheel Q)))"
      using c False by (auto simp: s(4) fun_eq_iff)
    ultimately show ?thesis using s(3) by blast
  qed
qed

lemma holds_keys_stored:
  assumes "holds_keys SL slab_ok Q K" "k \<in> K"
  shows "\<exists>d. stored SL (dq_slab Q) k = Some d"
proof -
  obtain X xs where p: "queue_parts SL slab_ok (dq_slab Q) (dq_wheel Q) X (dq_expired Q) xs" and K: "X \<union> set xs = K"
    using assms(1) by (auto simp: holds_keys_def)
  show ?thesis
  proof (cases "k \<in> set xs")
    case True
    then show ?thesis using stack_repr_stored [OF parts_repr [OF p]] by auto
  next
    case False
    then have "k \<in> X" using assms(2) K by auto
    then obtain s ys where "stack_repr SL slab_ok (dq_slab Q) s ys" "k \<in> set ys"
      using stk.wheel_inv_repr [OF parts_wheel [OF p]] by blast
    then show ?thesis using stack_repr_stored by blast
  qed
qed

lemma remove_key_ok:
  assumes h: "holds_keys SL slab_ok Q K" and k: "k \<in> K"
  shows "\<exists>W S x. remove_key b SL k Q = Inr (Q\<lparr>dq_wheel := W, dq_slab := S, dq_expired := x\<rparr>) \<and>
           holds_keys SL slab_ok (Q\<lparr>dq_wheel := W, dq_slab := S, dq_expired := x\<rparr>) (K - {k}) \<and>
           wh_elapsed W = wh_elapsed (dq_wheel Q) \<and> stack_loose SL S k \<and>
           contents (stored SL S) = contents (stored SL (dq_slab Q))"
proof -
  obtain X xs where p: "queue_parts SL slab_ok (dq_slab Q) (dq_wheel Q) X (dq_expired Q) xs" and K: "X \<union> set xs = K"
    using h by (auto simp: holds_keys_def)
  obtain d where d: "stored SL (dq_slab Q) k = Some d" using holds_keys_stored [OF h k] by blast
  have flag: "flag_of (contents (stored SL (dq_slab Q))) k = data_expired d"
    using d by (rule flag_of_stored)
  show ?thesis
  proof (cases "data_expired d")
    case True
    then have kx: "k \<in> set xs" using partsD(2) [OF p] flag k K by blast
    obtain x S where s: "stack_remove b SL (dq_expired Q) k (dq_slab Q) = Inr (x, S)"
      "stack_repr SL slab_ok S x (remove1 k xs)" "stack_loose SL S k"
      and f: "frame (stack_repr SL slab_ok) (stack_loose SL) (\<lambda>st. contents (stored SL st)) (dq_slab Q) S (set xs)"
      using stack_remove_ok [OF parts_repr [OF p] kx] by blast
    let ?Q = "Q\<lparr>dq_wheel := dq_wheel Q, dq_slab := S, dq_expired := x\<rparr>"
    have dx: "distinct xs" using parts_repr [OF p] by (simp add: stack_repr_def)
    have p': "queue_parts SL slab_ok S (dq_wheel Q) X x (remove1 k xs)"
      by (rule parts_stack_step [OF p s(2) f partsD(1) [OF p]]) (use partsD(1) [OF p] dx in \<open>auto dest: notin_set_remove1\<close>)
    have "k \<notin> X" using partsD(1) [OF p] kx by auto
    then have "holds_keys SL slab_ok ?Q (K - {k})"
      using p' K dx unfolding holds_keys_def by (intro exI [of _ X] exI [of _ "remove1 k xs"]) auto
    moreover have "remove_key b SL k Q = Inr ?Q"
      using s(1) True by (simp add: remove_key_def storage_index_Some [OF d])
    moreover have "contents (stored SL S) = contents (stored SL (dq_slab Q))" by (rule frame_core [OF f])
    ultimately show ?thesis using s(3) by blast
  next
    case False
    then have kX: "k \<in> X" using partsD(3) [OF p] flag k K by blast
    obtain W S where s: "wheel_remove b (queue_stack b SL) (dq_wheel Q) k (dq_slab Q) = Inr (W, S)"
      "stk.wheel_inv S W (X - {k})" "stack_loose SL S k" "wh_elapsed W = wh_elapsed (dq_wheel Q)"
      and f: "frame (stack_repr SL slab_ok) (stack_loose SL) (\<lambda>st. contents (stored SL st)) (dq_slab Q) S X"
      using stk.wheel_remove_ok [OF parts_wheel [OF p] kX] by blast
    let ?Q = "Q\<lparr>dq_wheel := W, dq_slab := S, dq_expired := dq_expired Q\<rparr>"
    have p': "queue_parts SL slab_ok S W (X - {k}) (dq_expired Q) xs"
      by (rule parts_wheel_step [OF p s(2) f partsD(1) [OF p]]) (use partsD(1) [OF p] s(4) in auto)
    have "k \<notin> set xs" using partsD(1) [OF p] kX by auto
    then have "holds_keys SL slab_ok ?Q (K - {k})"
      using p' K unfolding holds_keys_def by (intro exI [of _ "X - {k}"] exI [of _ xs]) auto
    moreover have "remove_key b SL k Q = Inr ?Q"
      using s(1) False by (simp add: remove_key_def storage_index_Some [OF d])
    moreover have "contents (stored SL S) = contents (stored SL (dq_slab Q))" by (rule frame_core [OF f])
    ultimately show ?thesis using s(3,4) by blast
  qed
qed

end

end
