(* ===== verification/Queue_Time.thy ===== *)
theory Queue_Time
  imports Queue_Inv
begin

text \<open>
  Time in the delay queue: milliseconds since its start, the instants they stand for, and the
  invariant of the sleep the queue waits on.
\<close>

definition at_ms :: "'slab delay_queue \<Rightarrow> u64 \<Rightarrow> instant" where
  "at_ms Q t = Instant (Duration (nanos (std (dq_start Q)) + unat t * 1000000))"

text \<open>
  The delay is a sleep until some millisecond at or after the time of the wheel, made after the
  queue was.
\<close>

definition delay_ok :: "env \<Rightarrow> 'slab delay_queue \<Rightarrow> world \<Rightarrow> sleep \<Rightarrow> bool" where
  "delay_ok E Q w s \<longleftrightarrow> sleep_ok E w s \<and> (\<forall>i m. sl_entry s = Registered i m \<longrightarrow> dq_start Q \<le> i) \<and>
     (\<exists>t. wh_elapsed (dq_wheel Q) \<le> t \<and> sl_deadline s = at_ms Q t)"

definition times_ok :: "env \<Rightarrow> 'slab delay_queue \<Rightarrow> world \<Rightarrow> bool" where
  "times_ok E Q w \<longleftrightarrow>
     dq_start Q \<le> env_clock E (wd_tick w) \<and> wh_elapsed (dq_wheel Q) \<le> dq_wheel_now Q \<and>
     nanos (std (at_ms Q (dq_wheel_now Q))) < nanos (std (env_clock E (wd_tick w))) + 1000000 \<and>
     (\<forall>s. dq_delay Q = Some s \<longrightarrow> delay_ok E Q w s)"

lemma at_ms_le: "at_ms Q s \<le> at_ms Q t \<longleftrightarrow> s \<le> t"
  by (simp add: at_ms_def instant_le_nat word_le_nat_alt)

lemma at_ms_cong: "dq_start Q' = dq_start Q \<Longrightarrow> at_ms Q' t = at_ms Q t"
  by (simp add: at_ms_def)

lemma clock_below: "env_ok E \<Longrightarrow> nanos (std (env_clock E n)) < 2 ^ 63 * NANOS_PER_SEC"
  by (simp add: env_ok_def)

lemma start_below:
  assumes "env_ok E" "times_ok E Q w"
  shows "nanos (std (dq_start Q)) < 2 ^ 63 * NANOS_PER_SEC"
  using clock_below [OF assms(1), of "wd_tick w"] assms(2)
  by (simp add: times_ok_def instant_le_nat)

lemma instant_of_ok:
  assumes "env_ok E" "times_ok E Q w"
  shows "instant_of Q t = Inr (at_ms Q t)"
proof -
  have "nanos (std (dq_start Q)) + unat t * 1000000 < duration_bound"
    using start_below [OF assms] unat_u64_less [of t] by (simp add: duration_bound_def NANOS_PER_SEC_def)
  then show ?thesis
    by (simp add: instant_of_def instant_add_def duration_checked_add_def from_millis_def from_std_def at_ms_def)
qed

lemma ms_at_ms: "ms (instant_sub (at_ms Q t) (dq_start Q)) r = t"
proof -
  have "instant_sub (at_ms Q t) (dq_start Q) = from_millis t"
    by (simp add: instant_sub_def duration_since_def saturating_duration_since_def
        checked_duration_since_def duration_checked_sub_def at_ms_def from_millis_def)
  then show ?thesis by (simp add: ms_from_millis)
qed

lemma normalize_at_ms: "wh_elapsed (dq_wheel Q) \<le> t \<Longrightarrow> normalize_deadline Q (at_ms Q t) = t"
proof -
  assume "wh_elapsed (dq_wheel Q) \<le> t"
  moreover have "\<not> at_ms Q t < dq_start Q" by (simp add: at_ms_def instant_less_nat)
  ultimately show ?thesis by (simp add: normalize_deadline_def ms_at_ms)
qed

lemma normalize_ge: "wh_elapsed (dq_wheel Q) \<le> normalize_deadline Q when"
  by (simp add: normalize_deadline_def Let_def)

lemma normalize_cong:
  "dq_start Q' = dq_start Q \<Longrightarrow> wh_elapsed (dq_wheel Q') = wh_elapsed (dq_wheel Q) \<Longrightarrow>
   normalize_deadline Q' i = normalize_deadline Q i"
  by (simp add: normalize_deadline_def)

text \<open>The value: the time since the start rounded up, and not before the time of the wheel.\<close>

lemma unat_normalize:
  assumes "valid_instant when"
  shows "unat (normalize_deadline Q when) =
           max (min (2 ^ 64 - 1) ((nanos (std when) - nanos (std (dq_start Q)) + 999999) div 1000000))
             (unat (wh_elapsed (dq_wheel Q)))"
proof -
  have max: "unat (max a b) = max (unat a) (unat b)" for a b :: u64
    by (simp add: max_def word_le_nat_alt)
  show ?thesis
  proof (cases "when < dq_start Q")
    case True
    then have "nanos (std when) - nanos (std (dq_start Q)) = 0" by (simp add: instant_less_nat)
    then show ?thesis using True by (simp add: normalize_deadline_def max)
  next
    case False
    then have sub: "instant_sub when (dq_start Q) = Duration (nanos (std when) - nanos (std (dq_start Q)))"
      by (simp add: instant_sub_def duration_since_def saturating_duration_since_def
          checked_duration_since_def duration_checked_sub_def instant_less_nat)
    have "nanos (instant_sub when (dq_start Q)) < duration_bound"
      using assms by (simp add: sub valid_instant_def)
    from unat_ms [OF this, of Up] False show ?thesis
      by (simp add: normalize_deadline_def max sub ms_exact_def)
  qed
qed

section \<open>Keeping the invariant of time\<close>

lemma times_okD:
  assumes "times_ok E Q w"
  shows "dq_start Q \<le> env_clock E (wd_tick w)" "wh_elapsed (dq_wheel Q) \<le> dq_wheel_now Q"
    "nanos (std (at_ms Q (dq_wheel_now Q))) < nanos (std (env_clock E (wd_tick w))) + 1000000"
    "dq_delay Q = Some s \<Longrightarrow> delay_ok E Q w s"
  using assms by (simp_all add: times_ok_def)

lemma delay_ok_cong:
  "dq_start Q' = dq_start Q \<Longrightarrow> wh_elapsed (dq_wheel Q') = wh_elapsed (dq_wheel Q) \<Longrightarrow>
   delay_ok E Q' w s = delay_ok E Q w s"
  by (simp add: delay_ok_def at_ms_def)

lemma times_ok_cong:
  "dq_start Q' = dq_start Q \<Longrightarrow> wh_elapsed (dq_wheel Q') = wh_elapsed (dq_wheel Q) \<Longrightarrow>
   dq_wheel_now Q' = dq_wheel_now Q \<Longrightarrow> dq_delay Q' = dq_delay Q \<Longrightarrow>
   times_ok E Q' w = times_ok E Q w"
  by (simp add: times_ok_def at_ms_def delay_ok_cong [of Q' Q])

lemma delay_ok_later:
  "env_ok E \<Longrightarrow> delay_ok E Q w s \<Longrightarrow> wd_tick w \<le> wd_tick w' \<Longrightarrow> delay_ok E Q w' s"
  using sleep_ok_later [of E w s w'] by (simp add: delay_ok_def)

lemma times_ok_later:
  assumes "env_ok E" "times_ok E Q w" "wd_tick w \<le> wd_tick w'"
  shows "times_ok E Q w'"
  using assms env_ok_mono [OF assms(1,3)] delay_ok_later [OF assms(1) _ assms(3), of Q]
  by (auto simp: times_ok_def instant_le_nat)

lemma new_timeout_delay_ok:
  assumes E: "env_ok E" and start: "dq_start Q \<le> env_clock E (wd_tick w)"
    and t: "wh_elapsed (dq_wheel Q) \<le> t"
  shows "delay_ok E Q (snd (new_timeout E (at_ms Q t) w)) (fst (new_timeout E (at_ms Q t) w))"
proof -
  have "dq_start Q \<le> i" if "sl_entry (fst (new_timeout E (at_ms Q t) w)) = Registered i m" for i m
    using that start
    by (auto simp: new_timeout_def instant_now_def register_delay_def Let_def split: option.splits)
  then show ?thesis using new_timeout_ok [OF E] t by (auto simp: delay_ok_def)
qed

text \<open>A new sleep, whether the delay is allocated or reset.\<close>

lemma set_delay_eq:
  "set_delay E i Q w = (Q\<lparr>dq_delay := Some (fst (new_timeout E i w))\<rparr>, snd (new_timeout E i w))"
  by (simp add: set_delay_def sleep_reset_def sleep_until_def case_prod_unfold split: option.splits)

lemma times_ok_set_delay:
  assumes E: "env_ok E" and T: "times_ok E Q w" and t: "wh_elapsed (dq_wheel Q) \<le> t"
  shows "times_ok E (Q\<lparr>dq_delay := Some (fst (new_timeout E (at_ms Q t) w))\<rparr>)
           (snd (new_timeout E (at_ms Q t) w))" (is "times_ok E ?Q ?w")
proof -
  have d: "delay_ok E Q ?w (fst (new_timeout E (at_ms Q t) w))"
    by (rule new_timeout_delay_ok [OF E times_okD(1) [OF T] t])
  have "times_ok E Q ?w" by (rule times_ok_later [OF E T]) simp
  then show ?thesis using d unfolding times_ok_def by (simp add: at_ms_def delay_ok_def)
qed

lemma times_ok_no_delay: "times_ok E Q w \<Longrightarrow> times_ok E (Q\<lparr>dq_delay := None\<rparr>) w"
  by (simp add: times_ok_def at_ms_def)

end
