(* ===== verification/Queue_Correct.thy ===== *)
theory Queue_Correct
  imports Queue_Time
begin

text \<open>
  The public operations of the delay queue over its abstraction \<open>entries\<close>: insertion adds
  an entry under a new key, removal takes it out and returns it, a reset changes when it is
  due, a poll hands out an entry that is due first. Each keeps the invariant \<open>queue_inv\<close>,
  and none panics where its conditions hold.
\<close>

definition queue_inv ::
  "('slab, 't data) slab_ops \<Rightarrow> ('slab \<Rightarrow> bool) \<Rightarrow> env \<Rightarrow> 'slab delay_queue \<Rightarrow> world \<Rightarrow> bool" where
  "queue_inv SL ok E Q w \<longleftrightarrow> holds_keys SL ok Q (dom (entries SL Q)) \<and> times_ok E Q w"

text \<open>Within the range of the wheel: in the block of \<open>2^36\<close> milliseconds that has begun.\<close>

definition same_block :: "'slab delay_queue \<Rightarrow> u64 \<Rightarrow> bool" where
  "same_block Q t \<longleftrightarrow> unat (wh_elapsed (dq_wheel Q)) div 2 ^ 36 = unat t div 2 ^ 36"

text \<open>An instant before the sleep the queue waits on, or no sleep to wait on.\<close>

definition before_delay :: "'slab delay_queue \<Rightarrow> u64 \<Rightarrow> bool" where
  "before_delay Q t \<longleftrightarrow> (case dq_delay Q of Some s \<Rightarrow> at_ms Q t < sl_deadline s | None \<Rightarrow> True)"

lemma before_delay_cong:
  "dq_delay Q' = dq_delay Q \<Longrightarrow> dq_start Q' = dq_start Q \<Longrightarrow> before_delay Q' t = before_delay Q t"
  by (simp add: before_delay_def at_ms_def split: option.split)

context queue_slab
begin

lemma queue_invD:
  assumes "queue_inv SL slab_ok E Q w"
  shows "holds_keys SL slab_ok Q (dom (stored SL (dq_slab Q)))" "times_ok E Q w"
  using assms by (simp_all add: queue_inv_def dom_entries)

lemma queue_invI:
  "holds_keys SL slab_ok Q (dom (stored SL (dq_slab Q))) \<Longrightarrow> times_ok E Q w \<Longrightarrow> queue_inv SL slab_ok E Q w"
  by (simp add: queue_inv_def dom_entries)

lemma holds_keys_inv: "holds_keys SL slab_ok Q K \<Longrightarrow> storage_inv SL slab_ok (dq_slab Q)"
  unfolding holds_keys_def using parts_inv by blast

lemma holds_keys_cong:
  "dq_slab Q' = dq_slab Q \<Longrightarrow> dq_wheel Q' = dq_wheel Q \<Longrightarrow> dq_expired Q' = dq_expired Q \<Longrightarrow>
   holds_keys SL slab_ok Q' K = holds_keys SL slab_ok Q K"
  by (simp add: holds_keys_def)

lemma holds_keys_transfer:
  assumes "holds_keys SL slab_ok Q K" "storage_inv SL slab_ok S"
    and "\<And>k. k \<in> K \<Longrightarrow> stored SL S k = stored SL (dq_slab Q) k"
  shows "holds_keys SL slab_ok (Q\<lparr>dq_slab := S\<rparr>) K"
proof -
  obtain X xs where p: "queue_parts SL slab_ok (dq_slab Q) (dq_wheel Q) X (dq_expired Q) xs" and K: "X \<union> set xs = K"
    using assms(1) by (auto simp: holds_keys_def)
  have "queue_parts SL slab_ok S (dq_wheel Q) X (dq_expired Q) xs"
    by (rule parts_transfer [OF p assms(2)]) (use assms(3) K in blast)
  then show ?thesis using K by (auto simp: holds_keys_def)
qed

lemma next_deadline_ok:
  assumes E: "env_ok E" and T: "times_ok E Q w" and h: "holds_keys SL slab_ok Q K"
  obtains "next_deadline b Q = Inr None"
  | t where "next_deadline b Q = Inr (Some (at_ms Q t))" "wh_elapsed (dq_wheel Q) \<le> t"
proof -
  obtain X xs where p: "queue_parts SL slab_ok (dq_slab Q) (dq_wheel Q) X (dq_expired Q) xs"
    using h by (auto simp: holds_keys_def)
  note at = stk.poll_at_ok [OF parts_wheel [OF p]]
  show thesis
  proof (cases "X = {}")
    case True
    then show thesis using at(1) that(1) by (simp add: next_deadline_def)
  next
    case False
    then obtain t where "poll_at b (dq_wheel Q) = Inr (Some t)" "wh_elapsed (dq_wheel Q) \<le> t"
      using at(2) by blast
    then show thesis using that(2) [of t] instant_of_ok [OF E T, of t] by (simp add: next_deadline_def)
  qed
qed

text \<open>What \<open>insert_at\<close> does once the entry is stored.\<close>

definition finish_insert :: "env \<Rightarrow> u64 \<Rightarrow> 'slab delay_queue \<Rightarrow> world \<Rightarrow> 'slab delay_queue \<Rightarrow> world \<Rightarrow> bool" where
  "finish_insert E when Q w Q' w' \<longleftrightarrow>
     dq_slab Q' = dq_slab Q \<and> dq_wheel Q' = dq_wheel Q \<and> dq_expired Q' = dq_expired Q \<and>
     dq_start Q' = dq_start Q \<and> times_ok E Q' w' \<and>
     (\<exists>s. dq_delay Q' = Some s \<and> sl_deadline s \<le> at_ms Q when) \<and>
     wd_wakes w' = wd_wakes w @
       (if before_delay Q when then (case dq_waker Q of Some k \<Rightarrow> [k] | None \<Rightarrow> []) else [])"

lemma delay_before:
  assumes T: "times_ok E Q w" and s: "dq_delay Q = Some s"
  shows "t < normalize_deadline Q (sl_deadline s) \<longleftrightarrow> at_ms Q t < sl_deadline s"
proof -
  have "delay_ok E Q w s" by (rule times_okD(4) [OF T s])
  then obtain u where u: "sl_deadline s = at_ms Q u" "wh_elapsed (dq_wheel Q) \<le> u" by (auto simp: delay_ok_def)
  show ?thesis using at_ms_le [of Q u t] by (simp add: u normalize_at_ms not_le [symmetric])
qed

lemma advance_delay_ok:
  assumes E: "env_ok E" and T: "times_ok E Q w" and le: "wh_elapsed (dq_wheel Q) \<le> when"
  shows "\<exists>Q' w'. advance_delay E when Q w = Inr (Q', w') \<and> finish_insert E when Q w Q' w'"
proof (cases "case dq_delay Q of
    Some delay \<Rightarrow> let current_exp = normalize_deadline Q (sleep_deadline delay) in when < current_exp
  | None \<Rightarrow> True")
  case True
  define P where "P = (case dq_waker Q of Some waker \<Rightarrow> (Q\<lparr>dq_waker := None\<rparr>, wake waker w) | None \<Rightarrow> (Q, w))"
  obtain Q1 w1 where P1: "P = (Q1, w1)" by (cases P)
  have q1: "dq_slab Q1 = dq_slab Q" "dq_wheel Q1 = dq_wheel Q" "dq_expired Q1 = dq_expired Q"
    "dq_start Q1 = dq_start Q" "dq_delay Q1 = dq_delay Q" "dq_wheel_now Q1 = dq_wheel_now Q"
    "dq_waker Q1 = None" "wd_tick w1 = wd_tick w"
    "wd_wakes w1 = wd_wakes w @ (case dq_waker Q of Some k \<Rightarrow> [k] | None \<Rightarrow> [])"
    using P1 by (auto simp: P_def wake_def split: option.splits)
  have "times_ok E Q w1" by (rule times_ok_later [OF E T]) (simp add: q1)
  then have T1: "times_ok E Q1 w1" by (subst times_ok_cong [of Q1 Q]) (simp_all add: q1)
  have le1: "wh_elapsed (dq_wheel Q1) \<le> when" using le q1 by simp
  let ?s = "new_timeout E (at_ms Q1 when) w1"
  have "at_ms Q when < sl_deadline s" if "dq_delay Q = Some s" for s
    using True that delay_before [OF T that] by (simp add: sleep_deadline_def)
  then have "finish_insert E when Q w (Q1\<lparr>dq_delay := Some (fst ?s)\<rparr>) (snd ?s)"
    using times_ok_set_delay [OF E T1 le1] q1 at_ms_cong [of Q1 Q]
    by (auto simp: finish_insert_def before_delay_def split: option.splits)
  then show ?thesis
    using True instant_of_ok [OF E T1] P1 unfolding advance_delay_def P_def [symmetric]
    by (simp add: set_delay_eq)
next
  case False
  then obtain s where s: "dq_delay Q = Some s" "normalize_deadline Q (sl_deadline s) \<le> when"
    by (auto simp: sleep_deadline_def Let_def split: option.splits)
  then have "\<not> at_ms Q when < sl_deadline s"
    unfolding delay_before [OF T s(1), symmetric] by (simp only: not_less)
  then have "\<not> before_delay Q when" "sl_deadline s \<le> at_ms Q when"
    using s(1) by (simp_all add: before_delay_def)
  then have "finish_insert E when Q w Q w" using s(1) T by (simp add: finish_insert_def)
  then show ?thesis using False by (simp add: advance_delay_def)
qed

lemma insert_at_ok:
  assumes E: "env_ok E" and inv: "queue_inv SL slab_ok E Q w"
    and room: "dq_len SL Q < MAX_ENTRIES" and block: "same_block Q (normalize_deadline Q when)"
  shows "\<exists>k Q' w'. insert_at b SL E v when Q w = Inr (k, Q', w') \<and> queue_inv SL slab_ok E Q' w' \<and>
           entries SL Q k = None \<and> entries SL Q' = (entries SL Q)(k \<mapsto> (v, normalize_deadline Q when)) \<and>
           dq_start Q' = dq_start Q \<and> wh_elapsed (dq_wheel Q') = wh_elapsed (dq_wheel Q) \<and>
           (\<exists>s. dq_delay Q' = Some s \<and> sl_deadline s \<le> at_ms Q (normalize_deadline Q when)) \<and>
           wd_wakes w' = wd_wakes w @
             (if before_delay Q (normalize_deadline Q when)
              then (case dq_waker Q of Some k \<Rightarrow> [k] | None \<Rightarrow> []) else [])"
proof -
  let ?t = "normalize_deadline Q when"
  let ?d = "\<lparr>data_inner = v, data_when = ?t, data_expired = False, data_next = None, data_prev = None\<rparr>"
  note h = queue_invD(1) [OF inv] and T = queue_invD(2) [OF inv]
  have room': "storage_len SL (dq_slab Q) < MAX_ENTRIES" using room by (simp add: dq_len_def)
  obtain k S where s: "storage_insert SL (dq_slab Q) ?d = Inr (k, S)" "storage_inv SL slab_ok S"
    "stored SL (dq_slab Q) k = None" "stored SL S = (stored SL (dq_slab Q))(k \<mapsto> ?d)"
    using storage_insert_ok [OF holds_keys_inv [OF h] room'] by blast
  let ?K = "dom (stored SL (dq_slab Q))" and ?Q = "Q\<lparr>dq_slab := S\<rparr>"
  have h1: "holds_keys SL slab_ok ?Q ?K" by (rule holds_keys_transfer [OF h s(2)]) (use s(3,4) in auto)
  have kK: "k \<notin> ?K" using s(3) by auto
  have loose: "stack_loose SL (dq_slab ?Q) k" by (simp add: stack_loose_def s(4))
  have c: "contents (stored SL (dq_slab ?Q)) k = Some (v, ?t, False)" by (simp add: contents_def s(4))
  have le: "wh_elapsed (dq_wheel ?Q) \<le> ?t" using normalize_ge by simp
  have bl: "unat (wh_elapsed (dq_wheel ?Q)) div 2 ^ 36 = unat ?t div 2 ^ 36"
    using block by (simp add: same_block_def)
  obtain W S2 x where i: "insert_idx b SL ?t k ?Q = Inr (?Q\<lparr>dq_wheel := W, dq_slab := S2, dq_expired := x\<rparr>)"
    "holds_keys SL slab_ok (?Q\<lparr>dq_wheel := W, dq_slab := S2, dq_expired := x\<rparr>) (insert k ?K)"
    "wh_elapsed W = wh_elapsed (dq_wheel ?Q)"
    "contents (stored SL S2) = (contents (stored SL (dq_slab ?Q)))(k \<mapsto> (v, ?t, ?t \<le> wh_elapsed (dq_wheel ?Q)))"
    using insert_idx_ok [OF h1 loose kK c le bl] by blast
  let ?Q2 = "?Q\<lparr>dq_wheel := W, dq_slab := S2, dq_expired := x\<rparr>"
  have T2: "times_ok E ?Q2 w" using T i(3) by (subst times_ok_cong [of _ Q]) simp_all
  have le2: "wh_elapsed (dq_wheel ?Q2) \<le> ?t" using le i(3) by simp
  obtain Q' w' where a: "advance_delay E ?t ?Q2 w = Inr (Q', w')" and f: "finish_insert E ?t ?Q2 w Q' w'"
    using advance_delay_ok [OF E T2 le2] by blast
  have run: "insert_at b SL E v when Q w = Inr (k, Q', w')"
    unfolding insert_at_def Let_def using room' s(1) i(1) a by simp
  have same: "dq_slab Q' = S2" "dq_wheel Q' = W" "dq_expired Q' = x" "dq_start Q' = dq_start Q" "times_ok E Q' w'"
    using f by (simp_all add: finish_insert_def)
  have ent: "entries SL Q' = (entries SL Q)(k \<mapsto> (v, ?t))"
    using i(4) by (auto simp: fun_eq_iff entries_contents same contents_def s(4))
  have "dom (stored SL (dq_slab Q')) = insert k ?K" using arg_cong [OF ent, of dom] by (simp add: dom_entries)
  then have "holds_keys SL slab_ok Q' (dom (stored SL (dq_slab Q')))"
    using i(2) holds_keys_cong [of Q' ?Q2] same by simp
  then have "queue_inv SL slab_ok E Q' w'" using same by (intro queue_invI) simp_all
  moreover have "entries SL Q k = None" by (simp add: entries_def s(3))
  moreover have "\<exists>s. dq_delay Q' = Some s \<and> sl_deadline s \<le> at_ms Q ?t"
    using f at_ms_cong [of ?Q2 Q] by (simp add: finish_insert_def)
  moreover have "before_delay ?Q2 ?t = before_delay Q ?t" by (rule before_delay_cong) simp_all
  then have "wd_wakes w' = wd_wakes w @
      (if before_delay Q ?t then (case dq_waker Q of Some k \<Rightarrow> [k] | None \<Rightarrow> []) else [])"
    using f unfolding finish_insert_def by simp
  moreover have "wh_elapsed (dq_wheel Q') = wh_elapsed (dq_wheel Q)" using i(3) same by simp
  ultimately show ?thesis using run ent same(4) by blast
qed

section \<open>Removal\<close>

text \<open>A changed delay: time is kept, and nothing else changes.\<close>

definition only_delay :: "'slab delay_queue \<Rightarrow> world \<Rightarrow> 'slab delay_queue \<times> world \<Rightarrow> bool" where
  "only_delay Q w r \<longleftrightarrow> dq_slab (fst r) = dq_slab Q \<and> dq_wheel (fst r) = dq_wheel Q \<and>
     dq_expired (fst r) = dq_expired Q \<and> dq_start (fst r) = dq_start Q \<and> wd_wakes (snd r) = wd_wakes w"

lemma only_delay_simps [simp]:
  "only_delay Q w (Q, w)" "only_delay Q w (Q\<lparr>dq_delay := d\<rparr>, w)" "only_delay Q w (set_delay E i Q w)"
  by (simp_all add: only_delay_def set_delay_eq)

lemma next_and_delay:
  assumes E: "env_ok E" and T: "times_ok E Q w" and h: "holds_keys SL slab_ok Q K"
  obtains i where "next_deadline b Q = Inr i"
    "\<And>prev. times_ok E (fst (change_delay E prev i Q w)) (snd (change_delay E prev i Q w))"
    "\<And>prev. only_delay Q w (change_delay E prev i Q w)"
    "times_ok E (fst (repeat_delay E i Q w)) (snd (repeat_delay E i Q w))"
    "only_delay Q w (repeat_delay E i Q w)"
proof (rule next_deadline_ok [OF E T h])
  assume "next_deadline b Q = Inr None"
  then show thesis
    using that [of None] T times_ok_no_delay [OF T]
    by (simp add: change_delay_def repeat_delay_def split: option.split)
next
  fix t assume "next_deadline b Q = Inr (Some (at_ms Q t))" "wh_elapsed (dq_wheel Q) \<le> t"
  then show thesis
    using that [of "Some (at_ms Q t)"] T times_ok_set_delay [OF E T, of t]
    by (simp add: change_delay_def repeat_delay_def set_delay_eq [of _ "at_ms Q t"] only_delay_def split: option.split)
qed

lemma dq_remove_ok:
  assumes E: "env_ok E" and inv: "queue_inv SL slab_ok E Q w"
    and k: "entries SL Q k = Some (v, t)"
  shows "\<exists>Q' w'. dq_remove b SL E k Q w =
             Inr (\<lparr>exp_data = v, exp_deadline = at_ms Q t, exp_key = k\<rparr>, Q', w') \<and>
           queue_inv SL slab_ok E Q' w' \<and> entries SL Q' = (entries SL Q)(k := None) \<and>
           dq_start Q' = dq_start Q \<and> wh_elapsed (dq_wheel Q') = wh_elapsed (dq_wheel Q)"
proof -
  let ?K = "dom (stored SL (dq_slab Q))"
  note h = queue_invD(1) [OF inv] and T = queue_invD(2) [OF inv]
  have kK: "k \<in> ?K" using k by (auto simp: entries_def)
  obtain prev where prev: "next_deadline b Q = Inr prev" using next_and_delay [OF E T h] by metis
  obtain W S x where r: "remove_key b SL k Q = Inr (Q\<lparr>dq_wheel := W, dq_slab := S, dq_expired := x\<rparr>)"
    "holds_keys SL slab_ok (Q\<lparr>dq_wheel := W, dq_slab := S, dq_expired := x\<rparr>) (?K - {k})"
    "wh_elapsed W = wh_elapsed (dq_wheel Q)" "contents (stored SL S) = contents (stored SL (dq_slab Q))"
    using remove_key_ok [OF h kK] by blast
  let ?Q1 = "Q\<lparr>dq_wheel := W, dq_slab := S, dq_expired := x\<rparr>"
  have inv1: "storage_inv SL slab_ok S" using holds_keys_inv [OF r(2)] by simp
  obtain d where d: "stored SL S k = Some d" "data_inner d = v" "data_when d = t"
    using k fun_cong [OF r(4), of k] by (auto simp: entries_def contents_def)
  obtain S2 where s: "storage_remove SL S k = Inr (d, S2)" "storage_inv SL slab_ok S2"
    "stored SL S2 = (stored SL S)(k := None)"
    using storage_remove_Some [OF inv1 d(1)] by blast
  let ?Q2 = "?Q1\<lparr>dq_slab := S2\<rparr>"
  have h2: "holds_keys SL slab_ok ?Q2 (?K - {k})"
    by (rule holds_keys_transfer [OF r(2) s(2)]) (use s(3) in auto)
  have T2: "times_ok E ?Q2 w" using T r(3) by (subst times_ok_cong [of _ Q]) simp_all
  obtain nxt where nxt: "next_deadline b ?Q2 = Inr nxt"
    and T3: "times_ok E (fst (change_delay E prev nxt ?Q2 w)) (snd (change_delay E prev nxt ?Q2 w))"
    and od: "only_delay ?Q2 w (change_delay E prev nxt ?Q2 w)"
    using next_and_delay [OF E T2 h2] by metis
  obtain Q' w' where Q': "change_delay E prev nxt ?Q2 w = (Q', w')" by (cases "change_delay E prev nxt ?Q2 w")
  have same: "dq_slab Q' = S2" "dq_wheel Q' = W" "dq_expired Q' = x" "dq_start Q' = dq_start Q"
    using od Q' by (simp_all add: only_delay_def)
  have T': "times_ok E Q' w'" using T3 Q' by simp
  have ent: "entries SL Q' = (entries SL Q)(k := None)"
  proof
    fix j show "entries SL Q' j = ((entries SL Q)(k := None)) j"
      using fun_cong [OF r(4), of j] by (auto simp: entries_contents same s(3) contents_def)
  qed
  have "dom (stored SL (dq_slab Q')) = ?K - {k}" using arg_cong [OF ent, of dom] by (simp add: dom_entries)
  then have "queue_inv SL slab_ok E Q' w'"
    using h2 T' holds_keys_cong [of Q' ?Q2] same by (intro queue_invI) simp_all
  moreover have "instant_of Q' t = Inr (at_ms Q t)"
    using instant_of_ok [OF E T', of t] at_ms_cong [of Q' Q] same by simp
  then have "dq_remove b SL E k Q w = Inr (\<lparr>exp_data = v, exp_deadline = at_ms Q t, exp_key = k\<rparr>, Q', w')"
    unfolding dq_remove_def Let_def using prev r(1) s(1) nxt d Q' by simp
  ultimately show ?thesis using ent same r(3) by auto
qed

text \<open>A key that names no entry panics before anything changed.\<close>

lemma remove_key_None:
  assumes "stored SL (dq_slab Q) k = None"
  shows "\<exists>e. remove_key b SL k Q = Inl e \<and> (e = Invalid_Index (key_index k) \<or> (\<exists>i. e = Slab_Invalid_Key i))"
proof -
  obtain e where "storage_index SL (dq_slab Q) k = Inl e" "e = Invalid_Index (key_index k) \<or> (\<exists>i. e = Slab_Invalid_Key i)"
    using assms unfolding storage_index_def stored_def
    by (cases "remap_key (dq_slab Q) k"; cases "slab_get SL (st_inner (dq_slab Q)) (ki_index (the (remap_key (dq_slab Q) k)))")
      auto
  then show ?thesis by (auto simp: remove_key_def)
qed

section \<open>Reset\<close>

lemma reset_at_ok:
  assumes E: "env_ok E" and inv: "queue_inv SL slab_ok E Q w"
    and k: "entries SL Q k = Some (v, t)" and block: "same_block Q (normalize_deadline Q when)"
  shows "\<exists>Q' w'. reset_at b SL E k when Q w = Inr (Q', w') \<and> queue_inv SL slab_ok E Q' w' \<and>
           entries SL Q' = (entries SL Q)(k \<mapsto> (v, normalize_deadline Q when)) \<and>
           dq_start Q' = dq_start Q \<and> wh_elapsed (dq_wheel Q') = wh_elapsed (dq_wheel Q) \<and>
           wd_wakes w' = wd_wakes w"
proof -
  let ?K = "dom (stored SL (dq_slab Q))" and ?t = "normalize_deadline Q when"
  note h = queue_invD(1) [OF inv] and T = queue_invD(2) [OF inv]
  have kK: "k \<in> ?K" using k by (auto simp: entries_def)
  obtain W S x where r: "remove_key b SL k Q = Inr (Q\<lparr>dq_wheel := W, dq_slab := S, dq_expired := x\<rparr>)"
    "holds_keys SL slab_ok (Q\<lparr>dq_wheel := W, dq_slab := S, dq_expired := x\<rparr>) (?K - {k})"
    "wh_elapsed W = wh_elapsed (dq_wheel Q)" "stack_loose SL S k"
    "contents (stored SL S) = contents (stored SL (dq_slab Q))"
    using remove_key_ok [OF h kK] by blast
  let ?Q1 = "Q\<lparr>dq_wheel := W, dq_slab := S, dq_expired := x\<rparr>"
  have norm: "normalize_deadline ?Q1 when = ?t" by (rule normalize_cong) (simp_all add: r(3))
  have inv1: "storage_inv SL slab_ok S" using holds_keys_inv [OF r(2)] by simp
  obtain d where d: "stored SL S k = Some d" "data_inner d = v" "data_next d = None" "data_prev d = None"
    using k r(4) fun_cong [OF r(5), of k] by (auto simp: entries_def contents_def stack_loose_def)
  obtain S1 where s1: "storage_index_mut SL S k (\<lambda>d. d\<lparr>data_when := ?t\<rparr>) = Inr S1" "storage_inv SL slab_ok S1"
    "stored SL S1 = (stored SL S)(k \<mapsto> d\<lparr>data_when := ?t\<rparr>)"
    using storage_index_mut_ok [OF inv1 d(1)] by blast
  have "stored SL S1 k = Some (d\<lparr>data_when := ?t\<rparr>)" by (simp add: s1(3))
  from storage_index_mut_ok [OF s1(2) this, of "\<lambda>d. d\<lparr>data_expired := False\<rparr>"]
  obtain S2 where s2: "storage_index_mut SL S1 k (\<lambda>d. d\<lparr>data_expired := False\<rparr>) = Inr S2" "storage_inv SL slab_ok S2"
    "stored SL S2 = (stored SL S)(k \<mapsto> d\<lparr>data_when := ?t, data_expired := False\<rparr>)"
    by (auto simp: s1(3))
  let ?Q2 = "?Q1\<lparr>dq_slab := S2\<rparr>"
  have h2: "holds_keys SL slab_ok ?Q2 (?K - {k})"
    by (rule holds_keys_transfer [OF r(2) s2(2)]) (use s2(3) in auto)
  have loose: "stack_loose SL (dq_slab ?Q2) k" using d by (simp add: stack_loose_def s2(3))
  have c: "contents (stored SL (dq_slab ?Q2)) k = Some (v, ?t, False)" using d by (simp add: contents_def s2(3))
  have le: "wh_elapsed (dq_wheel ?Q2) \<le> ?t" using normalize_ge [of Q] r(3) by simp
  have bl: "unat (wh_elapsed (dq_wheel ?Q2)) div 2 ^ 36 = unat ?t div 2 ^ 36"
    using block r(3) by (simp add: same_block_def)
  have kn: "k \<notin> ?K - {k}" by simp
  obtain W3 S3 x3 where i: "insert_idx b SL ?t k ?Q2 = Inr (?Q2\<lparr>dq_wheel := W3, dq_slab := S3, dq_expired := x3\<rparr>)"
    "holds_keys SL slab_ok (?Q2\<lparr>dq_wheel := W3, dq_slab := S3, dq_expired := x3\<rparr>) (insert k (?K - {k}))"
    "wh_elapsed W3 = wh_elapsed (dq_wheel ?Q2)"
    "contents (stored SL S3) = (contents (stored SL (dq_slab ?Q2)))(k \<mapsto> (v, ?t, ?t \<le> wh_elapsed (dq_wheel ?Q2)))"
    using insert_idx_ok [OF h2 loose kn c le bl] by blast
  let ?Q3 = "?Q2\<lparr>dq_wheel := W3, dq_slab := S3, dq_expired := x3\<rparr>"
  have T3: "times_ok E ?Q3 w" using T i(3) r(3) by (subst times_ok_cong [of _ Q]) simp_all
  obtain nxt where nxt: "next_deadline b ?Q3 = Inr nxt"
    and TR: "times_ok E (fst (repeat_delay E nxt ?Q3 w)) (snd (repeat_delay E nxt ?Q3 w))"
    and od: "only_delay ?Q3 w (repeat_delay E nxt ?Q3 w)"
    using next_and_delay [OF E T3 i(2)] by metis
  obtain Q' w' where Q': "repeat_delay E nxt ?Q3 w = (Q', w')" by (cases "repeat_delay E nxt ?Q3 w")
  have same: "dq_slab Q' = S3" "dq_wheel Q' = W3" "dq_expired Q' = x3" "dq_start Q' = dq_start Q"
    "wd_wakes w' = wd_wakes w"
    using od Q' by (simp_all add: only_delay_def)
  have ent: "entries SL Q' = (entries SL Q)(k \<mapsto> (v, ?t))"
  proof
    fix j show "entries SL Q' j = ((entries SL Q)(k \<mapsto> (v, ?t))) j"
      using fun_cong [OF r(5), of j] by (auto simp: entries_contents same i(4) s2(3) contents_def)
  qed
  have "dom (stored SL (dq_slab Q')) = insert k (?K - {k})"
    using arg_cong [OF ent, of dom] kK by (auto simp: dom_entries)
  then have "queue_inv SL slab_ok E Q' w'"
    using i(2) TR Q' holds_keys_cong [of Q' ?Q3] same by (intro queue_invI) simp_all
  moreover have "reset_at b SL E k when Q w = Inr (Q', w')"
    unfolding reset_at_def Let_def using r(1) norm s1(1) s2(1) i(1) nxt Q' by simp
  ultimately show ?thesis using ent same i(3) r(3) by auto
qed

end

end
