(* ===== verification/Queue_Poll.thy ===== *)
theory Queue_Poll
  imports Queue_Correct
begin

text \<open>
  Polling the delay queue. The loop of \<open>poll_idx\<close> ends, because every turn that neither
  returns an entry nor waits moves the delay strictly later; what it hands out is due first and
  was not due more than a millisecond after the present; it reports the end only of an empty
  queue.
\<close>

text \<open>What may have changed in a queue that was not polled to an entry.\<close>

definition same_entries :: "('slab, 't data) slab_ops \<Rightarrow> 'slab delay_queue \<Rightarrow> 'slab delay_queue \<Rightarrow> bool" where
  "same_entries SL Q Q' \<longleftrightarrow> dq_start Q' = dq_start Q \<and> dq_waker Q' = dq_waker Q \<and>
     contents (stored SL (dq_slab Q')) = contents (stored SL (dq_slab Q))"

lemma same_entries_refl [simp]: "same_entries SL Q Q"
  by (simp add: same_entries_def)

lemma same_entries_trans: "same_entries SL Q Q' \<Longrightarrow> same_entries SL Q' Q'' \<Longrightarrow> same_entries SL Q Q''"
  by (simp add: same_entries_def)

text \<open>The sleep of a pending queue has not elapsed.\<close>

definition waiting :: "env \<Rightarrow> 'slab delay_queue \<Rightarrow> bool" where
  "waiting E Q \<longleftrightarrow> (\<exists>s i m. dq_delay Q = Some s \<and> sl_entry s = Registered i m)"

definition due_in :: "('slab, 't data) slab_ops \<Rightarrow> 'slab delay_queue \<Rightarrow> key \<Rightarrow> u64" where
  "due_in SL Q k = due_of (contents (stored SL (dq_slab Q))) k"

text \<open>Milliseconds of the delay that are left of the range of \<open>u64\<close>: the measure of the loop.\<close>

definition delay_left :: "'slab delay_queue \<Rightarrow> nat" where
  "delay_left Q =
     (case dq_delay Q of
        None \<Rightarrow> 2 ^ 64
      | Some s \<Rightarrow> 2 ^ 64 - 1 - (nanos (std (sl_deadline s)) - nanos (std (dq_start Q))) div 1000000)"

lemma delay_left_at_ms: "dq_delay Q = Some s \<Longrightarrow> sl_deadline s = at_ms Q t \<Longrightarrow> delay_left Q = 2 ^ 64 - 1 - unat t"
  by (simp add: delay_left_def at_ms_def)

lemma is_elapsed_eq: "is_elapsed E s w = (sl_deadline s < env_clock E (wd_tick w), w\<lparr>wd_tick := Suc (wd_tick w)\<rparr>)"
  by (simp add: is_elapsed_def instant_now_def checked_duration_since_iff flip: not_le)

text \<open>A delay that has fired: its deadline is less than a millisecond ahead of the clock.\<close>

lemma delay_fired:
  assumes E: "env_ok E" and d: "delay_ok E Q w s" and r: "sleep_poll E s w = Inr (Ready u, s', w')"
  shows "nanos (std (sl_deadline s)) < nanos (std (env_clock E (wd_tick w))) + 1000000"
proof (rule sleep_poll_ready [OF E _ r])
  show "sleep_ok E w s" using d by (simp add: delay_ok_def)
  fix i m assume "sl_entry s = Registered i m"
  then have i: "nanos (std (dq_start Q)) \<le> nanos (std i)" using d by (simp add: delay_ok_def instant_le_nat)
  obtain t where "sl_deadline s = at_ms Q t" using d by (auto simp: delay_ok_def)
  then have "nanos (std (sl_deadline s)) - nanos (std i) \<le> unat t * 1000000" using i by (simp add: at_ms_def)
  from div_le_mono [OF this, of 1000000]
  show "(nanos (std (sl_deadline s)) - nanos (std i)) div 1000000 < 2 ^ 64"
    using unat_u64_less [of t] by (simp add: le_less_trans)
qed

lemma poll_delay_ok:
  assumes E: "env_ok E" and T: "times_ok E Q w"
  shows "\<exists>p w'. (poll_delay E Q w = Inr (Pending, Q, w') \<and> times_ok E Q w' \<and> waiting E Q \<and>
               (\<forall>s. dq_delay Q = Some s \<longrightarrow> env_clock E (wd_tick w) \<le> sl_deadline s) \<or>
             poll_delay E Q w = Inr (Ready (), Q\<lparr>dq_wheel_now := p\<rparr>, w') \<and>
             times_ok E (Q\<lparr>dq_wheel_now := p\<rparr>) w' \<and>
             (\<forall>s. dq_delay Q = Some s \<longrightarrow> sl_deadline s = at_ms Q p)) \<and>
           wd_wakes w' = wd_wakes w \<and> wd_tick w \<le> wd_tick w'"
proof (cases "dq_delay Q")
  case None
  then show ?thesis using T by (intro exI [of _ "dq_wheel_now Q"] exI [of _ w]) (simp add: poll_delay_def)
next
  case (Some s)
  have d: "delay_ok E Q w s" by (rule times_okD(4) [OF T Some])
  then obtain t where t: "sl_deadline s = at_ms Q t" "wh_elapsed (dq_wheel Q) \<le> t" by (auto simp: delay_ok_def)
  let ?w1 = "w\<lparr>wd_tick := Suc (wd_tick w)\<rparr>"
  have T1: "times_ok E Q ?w1" by (rule times_ok_later [OF E T]) simp
  have d1: "delay_ok E Q ?w1 s" by (rule times_okD(4) [OF T1 Some])
  have now: "ms (instant_sub (at_ms Q t) (dq_start Q)) Down = t" by (rule ms_at_ms)
  have set: "times_ok E (Q\<lparr>dq_wheel_now := t\<rparr>) v"
    if "times_ok E Q v" "nanos (std (at_ms Q t)) < nanos (std (env_clock E (wd_tick v))) + 1000000" for v
    using that t(2) Some by (simp add: times_ok_def at_ms_def delay_ok_def)
  have same: "Q\<lparr>dq_delay := Some s\<rparr> = Q" using Some by simp
  show ?thesis
  proof (cases "sl_deadline s < env_clock E (wd_tick w)")
    case True
    then have "nanos (std (at_ms Q t)) < nanos (std (env_clock E (wd_tick w)))" by (simp add: t(1) instant_less_nat)
    moreover have "nanos (std (env_clock E (wd_tick w))) \<le> nanos (std (env_clock E (wd_tick ?w1)))"
      using env_ok_mono [OF E, of "wd_tick w" "wd_tick ?w1"] by (simp add: instant_le_nat)
    ultimately have "times_ok E (Q\<lparr>dq_wheel_now := t\<rparr>) ?w1" by (intro set [OF T1]) simp
    then show ?thesis
      using Some True now t(1) same
      by (intro exI [of _ t] exI [of _ ?w1]) (simp add: poll_delay_def is_elapsed_eq sleep_deadline_def)
  next
    case False
    obtain i m where reg: "sl_entry s = Registered i m"
      using d False by (cases "sl_entry s") (auto simp: delay_ok_def sleep_ok_def)
    let ?w2 = "?w1\<lparr>wd_tick := Suc (wd_tick ?w1)\<rparr>"
    have T2: "times_ok E Q ?w2" by (rule times_ok_later [OF E T1]) simp
    show ?thesis
    proof (cases "env_woken E (Suc (wd_tick w)) (sl_entry s)")
      case True
      then have r: "sleep_poll E s ?w1 = Inr (Ready (), s, ?w2)" using reg by (simp add: sleep_poll_def)
      have "nanos (std (env_clock E (wd_tick ?w1))) \<le> nanos (std (env_clock E (wd_tick ?w2)))"
        using env_ok_mono [OF E, of "wd_tick ?w1" "wd_tick ?w2"] by (simp add: instant_le_nat)
      then have "times_ok E (Q\<lparr>dq_wheel_now := t\<rparr>) ?w2"
        using delay_fired [OF E d1 r] by (intro set [OF T2]) (simp add: t(1))
      then show ?thesis
        using Some False r now t(1) same
        by (intro exI [of _ t] exI [of _ ?w2]) (simp add: poll_delay_def is_elapsed_eq sleep_deadline_def)
    next
      case False
      then have r: "sleep_poll E s ?w1 = Inr (Pending, s, ?w2)" using reg by (simp add: sleep_poll_def)
      then show ?thesis
        using Some \<open>\<not> sl_deadline s < env_clock E (wd_tick w)\<close> T2 reg same leI
        by (intro exI [of _ undefined] exI [of _ ?w2]) (auto simp: poll_delay_def is_elapsed_eq waiting_def)
    qed
  qed
qed


context queue_slab
begin

lemma poll_wheel_ok:
  assumes E: "env_ok E" and T: "times_ok E Q w"
    and p: "queue_parts SL slab_ok (dq_slab Q) (dq_wheel Q) X (dq_expired Q) []"
  shows "\<exists>r Q' w'. poll_wheel b SL E Q w = Inr (r, Q', w') \<and> same_entries SL Q Q' \<and> times_ok E Q' w' \<and>
           wd_wakes w' = wd_wakes w \<and> wd_tick w \<le> wd_tick w' \<and>
           dq_wheel_now Q' = dq_wheel_now Q \<and> dq_expired Q' = dq_expired Q \<and>
           (case r of
              None \<Rightarrow> queue_parts SL slab_ok (dq_slab Q') (dq_wheel Q') X (dq_expired Q') [] \<and>
                (dq_delay Q' = None \<longrightarrow> X = {}) \<and>
                (\<forall>s. dq_delay Q' = Some s \<longrightarrow> (\<exists>t. sl_deadline s = at_ms Q' t \<and> dq_wheel_now Q' < t) \<and>
                   (\<forall>y\<in>X. sl_deadline s \<le> at_ms Q (due_in SL Q y)))
            | Some k \<Rightarrow> k \<in> X \<and> due_in SL Q k \<le> dq_wheel_now Q \<and> (\<forall>y\<in>X. due_in SL Q k \<le> due_in SL Q y) \<and>
                stack_loose SL (dq_slab Q') k \<and>
                queue_parts SL slab_ok (dq_slab Q') (dq_wheel Q') (X - {k}) (dq_expired Q') [])"
proof -
  have e: "wh_elapsed (dq_wheel Q) \<le> dq_wheel_now Q" by (rule times_okD(2) [OF T])
  obtain r W S where w: "wheel_poll b (queue_stack b SL) (dq_wheel Q) (dq_wheel_now Q) (dq_slab Q) = Inr (r, W, S)"
    and pr: "stk.poll_result (dq_slab Q) (dq_wheel Q) X (dq_wheel_now Q) r W S"
    using stk.wheel_poll_ok [OF parts_wheel [OF p] e] by blast
  have f: "frame (stack_repr SL slab_ok) (stack_loose SL) (\<lambda>st. contents (stored SL st)) (dq_slab Q) S X"
    and eW: "wh_elapsed (dq_wheel Q) \<le> wh_elapsed W" "wh_elapsed W \<le> dq_wheel_now Q"
    using pr by (simp_all add: stk.poll_result_def)
  have c: "contents (stored SL S) = contents (stored SL (dq_slab Q))" by (rule frame_core [OF f])
  let ?X = "case r of None \<Rightarrow> X | Some k \<Rightarrow> X - {k}"
  have wi: "stk.wheel_inv S W ?X" using pr by (auto simp: stk.poll_result_def split: option.splits)
  have sub: "?X \<subseteq> X" by (auto split: option.splits)
  have p1: "queue_parts SL slab_ok S W ?X (dq_expired Q) []"
    by (rule parts_wheel_step [OF p wi f]) (use sub in auto)
  let ?Q1 = "Q\<lparr>dq_wheel := W, dq_slab := S\<rparr>"
  have T0: "times_ok E (?Q1\<lparr>dq_delay := None\<rparr>) w" using T eW(2) by (simp add: times_ok_def at_ms_def)
  have found: "case r of
      None \<Rightarrow> (\<forall>x\<in>X. dq_wheel_now Q < due_in SL Q x) \<and> wh_elapsed W = dq_wheel_now Q
    | Some k \<Rightarrow> k \<in> X \<and> due_in SL Q k \<le> dq_wheel_now Q \<and> (\<forall>y\<in>X. due_in SL Q k \<le> due_in SL Q y) \<and>
        stack_loose SL S k"
    using pr by (auto simp: stk.poll_result_def due_in_def split: option.splits)
  show ?thesis
  proof (cases "?X = {}")
    case True
    have "poll_at b W = Inr None" using stk.poll_at_ok(1) [OF wi] True by simp
    then have run: "poll_wheel b SL E Q w = Inr (r, ?Q1\<lparr>dq_delay := None\<rparr>, w)"
      using w by (simp add: poll_wheel_def next_deadline_def)
    moreover have "r = None \<longrightarrow> X = {}" using True by auto
    ultimately show ?thesis
      using T0 c p1 found
      by (intro exI [of _ r] exI [of _ "?Q1\<lparr>dq_delay := None\<rparr>"] exI [of _ w])
        (auto simp: same_entries_def split: option.splits)
  next
    case False
    then obtain t where t: "poll_at b W = Inr (Some t)" "wh_elapsed W \<le> t"
        "\<forall>x\<in>?X. t \<le> due_of (contents (stored SL S)) x"
      using stk.poll_at_ok(2) [OF wi] by blast
    let ?s = "new_timeout E (at_ms ?Q1 t) w"
    let ?Q2 = "?Q1\<lparr>dq_delay := Some (fst ?s)\<rparr>"
    have at: "at_ms (?Q1\<lparr>dq_delay := None\<rparr>) t = at_ms ?Q1 t" by (simp add: at_ms_def)
    have "times_ok E ?Q2 (snd ?s)" using times_ok_set_delay [OF E T0, of t] t(2) at by simp
    moreover have "instant_of ?Q1 t = Inr (at_ms ?Q1 t)"
      using instant_of_ok [OF E T0, of t] at by (simp add: instant_of_def)
    then have run: "poll_wheel b SL E Q w = Inr (r, ?Q2, snd ?s)"
      using w t(1) by (simp add: poll_wheel_def next_deadline_def sleep_until_def case_prod_unfold Let_def)
    moreover have "dq_wheel_now Q < t" if "r = None"
      using stk.poll_at_strict [OF wi t(1)] found that by (simp add: due_in_def c)
    then have "r = None \<longrightarrow> (\<exists>t. sl_deadline (fst ?s) = at_ms ?Q2 t \<and> dq_wheel_now ?Q2 < t)"
      by (auto intro!: exI [of _ t] simp: at_ms_def)
    moreover have "r = None \<longrightarrow> (\<forall>y\<in>X. sl_deadline (fst ?s) \<le> at_ms Q (due_in SL Q y))"
      using t(3) at_ms_cong [of ?Q1 Q] by (auto simp: due_in_def c at_ms_le)
    ultimately show ?thesis
      using c p1 found
      by (intro exI [of _ r] exI [of _ ?Q2] exI [of _ "snd ?s"])
        (auto simp: same_entries_def split: option.splits)
  qed
qed

text \<open>
  The loop, by induction on what is left of the range of the delay. A poll that is pending
  waits on a sleep that is not over, and on one it did not begin with only if it ends no later
  than every entry of the wheel is due.
\<close>

definition waits :: "env \<Rightarrow> 'slab delay_queue \<Rightarrow> world \<Rightarrow> key set \<Rightarrow> 'slab delay_queue \<Rightarrow> bool" where
  "waits E Q w X Q' \<longleftrightarrow> waiting E Q' \<and>
     (\<exists>s. dq_delay Q' = Some s \<and> env_clock E (wd_tick w) \<le> sl_deadline s \<and>
        (dq_delay Q = Some s \<or> (\<forall>y\<in>X. sl_deadline s \<le> at_ms Q (due_in SL Q y))))"

definition loop_post ::
  "env \<Rightarrow> 'slab delay_queue \<Rightarrow> world \<Rightarrow> key set \<Rightarrow> key option poll \<Rightarrow> 'slab delay_queue \<Rightarrow> world \<Rightarrow> bool" where
  "loop_post E Q w X p Q' w' \<longleftrightarrow>
     same_entries SL Q Q' \<and> times_ok E Q' w' \<and> wd_wakes w' = wd_wakes w \<and>
     (case p of
        Pending \<Rightarrow> queue_parts SL slab_ok (dq_slab Q') (dq_wheel Q') X (dq_expired Q') [] \<and> waits E Q w X Q'
      | Ready None \<Rightarrow> queue_parts SL slab_ok (dq_slab Q') (dq_wheel Q') X (dq_expired Q') [] \<and> X = {}
      | Ready (Some k) \<Rightarrow> k \<in> X \<and> due_in SL Q k \<le> dq_wheel_now Q' \<and>
          (\<forall>y\<in>X. due_in SL Q k \<le> due_in SL Q y) \<and> stack_loose SL (dq_slab Q') k \<and>
          queue_parts SL slab_ok (dq_slab Q') (dq_wheel Q') (X - {k}) (dq_expired Q') [])"

lemma due_in_same: "same_entries SL Q Q' \<Longrightarrow> due_in SL Q' k = due_in SL Q k"
  by (simp add: same_entries_def due_in_def)

lemma poll_idx_loop_ok:
  assumes E: "env_ok E" and "times_ok E Q w"
    and "queue_parts SL slab_ok (dq_slab Q) (dq_wheel Q) X (dq_expired Q) []"
  shows "\<exists>p Q' w'. poll_idx_loop b SL E Q w = Some (Inr (p, Q', w')) \<and> loop_post E Q w X p Q' w'"
  using assms(2-)
proof (induction "delay_left Q" arbitrary: Q w rule: less_induct)
  case less
  note T = less.prems(1) and p = less.prems(2)
  from poll_delay_ok [OF E T] consider
      (pending) w1 where "poll_delay E Q w = Inr (Pending, Q, w1)" "times_ok E Q w1" "waiting E Q"
        "\<forall>s. dq_delay Q = Some s \<longrightarrow> env_clock E (wd_tick w) \<le> sl_deadline s" "wd_wakes w1 = wd_wakes w"
    | (ready) n w1 where "poll_delay E Q w = Inr (Ready (), Q\<lparr>dq_wheel_now := n\<rparr>, w1)"
        "times_ok E (Q\<lparr>dq_wheel_now := n\<rparr>) w1" "\<forall>s. dq_delay Q = Some s \<longrightarrow> sl_deadline s = at_ms Q n"
        "wd_wakes w1 = wd_wakes w" "wd_tick w \<le> wd_tick w1"
    by blast
  then show ?case
  proof cases
    case pending
    then have "waits E Q w X Q" by (auto simp: waits_def waiting_def)
    then show ?thesis using pending p by (simp add: poll_idx_loop.simps [of b SL E Q w] loop_post_def)
  next
    case ready
    let ?Q1 = "Q\<lparr>dq_wheel_now := n\<rparr>"
    have s1: "same_entries SL Q ?Q1" by (simp add: same_entries_def)
    have p1: "queue_parts SL slab_ok (dq_slab ?Q1) (dq_wheel ?Q1) X (dq_expired ?Q1) []" using p by simp
    obtain r Q2 w2 where pw: "poll_wheel b SL E ?Q1 w1 = Inr (r, Q2, w2)"
      and s2: "same_entries SL ?Q1 Q2" and T2: "times_ok E Q2 w2" and wk2: "wd_wakes w2 = wd_wakes w1"
      and tk2: "wd_tick w1 \<le> wd_tick w2" and now0: "dq_wheel_now Q2 = dq_wheel_now ?Q1" and c0: "case r of
          None \<Rightarrow> queue_parts SL slab_ok (dq_slab Q2) (dq_wheel Q2) X (dq_expired Q2) [] \<and>
            (dq_delay Q2 = None \<longrightarrow> X = {}) \<and>
            (\<forall>s. dq_delay Q2 = Some s \<longrightarrow> (\<exists>t. sl_deadline s = at_ms Q2 t \<and> dq_wheel_now Q2 < t) \<and>
               (\<forall>y\<in>X. sl_deadline s \<le> at_ms ?Q1 (due_in SL ?Q1 y)))
        | Some k \<Rightarrow> k \<in> X \<and> due_in SL ?Q1 k \<le> dq_wheel_now ?Q1 \<and> (\<forall>y\<in>X. due_in SL ?Q1 k \<le> due_in SL ?Q1 y) \<and>
            stack_loose SL (dq_slab Q2) k \<and>
            queue_parts SL slab_ok (dq_slab Q2) (dq_wheel Q2) (X - {k}) (dq_expired Q2) []"
      using poll_wheel_ok [OF E ready(2) p1] by blast
    have now: "dq_wheel_now Q2 = n" using now0 by simp
    have s: "same_entries SL Q Q2" by (rule same_entries_trans [OF s1 s2])
    have wk: "wd_wakes w2 = wd_wakes w" using wk2 ready(4) by simp
    consider (item) k where "r = Some k" | (empty) "r = None" "dq_delay Q2 = None"
      | (again) d where "r = None" "dq_delay Q2 = Some d" by (cases r; cases "dq_delay Q2"; blast)
    then show ?thesis
    proof cases
      case item
      have "poll_idx_loop b SL E Q w = Some (Inr (Ready (Some k), Q2, w2))"
        using item by (simp add: poll_idx_loop.simps [of b SL E Q w] ready(1) pw)
      moreover have "loop_post E Q w X (Ready (Some k)) Q2 w2"
        using c0 s T2 now wk unfolding item loop_post_def due_in_same [OF s1] by simp
      ultimately show ?thesis by blast
    next
      case empty
      have "poll_idx_loop b SL E Q w = Some (Inr (Ready None, Q2, w2))"
        using empty by (simp add: poll_idx_loop.simps [of b SL E Q w] ready(1) pw)
      moreover have "loop_post E Q w X (Ready None) Q2 w2"
        using c0 s T2 wk empty(2) unfolding empty(1) loop_post_def by auto
      ultimately show ?thesis by blast
    next
      case again
      then obtain t where t: "sl_deadline d = at_ms Q2 t" "n < t"
        using c0 now by (simp only: option.case) blast
      have left: "delay_left Q2 = 2 ^ 64 - 1 - unat t" by (rule delay_left_at_ms [OF again(2) t(1)])
      have "unat n < unat t" "unat t < 2 ^ 64" using t(2) unat_u64_less by (simp_all add: word_less_nat_alt)
      moreover have "delay_left Q = (if dq_delay Q = None then 2 ^ 64 else 2 ^ 64 - 1 - unat n)"
        using ready(3) delay_left_at_ms [of Q _ n] by (cases "dq_delay Q") (simp_all add: delay_left_def)
      ultimately have "delay_left Q2 < delay_left Q" by (auto simp: left split: if_splits)
      moreover have "queue_parts SL slab_ok (dq_slab Q2) (dq_wheel Q2) X (dq_expired Q2) []" using c0 again(1) by simp
      ultimately obtain q Q' w' where l: "poll_idx_loop b SL E Q2 w2 = Some (Inr (q, Q', w'))"
        "loop_post E Q2 w2 X q Q' w'"
        using less.hyps [of Q2 w2] T2 by blast
      have cov: "\<forall>y\<in>X. sl_deadline d \<le> at_ms Q (due_in SL Q y)"
        using c0 again(2) unfolding again(1) option.case due_in_same [OF s1] by (simp add: at_ms_def)
      have at: "at_ms Q2 u = at_ms Q u" for u using s by (simp add: same_entries_def at_ms_def)
      have "env_clock E (wd_tick w) \<le> env_clock E (wd_tick w2)"
        using env_ok_mono [OF E] ready(5) tk2 by (meson le_trans)
      then have wt: "waits E Q w X Q'" if "waits E Q2 w2 X Q'"
        using that cov again(2) unfolding waits_def at due_in_same [OF s] by (metis option.inject order_trans)
      have "loop_post E Q w X q Q' w'"
        using l(2) same_entries_trans [OF s] wk due_in_same [OF s] wt
        by (auto simp: loop_post_def split: poll.splits option.splits)
      then show ?thesis
        using l(1) again by (simp add: poll_idx_loop.simps [of b SL E Q w] ready(1) pw)
    qed
  qed
qed

text \<open>\<open>poll_idx\<close> over all keys: first the stack of expired entries, then the loop.\<close>

definition idx_post ::
  "env \<Rightarrow> 'slab delay_queue \<Rightarrow> world \<Rightarrow> key set \<Rightarrow> key option poll \<Rightarrow> 'slab delay_queue \<Rightarrow> world \<Rightarrow> bool" where
  "idx_post E Q w K p Q' w' \<longleftrightarrow>
     same_entries SL Q Q' \<and> times_ok E Q' w' \<and> wd_wakes w' = wd_wakes w \<and>
     (case p of
        Pending \<Rightarrow> holds_keys SL slab_ok Q' K \<and> waits E Q w K Q'
      | Ready None \<Rightarrow> holds_keys SL slab_ok Q' K \<and> K = {}
      | Ready (Some k) \<Rightarrow> k \<in> K \<and> due_in SL Q k \<le> dq_wheel_now Q' \<and>
          (\<forall>y\<in>K. due_in SL Q k \<le> due_in SL Q y) \<and> stack_loose SL (dq_slab Q') k \<and>
          holds_keys SL slab_ok Q' (K - {k}))"

lemma parts_due:
  assumes p: "queue_parts SL slab_ok (dq_slab Q) (dq_wheel Q) X x xs" and k: "k \<in> X \<union> set xs"
  shows "wh_elapsed (dq_wheel Q) \<le> due_in SL Q k"
  using k partsD(4) [OF p, of k] stk.wheel_inv_due(1) [OF parts_wheel [OF p], of k]
  unfolding due_in_def by auto

lemma poll_idx_ok:
  assumes E: "env_ok E" and T: "times_ok E Q w"
    and h: "holds_keys SL slab_ok Q K"
  shows "\<exists>p Q' w'. poll_idx b SL E Q w = Inr (p, Q', w') \<and> idx_post E Q w K p Q' w'"
proof -
  obtain X xs where p: "queue_parts SL slab_ok (dq_slab Q) (dq_wheel Q) X (dq_expired Q) xs" and K: "X \<union> set xs = K"
    using h by (auto simp: holds_keys_def)
  show ?thesis
  proof (cases xs)
    case Nil
    have "stack_pop b SL (dq_expired Q) (dq_slab Q) = Inr (None, dq_expired Q, dq_slab Q)"
      using stk.pop_Nil [of "dq_slab Q" "dq_expired Q" b] parts_repr [OF p] Nil by simp
    moreover obtain r Q' w' where l: "poll_idx_loop b SL E Q w = Some (Inr (r, Q', w'))" "loop_post E Q w X r Q' w'"
      using poll_idx_loop_ok [OF E T] p Nil by blast
    ultimately have "poll_idx b SL E Q w = Inr (r, Q', w')" by (simp add: poll_idx_def)
    moreover have "idx_post E Q w K r Q' w'"
      using l(2) K Nil unfolding loop_post_def idx_post_def holds_keys_def
      by (cases r) (force split: option.splits)+
    ultimately show ?thesis by blast
  next
    case (Cons k ys)
    have r: "stack_repr SL slab_ok (dq_slab Q) (dq_expired Q) (k # ys)" using parts_repr [OF p] Cons by simp
    obtain x S where s: "stack_pop b SL (dq_expired Q) (dq_slab Q) = Inr (Some k, x, S)"
      "stack_repr SL slab_ok S x ys" "stack_loose SL S k"
      and f: "frame (stack_repr SL slab_ok) (stack_loose SL) (\<lambda>st. contents (stored SL st)) (dq_slab Q) S (set (k # ys))"
      using stack_pop_ok [OF r] by blast
    have dis: "X \<inter> set (k # ys) = {}" using partsD(1) [OF p] Cons by simp
    have p': "queue_parts SL slab_ok S (dq_wheel Q) X x ys"
      by (rule parts_stack_step [OF p s(2) f dis]) (use dis Cons in auto)
    let ?Q = "Q\<lparr>dq_expired := x, dq_slab := S\<rparr>"
    have "poll_idx b SL E Q w = Inr (Ready (Some k), ?Q, w)" using s(1) by (simp add: poll_idx_def)
    moreover have "same_entries SL Q ?Q" using frame_core [OF f] by (simp add: same_entries_def)
    moreover have "times_ok E ?Q w" using T by (subst times_ok_cong [of _ Q]) simp_all
    moreover have due: "due_in SL Q k = wh_elapsed (dq_wheel Q)"
      using partsD(4) [OF p, of k] Cons by (simp add: due_in_def)
    moreover have "\<forall>y\<in>K. due_in SL Q k \<le> due_in SL Q y" using parts_due [OF p] K by (simp add: due)
    moreover have "k \<notin> set ys" using r by (simp add: stack_repr_def)
    then have "holds_keys SL slab_ok ?Q (K - {k})"
      using p' K Cons dis unfolding holds_keys_def by (intro exI [of _ X] exI [of _ ys]) auto
    moreover have "k \<in> K" using K Cons by auto
    ultimately show ?thesis
      using times_okD(2) [OF T] s(3)
      by (intro exI [of _ "Ready (Some k)"] exI [of _ ?Q] exI [of _ w]) (simp add: idx_post_def)
  qed
qed

text \<open>What a poll returns.\<close>

definition poll_post ::
  "env \<Rightarrow> 'slab delay_queue \<Rightarrow> world \<Rightarrow> 't expired option poll \<Rightarrow> 'slab delay_queue \<Rightarrow> world \<Rightarrow> bool" where
  "poll_post E Q w r Q' w' \<longleftrightarrow>
     (case r of
        Pending \<Rightarrow> entries SL Q' = entries SL Q \<and> waits E Q w (dom (entries SL Q)) Q'
      | Ready None \<Rightarrow> entries SL Q = Map.empty \<and> entries SL Q' = Map.empty
      | Ready (Some x) \<Rightarrow>
          (\<exists>t. entries SL Q (exp_key x) = Some (exp_data x, t) \<and> exp_deadline x = at_ms Q t \<and>
             (\<forall>k v u. entries SL Q k = Some (v, u) \<longrightarrow> t \<le> u)) \<and>
          entries SL Q' = (entries SL Q)(exp_key x := None) \<and>
          nanos (std (exp_deadline x)) < nanos (std (env_clock E (wd_tick w'))) + 1000000)"

lemma register_waker_sel:
  "dq_waker (register_waker cx Q) = Some cx" "dq_slab (register_waker cx Q) = dq_slab Q"
  "dq_wheel (register_waker cx Q) = dq_wheel Q" "dq_expired (register_waker cx Q) = dq_expired Q"
  "dq_start (register_waker cx Q) = dq_start Q" "dq_delay (register_waker cx Q) = dq_delay Q"
  "dq_wheel_now (register_waker cx Q) = dq_wheel_now Q"
  by (cases "dq_waker Q"; simp add: register_waker_def)+

lemma poll_expired_ok:
  assumes E: "env_ok E" and inv: "queue_inv SL slab_ok E Q w"
  shows "\<exists>r Q' w'. poll_expired b SL E cx Q w = Inr (r, Q', w') \<and> queue_inv SL slab_ok E Q' w' \<and>
           dq_start Q' = dq_start Q \<and> dq_waker Q' = Some cx \<and> wd_wakes w' = wd_wakes w \<and> poll_post E Q w r Q' w'"
proof -
  let ?K = "dom (stored SL (dq_slab Q))"
  define Q1 where "Q1 = register_waker cx Q"
  note q1 = register_waker_sel [of cx Q, folded Q1_def]
  have T1: "times_ok E Q1 w" using queue_invD(2) [OF inv] q1 by (subst times_ok_cong [of _ Q]) simp_all
  have h1: "holds_keys SL slab_ok Q1 ?K"
    using queue_invD(1) [OF inv] q1 by (subst holds_keys_cong [of _ Q]) simp_all
  obtain p Q2 w2 where pi: "poll_idx b SL E Q1 w = Inr (p, Q2, w2)" and post: "idx_post E Q1 w ?K p Q2 w2"
    using poll_idx_ok [OF E T1 h1] by blast
  have s: "same_entries SL Q1 Q2" and T2: "times_ok E Q2 w2" and wk: "wd_wakes w2 = wd_wakes w"
    using post by (simp_all add: idx_post_def)
  have c: "contents (stored SL (dq_slab Q2)) = contents (stored SL (dq_slab Q))"
    and st: "dq_start Q2 = dq_start Q" "dq_waker Q2 = Some cx" using s q1 by (simp_all add: same_entries_def)
  have e: "entries SL Q2 = entries SL Q" by (rule entries_eqI [OF c])
  have dom2: "dom (stored SL (dq_slab Q2)) = ?K" using arg_cong [OF e, of dom] by (simp add: dom_entries)
  consider (pending) "p = Pending" | (none) "p = Ready None" | (item) k where "p = Ready (Some k)"
    by (metis not_Some_eq poll.exhaust)
  then show ?thesis
  proof cases
    case pending
    then have "queue_inv SL slab_ok E Q2 w2" using post T2 dom2 by (intro queue_invI) (simp_all add: idx_post_def)
    moreover have "waits E Q w (dom (entries SL Q)) Q2"
      using post pending by (simp add: idx_post_def waits_def q1 due_in_def at_ms_def dom_entries)
    ultimately show ?thesis
      using pending pi e st wk by (simp add: poll_expired_def Q1_def [symmetric] poll_post_def idx_post_def Let_def)
  next
    case none
    have "holds_keys SL slab_ok Q2 ?K \<and> ?K = {}" using post unfolding none idx_post_def poll.case option.case by blast
    then have h2: "holds_keys SL slab_ok Q2 ?K" "?K = {}" by blast+
    then have "queue_inv SL slab_ok E Q2 w2" using T2 dom2 by (intro queue_invI) simp_all
    moreover have "entries SL Q = Map.empty" using h2(2) unfolding dom_entries [symmetric] by simp
    ultimately show ?thesis
      using none pi e st wk by (simp add: poll_expired_def Q1_def [symmetric] poll_post_def Let_def)
  next
    case (item k)
    have h2: "holds_keys SL slab_ok Q2 (?K - {k})" and k: "k \<in> ?K" "stack_loose SL (dq_slab Q2) k"
      and now: "due_in SL Q1 k \<le> dq_wheel_now Q2" and least: "\<forall>y\<in>?K. due_in SL Q1 k \<le> due_in SL Q1 y"
      using post item by (simp_all add: idx_post_def)
    have due1: "due_in SL Q1 y = due_in SL Q y" for y by (simp add: due_in_def q1)
    obtain d where d: "stored SL (dq_slab Q2) k = Some d" "data_next d = None" "data_prev d = None"
      using k(2) by (auto simp: stack_loose_def)
    have ek: "entries SL Q k = Some (data_inner d, data_when d)" using fun_cong [OF e, of k] d(1) by (simp add: entries_def)
    have dk: "due_in SL Q k = data_when d" using entries_due [OF ek] by (simp add: due_in_def)
    obtain S where S: "storage_remove SL (dq_slab Q2) k = Inr (d, S)" "storage_inv SL slab_ok S"
      "stored SL S = (stored SL (dq_slab Q2))(k := None)"
      using storage_remove_Some [OF holds_keys_inv [OF h2] d(1)] by blast
    let ?Q3 = "Q2\<lparr>dq_slab := S\<rparr>"
    let ?x = "\<lparr>exp_data = data_inner d, exp_deadline = at_ms Q (data_when d), exp_key = k\<rparr>"
    have h3: "holds_keys SL slab_ok ?Q3 (?K - {k})"
      by (rule holds_keys_transfer [OF h2 S(2)]) (use S(3) in auto)
    have T3: "times_ok E ?Q3 w2" using T2 by (subst times_ok_cong [of _ Q2]) simp_all
    have e3: "entries SL ?Q3 = (entries SL Q)(k := None)"
      unfolding e [symmetric] by (auto simp: entries_def S(3) fun_eq_iff)
    have "dom (stored SL (dq_slab ?Q3)) = ?K - {k}" using dom2 by (simp add: S(3))
    then have "queue_inv SL slab_ok E ?Q3 w2" using h3 T3 by (intro queue_invI) simp_all
    moreover have "instant_of Q2 (data_when d) = Inr (at_ms Q (data_when d))"
      using instant_of_ok [OF E T2] at_ms_cong [of Q2 Q] st by simp
    then have "poll_expired b SL E cx Q w = Inr (Ready (Some ?x), ?Q3, w2)"
      using item pi S(1) d by (simp add: poll_expired_def Q1_def [symmetric] Let_def)
    moreover have "poll_post E Q w (Ready (Some ?x)) ?Q3 w2"
    proof -
      have "data_when d \<le> u" if "entries SL Q j = Some (v, u)" for j v u
      proof -
        have "j \<in> ?K" using that by (auto simp: entries_def)
        then show ?thesis using least entries_due [OF that] dk due1 by (fastforce simp: due_in_def)
      qed
      moreover have "at_ms Q (data_when d) \<le> at_ms Q2 (dq_wheel_now Q2)"
        using now dk due1 at_ms_cong [of Q2 Q] st by (simp add: at_ms_le)
      then have "nanos (std (at_ms Q (data_when d))) < nanos (std (env_clock E (wd_tick w2))) + 1000000"
        using times_okD(3) [OF T2] by (simp add: instant_le_nat)
      ultimately show ?thesis using ek e3 by (simp add: poll_post_def)
    qed
    ultimately show ?thesis using st wk by auto
  qed
qed

text \<open>
  Once the deadline of an entry has passed and the queue does not sleep longer than that, a
  poll hands out an entry.
\<close>

lemma poll_live:
  assumes E: "env_ok E" and inv: "queue_inv SL slab_ok E Q w"
    and k: "entries SL Q k = Some (v, t)" and past: "at_ms Q t < env_clock E (wd_tick w)"
    and delay: "\<And>s. dq_delay Q = Some s \<Longrightarrow> sl_deadline s \<le> at_ms Q t"
  shows "\<exists>x Q' w'. poll_expired b SL E cx Q w = Inr (Ready (Some x), Q', w')"
proof -
  obtain r Q' w' where p: "poll_expired b SL E cx Q w = Inr (r, Q', w')" "poll_post E Q w r Q' w'"
    using poll_expired_ok [OF E inv] by blast
  consider (pending) "r = Pending" | (none) "r = Ready None" | (item) x where "r = Ready (Some x)"
    by (metis not_Some_eq poll.exhaust)
  then show ?thesis
  proof cases
    case pending
    then obtain s where s: "env_clock E (wd_tick w) \<le> sl_deadline s"
      "dq_delay Q = Some s \<or> (\<forall>y\<in>dom (entries SL Q). sl_deadline s \<le> at_ms Q (due_in SL Q y))"
      using p(2) by (auto simp: poll_post_def waits_def)
    have "due_in SL Q k = t" using entries_due [OF k] by (simp add: due_in_def)
    then have "sl_deadline s \<le> at_ms Q t" using s(2) delay k by auto
    then show ?thesis using s(1) past by (meson leD order_trans)
  next
    case none
    then show ?thesis using p(2) k by (simp add: poll_post_def)
  next
    case (item x)
    then show ?thesis using p(1) by blast
  qed
qed

end

end
