(* ===== verification/Queue_Runs.thy ===== *)
theory Queue_Runs
  imports Queue_Poll
begin

text \<open>
  Runs of the delay queue: a state is reachable when operations that returned lead to it from a
  new queue, time passing between them. An operation that returns had its conditions met, so
  every reachable state satisfies the invariant. The errors of each operation are here too:
  when it panics, and with which panic.
\<close>

lemma index_get_Inr: "index_get xs i = Inr x \<Longrightarrow> i < length xs"
  by (simp add: index_get_def split: if_splits)

text \<open>Outside the present block of \<open>2^36\<close> milliseconds an insertion panics, one way or the other.\<close>

lemma level_for_ge_6: "unat e div 2 ^ 36 \<noteq> unat w div 2 ^ 36 \<Longrightarrow> 6 \<le> level_for e w"
  using level_for_le_iff [of e w 5] by (simp add: not_le)

lemma wheel_insert_outside:
  assumes "length (wh_levels W) = 6" "wh_elapsed W < t" "unat (wh_elapsed W) div 2 ^ 36 \<noteq> unat t div 2 ^ 36"
  shows "wheel_insert b ops W t x st =
    (if MAX_DURATION < t - wh_elapsed W then Inr (Inl (x, Invalid), W, st) else Inl Index_Out_Of_Bounds)"
  using assms level_for_ge_6 [OF assms(3)]
  by (auto simp: wheel_insert_def wheel_level_for_def index_get_def not_le Let_def)

context queue_slab
begin

lemma queue_slab_self: "queue_slab SL slab_ok"
  by (rule queue_slab_axioms)

lemma wheel_inv_length: "stk.wheel_inv S W X \<Longrightarrow> length (wh_levels W) = 6"
  by (auto simp: stk.wheel_inv_def stk.wheel_holds_def)

lemma holds_keys_length: "holds_keys SL slab_ok Q K \<Longrightarrow> length (wh_levels (dq_wheel Q)) = 6"
  unfolding holds_keys_def using wheel_inv_length parts_wheel by blast

lemma insert_idx_outside:
  assumes h: "holds_keys SL slab_ok Q K" and le: "wh_elapsed (dq_wheel Q) \<le> t" and nb: "\<not> same_block Q t"
  shows "insert_idx b SL t k Q =
    Inl (if MAX_DURATION < t - wh_elapsed (dq_wheel Q) then Invalid_Deadline else Index_Out_Of_Bounds)"
proof -
  have "wh_elapsed (dq_wheel Q) < t" using le nb by (auto simp: same_block_def order.order_iff_strict)
  then have w: "wheel_insert b (queue_stack b SL) (dq_wheel Q) t k (dq_slab Q) =
      (if MAX_DURATION < t - wh_elapsed (dq_wheel Q) then Inr (Inl (k, Invalid), dq_wheel Q, dq_slab Q)
       else Inl Index_Out_Of_Bounds)"
    using nb unfolding same_block_def by (rule wheel_insert_outside [OF holds_keys_length [OF h]])
  show ?thesis unfolding insert_idx_def w by simp
qed

lemma insert_at_error:
  assumes E: "env_ok E" and inv: "queue_inv SL slab_ok E Q w"
    and t_def: "t = normalize_deadline Q i"
  shows "\<not> dq_len SL Q < MAX_ENTRIES \<Longrightarrow> insert_at b SL E v i Q w = Inl Max_Entries_Exceeded"
    and "dq_len SL Q < MAX_ENTRIES \<Longrightarrow> \<not> same_block Q t \<Longrightarrow> insert_at b SL E v i Q w =
      Inl (if MAX_DURATION < t - wh_elapsed (dq_wheel Q) then Invalid_Deadline else Index_Out_Of_Bounds)"
proof -
  show "insert_at b SL E v i Q w = Inl Max_Entries_Exceeded" if "\<not> dq_len SL Q < MAX_ENTRIES"
    using that by (simp add: insert_at_def dq_len_def check_def)
next
  assume room: "dq_len SL Q < MAX_ENTRIES" and nb: "\<not> same_block Q t"
  let ?d = "\<lparr>data_inner = v, data_when = t, data_expired = False, data_next = None, data_prev = None\<rparr>"
  note h = queue_invD(1) [OF inv]
  have room': "storage_len SL (dq_slab Q) < MAX_ENTRIES" using room by (simp add: dq_len_def)
  obtain k S where s: "storage_insert SL (dq_slab Q) ?d = Inr (k, S)" "storage_inv SL slab_ok S"
    "stored SL (dq_slab Q) k = None" "stored SL S = (stored SL (dq_slab Q))(k \<mapsto> ?d)"
    using storage_insert_ok [OF holds_keys_inv [OF h] room'] by blast
  have h1: "holds_keys SL slab_ok (Q\<lparr>dq_slab := S\<rparr>) (dom (stored SL (dq_slab Q)))"
    by (rule holds_keys_transfer [OF h s(2)]) (use s(3,4) in auto)
  have "insert_idx b SL t k (Q\<lparr>dq_slab := S\<rparr>) =
      Inl (if MAX_DURATION < t - wh_elapsed (dq_wheel Q) then Invalid_Deadline else Index_Out_Of_Bounds)"
    using insert_idx_outside [OF h1, of t b k] nb normalize_ge [of Q i]
    by (simp add: same_block_def t_def)
  then show "insert_at b SL E v i Q w =
      Inl (if MAX_DURATION < t - wh_elapsed (dq_wheel Q) then Invalid_Deadline else Index_Out_Of_Bounds)"
    using room' s(1) unfolding insert_at_def t_def Let_def by simp
qed

lemma remove_key_error:
  assumes "queue_inv SL slab_ok E Q w" "entries SL Q k = None"
  shows "\<exists>e. remove_key b SL k Q = Inl e \<and> (e = Invalid_Index (key_index k) \<or> (\<exists>i. e = Slab_Invalid_Key i))"
  by (rule remove_key_None) (use assms(2) in \<open>simp add: entries_def\<close>)

lemma dq_remove_error:
  assumes E: "env_ok E" and inv: "queue_inv SL slab_ok E Q w"
    and k: "entries SL Q k = None"
  shows "\<exists>e. dq_remove b SL E k Q w = Inl e \<and> (e = Invalid_Index (key_index k) \<or> (\<exists>i. e = Slab_Invalid_Key i))"
proof -
  obtain d where "next_deadline b Q = Inr d"
    using next_and_delay [OF E queue_invD(2) [OF inv] queue_invD(1) [OF inv]]
    by metis
  then show ?thesis using remove_key_error [OF inv k, of b] by (auto simp: dq_remove_def)
qed

lemma reset_at_error:
  assumes inv: "queue_inv SL slab_ok E Q w" and k: "entries SL Q k = None"
  shows "\<exists>e. reset_at b SL E k i Q w = Inl e \<and> (e = Invalid_Index (key_index k) \<or> (\<exists>i. e = Slab_Invalid_Key i))"
  using remove_key_error [OF inv k, of b] by (auto simp: reset_at_def)

lemma reset_at_outside:
  assumes E: "env_ok E" and inv: "queue_inv SL slab_ok E Q w"
    and k: "entries SL Q k = Some (v, t0)"
    and t_def: "t = normalize_deadline Q i" and nb: "\<not> same_block Q t"
  shows "reset_at b SL E k i Q w =
    Inl (if MAX_DURATION < t - wh_elapsed (dq_wheel Q) then Invalid_Deadline else Index_Out_Of_Bounds)"
proof -
  let ?K = "dom (stored SL (dq_slab Q))"
  have kK: "k \<in> ?K" using k by (auto simp: entries_def)
  obtain W S x where r: "remove_key b SL k Q = Inr (Q\<lparr>dq_wheel := W, dq_slab := S, dq_expired := x\<rparr>)"
    "holds_keys SL slab_ok (Q\<lparr>dq_wheel := W, dq_slab := S, dq_expired := x\<rparr>) (?K - {k})"
    "wh_elapsed W = wh_elapsed (dq_wheel Q)" "stack_loose SL S k"
    using remove_key_ok [OF queue_invD(1) [OF inv] kK] by blast
  let ?Q1 = "Q\<lparr>dq_wheel := W, dq_slab := S, dq_expired := x\<rparr>"
  have norm: "normalize_deadline ?Q1 i = t" unfolding t_def by (rule normalize_cong) (simp_all add: r(3))
  obtain d where d: "stored SL S k = Some d" using r(4) by (auto simp: stack_loose_def)
  have inv1: "storage_inv SL slab_ok S" using holds_keys_inv [OF r(2)] by simp
  obtain S1 where s1: "storage_index_mut SL S k (\<lambda>d. d\<lparr>data_when := t\<rparr>) = Inr S1" "storage_inv SL slab_ok S1"
    "stored SL S1 = (stored SL S)(k \<mapsto> d\<lparr>data_when := t\<rparr>)"
    using storage_index_mut_ok [OF inv1 d] by blast
  have "stored SL S1 k = Some (d\<lparr>data_when := t\<rparr>)" by (simp add: s1(3))
  from storage_index_mut_ok [OF s1(2) this, of "\<lambda>d. d\<lparr>data_expired := False\<rparr>"]
  obtain S2 where s2: "storage_index_mut SL S1 k (\<lambda>d. d\<lparr>data_expired := False\<rparr>) = Inr S2" "storage_inv SL slab_ok S2"
    "stored SL S2 = (stored SL S)(k \<mapsto> d\<lparr>data_when := t, data_expired := False\<rparr>)"
    by (auto simp: s1(3))
  have h2: "holds_keys SL slab_ok (?Q1\<lparr>dq_slab := S2\<rparr>) (?K - {k})"
    by (rule holds_keys_transfer [OF r(2) s2(2)]) (use s2(3) in auto)
  have "insert_idx b SL t k (?Q1\<lparr>dq_slab := S2\<rparr>) =
      Inl (if MAX_DURATION < t - wh_elapsed (dq_wheel Q) then Invalid_Deadline else Index_Out_Of_Bounds)"
    using insert_idx_outside [OF h2, of t b k] nb normalize_ge [of Q i] r(3)
    by (simp add: same_block_def t_def)
  then show ?thesis unfolding reset_at_def Let_def using r(1) norm s1(1) s2(1) by simp
qed

section \<open>The remaining operations keep the invariant\<close>

lemma parts_empty:
  assumes "storage_inv SL slab_ok S"
  shows "queue_parts SL slab_ok S (wheel_new (queue_stack b SL)) {} stack_default []"
proof (rule partsI)
  show "stk.wheel_inv S (wheel_new (queue_stack b SL)) {}" by (rule stk.wheel_new_inv [OF assms])
  show "stack_repr SL slab_ok S stack_default []" using assms by (simp add: stack_repr_def stack_default_def)
qed simp_all

lemma dq_with_capacity_ok:
  assumes E: "env_ok E"
  shows "queue_inv SL slab_ok E (fst (dq_with_capacity b SL E c w)) (snd (dq_with_capacity b SL E c w))"
    "entries SL (fst (dq_with_capacity b SL E c w)) = Map.empty"
    "dq_start (fst (dq_with_capacity b SL E c w)) = env_clock E (wd_tick w)"
proof -
  let ?Q = "fst (dq_with_capacity b SL E c w)" and ?w = "snd (dq_with_capacity b SL E c w)"
  have q: "dq_slab ?Q = storage_with_capacity SL c" "dq_wheel ?Q = wheel_new (queue_stack b SL)"
    "dq_expired ?Q = stack_default" "dq_delay ?Q = None" "dq_wheel_now ?Q = 0"
    "dq_start ?Q = env_clock E (wd_tick w)" "wd_tick ?w = Suc (wd_tick w)"
    by (simp_all add: dq_with_capacity_def instant_now_def)
  show "dq_start ?Q = env_clock E (wd_tick w)" by (rule q)
  show ent: "entries SL ?Q = Map.empty" by (simp add: fun_eq_iff entries_def q storage_new_ok(2))
  have "holds_keys SL slab_ok ?Q {}"
    using parts_empty [OF storage_new_ok(1)] unfolding holds_keys_def q by force
  moreover have "times_ok E ?Q ?w"
    using env_ok_mono [OF E, of "wd_tick w" "Suc (wd_tick w)"]
    by (simp add: times_ok_def q at_ms_def wheel_new_def instant_le_nat)
  ultimately show "queue_inv SL slab_ok E ?Q ?w" using ent by (simp add: queue_inv_def)
qed

lemma dq_slab_op_ok:
  assumes inv: "queue_inv SL slab_ok E Q w" and S: "storage_inv SL slab_ok S" "stored SL S = stored SL (dq_slab Q)"
  shows "queue_inv SL slab_ok E (Q\<lparr>dq_slab := S\<rparr>) w" "entries SL (Q\<lparr>dq_slab := S\<rparr>) = entries SL Q"
proof -
  show e: "entries SL (Q\<lparr>dq_slab := S\<rparr>) = entries SL Q" by (simp add: fun_eq_iff entries_def S(2))
  have "holds_keys SL slab_ok (Q\<lparr>dq_slab := S\<rparr>) (dom (stored SL (dq_slab Q)))"
    by (rule holds_keys_transfer [OF queue_invD(1) [OF inv] S(1)]) (simp add: S(2))
  moreover have "times_ok E (Q\<lparr>dq_slab := S\<rparr>) w"
    using queue_invD(2) [OF inv] by (subst times_ok_cong [of _ Q]) simp_all
  ultimately show "queue_inv SL slab_ok E (Q\<lparr>dq_slab := S\<rparr>) w" by (intro queue_invI) (simp_all add: S(2))
qed

lemma queue_inv_storage: "queue_inv SL slab_ok E Q w \<Longrightarrow> storage_inv SL slab_ok (dq_slab Q)"
  by (rule holds_keys_inv [OF queue_invD(1)])

lemma dq_compact_ok:
  assumes "queue_inv SL slab_ok E Q w"
  shows "queue_inv SL slab_ok E (dq_compact SL Q) w" "entries SL (dq_compact SL Q) = entries SL Q"
  unfolding dq_compact_def
  by (rule dq_slab_op_ok [OF assms] storage_compact_ok [OF queue_inv_storage [OF assms]])+

lemma dq_shrink_ok:
  assumes "queue_inv SL slab_ok E Q w"
  shows "queue_inv SL slab_ok E (dq_shrink_to_fit SL Q) w" "entries SL (dq_shrink_to_fit SL Q) = entries SL Q"
  unfolding dq_shrink_to_fit_def
  by (rule dq_slab_op_ok [OF assms] storage_shrink_ok [OF queue_inv_storage [OF assms]])+

lemma dq_reserve_ok:
  assumes inv: "queue_inv SL slab_ok E Q w"
  shows "dq_reserve SL map_reserve n Q = Inr Q' \<Longrightarrow> queue_inv SL slab_ok E Q' w \<and> entries SL Q' = entries SL Q \<and>
      dq_start Q' = dq_start Q \<and> unat (dq_len SL Q) + unat n \<le> unat (dq_capacity SL Q')"
    and "dq_reserve SL map_reserve n Q = Inl e \<Longrightarrow> e = Capacity_Overflow \<and>
      (unat (dq_capacity SL Q) < unat (dq_len SL Q) + unat n \<or>
       st_compact_called (dq_slab Q) \<and> \<not> map_reserve (card (dom (st_key_map (dq_slab Q)))) n)"
proof -
  note r = storage_reserve_ok [OF queue_inv_storage [OF inv], of map_reserve n]
  show "queue_inv SL slab_ok E Q' w \<and> entries SL Q' = entries SL Q \<and> dq_start Q' = dq_start Q \<and>
      unat (dq_len SL Q) + unat n \<le> unat (dq_capacity SL Q')" if q: "dq_reserve SL map_reserve n Q = Inr Q'"
  proof -
    obtain S where S: "storage_reserve SL map_reserve (dq_slab Q) n = Inr S" "Q' = Q\<lparr>dq_slab := S\<rparr>"
      using q by (auto simp: dq_reserve_def rbind_Inr_iff)
    show ?thesis using dq_slab_op_ok [OF inv, of S] r(1) [OF S(1)] by (simp add: S(2) dq_len_def dq_capacity_def)
  qed
  show "e = Capacity_Overflow \<and> (unat (dq_capacity SL Q) < unat (dq_len SL Q) + unat n \<or>
      st_compact_called (dq_slab Q) \<and> \<not> map_reserve (card (dom (st_key_map (dq_slab Q)))) n)"
    if "dq_reserve SL map_reserve n Q = Inl e"
    using that r(2) by (auto simp: dq_reserve_def dq_len_def dq_capacity_def rbind_def split: sum.splits)
qed

lemma dq_clear_ok:
  assumes inv: "queue_inv SL slab_ok E Q w"
  shows "queue_inv SL slab_ok E (dq_clear b SL Q) w" "entries SL (dq_clear b SL Q) = Map.empty"
proof -
  note c = storage_clear_ok [OF queue_inv_storage [OF inv]]
  show e: "entries SL (dq_clear b SL Q) = Map.empty"
    by (simp add: fun_eq_iff entries_def dq_clear_def c(2))
  have "holds_keys SL slab_ok (dq_clear b SL Q) {}"
    using parts_empty [OF c(1)] unfolding holds_keys_def dq_clear_def by force
  moreover have "times_ok E (dq_clear b SL Q) w"
    using queue_invD(2) [OF inv] by (simp add: times_ok_def dq_clear_def at_ms_def wheel_new_def)
  ultimately show "queue_inv SL slab_ok E (dq_clear b SL Q) w" using e by (simp add: queue_inv_def)
qed

lemma queue_inv_later:
  "env_ok E \<Longrightarrow> queue_inv SL slab_ok E Q w \<Longrightarrow> wd_tick w \<le> wd_tick w' \<Longrightarrow> queue_inv SL slab_ok E Q w'"
  using times_ok_later [of E Q w w'] by (simp add: queue_inv_def)

lemma dq_is_empty_ok: "queue_inv SL slab_ok E Q w \<Longrightarrow> dq_is_empty SL Q \<longleftrightarrow> entries SL Q = Map.empty"
  using storage_is_empty_ok [OF queue_inv_storage, of E Q w]
  by (simp add: dq_is_empty_def entries_def fun_eq_iff)

lemma dq_len_ok: "queue_inv SL slab_ok E Q w \<Longrightarrow> unat (dq_len SL Q) = card (dom (entries SL Q))"
  using storage_len_ok [OF queue_inv_storage, of E Q w] by (simp add: dq_len_def dom_entries)

end

section \<open>Reachable states\<close>

inductive dq_reach ::
  "build \<Rightarrow> ('slab, 't data) slab_ops \<Rightarrow> env \<Rightarrow> 'slab delay_queue \<Rightarrow> world \<Rightarrow> bool"
  for b SL E where
  start: "dq_with_capacity b SL E c w = (Q, w') \<Longrightarrow> dq_reach b SL E Q w'"
| time: "dq_reach b SL E Q w \<Longrightarrow> wd_tick w \<le> wd_tick w' \<Longrightarrow> dq_reach b SL E Q w'"
| insert_at: "dq_reach b SL E Q w \<Longrightarrow> insert_at b SL E v i Q w = Inr (k, Q', w') \<Longrightarrow> dq_reach b SL E Q' w'"
| insert: "dq_reach b SL E Q w \<Longrightarrow> dq_insert b SL E v timeout Q w = Inr (k, Q', w') \<Longrightarrow> dq_reach b SL E Q' w'"
| remove: "dq_reach b SL E Q w \<Longrightarrow> dq_remove b SL E k Q w = Inr (x, Q', w') \<Longrightarrow> dq_reach b SL E Q' w'"
| reset_at: "dq_reach b SL E Q w \<Longrightarrow> reset_at b SL E k i Q w = Inr (Q', w') \<Longrightarrow> dq_reach b SL E Q' w'"
| reset: "dq_reach b SL E Q w \<Longrightarrow> dq_reset b SL E k timeout Q w = Inr (Q', w') \<Longrightarrow> dq_reach b SL E Q' w'"
| poll: "dq_reach b SL E Q w \<Longrightarrow> poll_expired b SL E cx Q w = Inr (r, Q', w') \<Longrightarrow> dq_reach b SL E Q' w'"
| compact: "dq_reach b SL E Q w \<Longrightarrow> dq_reach b SL E (dq_compact SL Q) w"
| shrink: "dq_reach b SL E Q w \<Longrightarrow> dq_reach b SL E (dq_shrink_to_fit SL Q) w"
| reserve: "dq_reach b SL E Q w \<Longrightarrow> dq_reserve SL map_reserve n Q = Inr Q' \<Longrightarrow> dq_reach b SL E Q' w"
| clear: "dq_reach b SL E Q w \<Longrightarrow> dq_reach b SL E (dq_clear b SL Q) w"

context queue_slab
begin

lemma insert_at_Inr:
  assumes E: "env_ok E" and inv: "queue_inv SL slab_ok E Q w"
    and r: "insert_at b SL E v i Q w = Inr (k, Q', w')"
  shows "queue_inv SL slab_ok E Q' w' \<and> dq_start Q' = dq_start Q"
proof -
  have room: "dq_len SL Q < MAX_ENTRIES"
    using insert_at_error(1) [OF E inv refl, where b = b and v = v and i = i] r by auto
  have block: "same_block Q (normalize_deadline Q i)"
    using insert_at_error(2) [OF E inv refl room, where b = b and v = v and i = i] r by auto
  from insert_at_ok [OF E inv room block, of b v] r show ?thesis by auto
qed

lemma reset_at_Inr:
  assumes E: "env_ok E" and inv: "queue_inv SL slab_ok E Q w"
    and r: "reset_at b SL E k i Q w = Inr (Q', w')"
  shows "queue_inv SL slab_ok E Q' w' \<and> dq_start Q' = dq_start Q"
proof (cases "entries SL Q k")
  case None
  then show ?thesis using reset_at_error [OF inv None, where b = b and i = i] r by auto
next
  case (Some p)
  obtain v t where p: "p = (v, t)" by (cases p)
  have block: "same_block Q (normalize_deadline Q i)"
    using reset_at_outside [OF E inv Some [unfolded p] refl, where b = b and i = i] r by auto
  from reset_at_ok [OF E inv Some [unfolded p] block, of b] r show ?thesis by auto
qed

lemma dq_remove_Inr:
  assumes E: "env_ok E" and inv: "queue_inv SL slab_ok E Q w"
    and r: "dq_remove b SL E k Q w = Inr (x, Q', w')"
  shows "queue_inv SL slab_ok E Q' w' \<and> dq_start Q' = dq_start Q"
proof (cases "entries SL Q k")
  case None
  then show ?thesis using dq_remove_error [OF E inv None, of b] r by auto
next
  case (Some p)
  obtain v t where p: "p = (v, t)" by (cases p)
  from dq_remove_ok [OF E inv Some [unfolded p], of b] r show ?thesis by auto
qed

lemma reach_inv:
  assumes E: "env_ok E" and r: "dq_reach b SL E Q w"
  shows "queue_inv SL slab_ok E Q w \<and> env_clock E 0 \<le> dq_start Q"
  using r
proof (induction rule: dq_reach.induct)
  case (start c w Q w')
  then show ?case
    using dq_with_capacity_ok [OF E, of b c w] env_ok_mono [OF E, of 0 "wd_tick w"] by simp
next
  case (time Q w w')
  then show ?case using queue_inv_later [OF E] by blast
next
  case (insert_at Q w v i k Q' w')
  then show ?case using insert_at_Inr [OF E] by metis
next
  case (insert Q w v timeout k Q' w')
  let ?w = "w\<lparr>wd_tick := Suc (wd_tick w)\<rparr>"
  have inv: "queue_inv SL slab_ok E Q ?w" using insert queue_inv_later [OF E, of Q w ?w] by simp
  obtain t where "insert_at b SL E v t Q ?w = Inr (k, Q', w')"
    using insert(2) by (auto simp: dq_insert_def instant_now_def)
  from insert_at_Inr [OF E inv this] insert.IH show ?case by simp
next
  case (remove Q w k x Q' w')
  then show ?case using dq_remove_Inr [OF E] by metis
next
  case (reset_at Q w k i Q' w')
  then show ?case using reset_at_Inr [OF E] by metis
next
  case (reset Q w k timeout Q' w')
  let ?w = "w\<lparr>wd_tick := Suc (wd_tick w)\<rparr>"
  have inv: "queue_inv SL slab_ok E Q ?w" using reset queue_inv_later [OF E, of Q w ?w] by simp
  obtain t where "reset_at b SL E k t Q ?w = Inr (Q', w')"
    using reset(2) by (auto simp: dq_reset_def instant_now_def)
  from reset_at_Inr [OF E inv this] reset.IH show ?case by simp
next
  case (poll Q w cx r Q' w')
  then show ?case using poll_expired_ok [OF E _, of Q w b cx] by fastforce
next
  case (compact Q w)
  then show ?case using dq_compact_ok by (simp add: dq_compact_def)
next
  case (shrink Q w)
  then show ?case using dq_shrink_ok by (simp add: dq_shrink_to_fit_def)
next
  case (reserve Q w map_reserve n Q')
  then show ?case using dq_reserve_ok(1) by metis
next
  case (clear Q w)
  then show ?case using dq_clear_ok by (simp add: dq_clear_def)
qed

end

end
