(* ===== verification/Example.thy ===== *)
theory Example
  imports Queue_Runs
begin

text \<open>
  A concrete surrounding of the delay queue, in which the properties are applied: a clock that
  moves on by a millisecond at every reading and stops after an hour, a host that
  wakes a delay as soon as it may, and a queue with one entry that is due after
  five milliseconds.
\<close>

definition demo_env :: env where
  "demo_env = \<lparr>env_clock = \<lambda>n. Instant (Duration (min n 3600000 * 1000000)),
     env_woken = \<lambda>n e. (case e of
        Registered i m \<Rightarrow> nanos (std i) + unat m * 1000000 \<le> min n 3600000 * 1000000
      | Immediate _ \<Rightarrow> False)\<rparr>"

definition demo_world :: world where
  "demo_world = \<lparr>wd_tick = 0, wd_wakes = []\<rparr>"

definition demo_queue :: "nat data vec_slab delay_queue" where
  "demo_queue = fst (dq_new Release vec_slab demo_env demo_world)"

definition demo_at :: "nat \<Rightarrow> instant" where
  "demo_at m = Instant (Duration (m * 1000000))"

lemma demo_env_ok: "env_ok demo_env"
  by (simp add: env_ok_def demo_env_def mono_def instant_le_nat NANOS_PER_SEC_def mult_le_mono1 min.coboundedI1 min.strict_coboundedI2)

lemma demo_clock: "n \<le> 3600000 \<Longrightarrow> env_clock demo_env n = demo_at n"
  by (simp add: demo_env_def demo_at_def)

lemma demo_queue_inv: "queue_inv vec_slab vec_ok demo_env demo_queue \<lparr>wd_tick = 1, wd_wakes = []\<rparr>"
  and demo_queue_empty: "entries vec_slab demo_queue = Map.empty"
  and demo_queue_start: "dq_start demo_queue = demo_at 0"
  using vec_queue.dq_with_capacity_ok [OF demo_env_ok, of Release 0 demo_world] demo_clock [of 0]
  by (simp_all add: demo_queue_def dq_new_def dq_with_capacity_def instant_now_def demo_world_def)

lemma demo_queue_reach: "dq_reach Release vec_slab demo_env demo_queue \<lparr>wd_tick = 1, wd_wakes = []\<rparr>"
  by (rule dq_reach.start [of _ _ _ 0 demo_world])
    (simp add: demo_queue_def dq_new_def dq_with_capacity_def instant_now_def demo_world_def)

lemma demo_queue_sel: "dq_waker demo_queue = None" "dq_delay demo_queue = None"
  "wh_elapsed (dq_wheel demo_queue) = 0" "dq_wheel_now demo_queue = 0"
  by (simp_all add: demo_queue_def dq_new_def dq_with_capacity_def instant_now_def wheel_new_def)

lemma demo_normalize: "m < 2 ^ 40 \<Longrightarrow> normalize_deadline demo_queue (demo_at m) = of_nat m"
  using unat_normalize [of "demo_at m" demo_queue]
  by (simp add: word_unat_eq_iff valid_instant_def demo_at_def duration_bound_def NANOS_PER_SEC_def
      demo_queue_start demo_queue_sel unat_of_nat)

lemma demo_len: "dq_len vec_slab demo_queue < MAX_ENTRIES"
  using vec_queue.dq_len_ok [OF demo_queue_inv] vec.MAX_ENTRIES_nat
  by (simp add: demo_queue_empty word_less_nat_alt)

lemma demo_block: "m < 2 ^ 36 \<Longrightarrow> same_block demo_queue (normalize_deadline demo_queue (demo_at m))"
  by (simp add: demo_normalize same_block_def demo_queue_sel unat_of_nat)

text \<open>The queue with one entry, when a number of milliseconds have passed.\<close>

lemma demo_inserted:
  obtains Q w k where "queue_inv vec_slab vec_ok demo_env Q w" "entries vec_slab Q = [k \<mapsto> (7::nat, 5)]"
    "dq_start Q = demo_at 0" "wh_elapsed (dq_wheel Q) = 0" "n \<le> wd_tick w"
    "\<exists>s. dq_delay Q = Some s \<and> sl_deadline s \<le> demo_at 5" "dq_reach Release vec_slab demo_env Q w"
proof -
  let ?w = "\<lparr>wd_tick = 1, wd_wakes = []\<rparr>"
  obtain k Q w where r: "insert_at Release vec_slab demo_env 7 (demo_at 5) demo_queue ?w = Inr (k, Q, w)"
    "queue_inv vec_slab vec_ok demo_env Q w"
    "entries vec_slab Q = (entries vec_slab demo_queue)(k \<mapsto> (7, normalize_deadline demo_queue (demo_at 5)))"
    "dq_start Q = dq_start demo_queue" "wh_elapsed (dq_wheel Q) = wh_elapsed (dq_wheel demo_queue)"
    "\<exists>s. dq_delay Q = Some s \<and> sl_deadline s \<le> at_ms demo_queue (normalize_deadline demo_queue (demo_at 5))"
    using vec_queue.insert_at_ok [OF demo_env_ok demo_queue_inv demo_len demo_block, of 5 Release 7] by auto
  have five: "normalize_deadline demo_queue (demo_at 5) = 5" using demo_normalize [of 5] by simp
  let ?w' = "w\<lparr>wd_tick := max n (wd_tick w)\<rparr>"
  have "dq_reach Release vec_slab demo_env Q w" by (rule dq_reach.insert_at [OF demo_queue_reach r(1)])
  then have reach: "dq_reach Release vec_slab demo_env Q ?w'" by (rule dq_reach.time) simp
  show thesis
    by (rule that [of Q ?w' k])
      (use r five reach demo_queue_start demo_queue_empty demo_queue_sel vec_queue.queue_inv_later [OF demo_env_ok r(2), of ?w']
        in \<open>simp_all add: at_ms_def demo_at_def\<close>)
qed

text \<open>A wheel over the queue's linked stacks, with one entry that is due after five milliseconds.\<close>

abbreviation demo_wheel_inv :: "nat data vec_slab storage \<Rightarrow> stack wheel \<Rightarrow> key set \<Rightarrow> bool" where
  "demo_wheel_inv \<equiv> stack_contract.wheel_inv (stack_repr vec_slab vec_ok) (\<lambda>st. contents (stored vec_slab st)) due_of"

lemma demo_item:
  obtains S k where "storage_inv vec_slab vec_ok S" "stack_loose vec_slab S k"
    "stored vec_slab S = [k \<mapsto> \<lparr>data_inner = 7::nat, data_when = 5, data_expired = False, data_next = None, data_prev = None\<rparr>]"
proof -
  let ?S = "storage_with_capacity vec_slab 0 :: nat data vec_slab storage"
  let ?d = "\<lparr>data_inner = 7::nat, data_when = 5, data_expired = False, data_next = None, data_prev = None\<rparr>"
  have i: "storage_inv vec_slab vec_ok ?S" and e: "stored vec_slab ?S = Map.empty" by (rule vec.storage_new_ok)+
  have "storage_len vec_slab ?S < MAX_ENTRIES"
    using vec.storage_len_ok [OF i] vec.MAX_ENTRIES_nat by (simp add: e word_less_nat_alt)
  from vec.storage_insert_ok [OF i this, of ?d] obtain k S where s: "storage_inv vec_slab vec_ok S"
    "stored vec_slab S = [k \<mapsto> ?d]" by (auto simp: e)
  then have "stack_loose vec_slab S k" by (simp add: stack_loose_def)
  then show thesis using s by (intro that)
qed

lemma demo_wheel:
  obtains S W k where "demo_wheel_inv S W {k}" "wh_elapsed W = 0"
    "due_of (contents (stored vec_slab S)) k = 5"
proof -
  obtain S k where S: "storage_inv vec_slab vec_ok S" "stack_loose vec_slab S k"
    "stored vec_slab S = [k \<mapsto> \<lparr>data_inner = 7::nat, data_when = 5, data_expired = False, data_next = None, data_prev = None\<rparr>]"
    by (rule demo_item)
  let ?W = "wheel_new (queue_stack Release vec_slab :: (stack, key, nat data vec_slab storage) stack_ops)"
  have inv: "demo_wheel_inv S ?W {}" by (rule vec_queue.stk.wheel_new_inv [OF S(1)])
  have due: "due_of (contents (stored vec_slab S)) k = 5" using S(3) by (simp add: due_of_stored)
  obtain W S' where W: "demo_wheel_inv S' W {k}" "wh_elapsed W = wh_elapsed ?W"
    "frame (stack_repr vec_slab vec_ok) (stack_loose vec_slab) (\<lambda>st. contents (stored vec_slab st)) S S' {k}"
    using vec_queue.stk.wheel_insert_ok [OF inv S(2) _ due, of Release Release] by (auto simp: wheel_new_def)
  have "due_of (contents (stored vec_slab S')) k = 5" using frame_core [OF W(3)] due by simp
  then show thesis by (intro that [of S' W k]) (use W in \<open>simp_all add: wheel_new_def\<close>)
qed

end
