(* ===== verification/Queue_Spec.thy ===== *)
theory Queue_Spec
  imports Example
begin

text \<open>
  The properties of the delay queue, for every slab that keeps its contract, every surrounding
  that is documented behaviour, and both builds. Each is followed by its application to the
  queue of the example.
\<close>

lemma queue_slabI: "slab_contract SL ok \<Longrightarrow> queue_slab SL ok"
  by (rule queue_slab.intro)

text \<open>C1: Every state of the queue that its operations can reach, from a new queue and with time
  passing in between, satisfies the invariant: every entry is in the wheel or on the stack of expired
  entries, linked as its list says, on the level and in the slot of its due time, and the
  queue's sleep and clock agree with the wheel.\<close>

theorem reachable_queue_inv:
  assumes "slab_contract SL ok" "env_ok E" "dq_reach b SL E Q w"
  shows "queue_inv SL ok E Q w"
  using queue_slab.reach_inv [OF queue_slabI assms(2,3)] assms(1) by blast

lemma reachable_queue_inv_witness:
  "\<exists>Q w k. dq_reach Release vec_slab demo_env Q w \<and> entries vec_slab Q = [k \<mapsto> (7::nat, 5)] \<and>
     queue_inv vec_slab vec_ok demo_env Q w"
proof (rule demo_inserted [of 0])
  fix Q w k
  assume "dq_reach Release vec_slab demo_env Q w" "entries vec_slab Q = [k \<mapsto> (7::nat, 5)]"
  then show ?thesis
    using reachable_queue_inv [OF vec.slab_contract_axioms demo_env_ok, of Release Q w] by auto
qed

text \<open>C2: A poll of the queue always returns, without a panic: its loop ends. What it hands out
  is the entry that is due first, with the deadline it was stored with, the entry is then gone and nothing else
  changed, and its deadline is less than a millisecond ahead of the clock; it reports the end
  only of an empty queue, and a poll that is pending changes no entry and has left a
  sleep that has not elapsed. The waker of the poll is kept in every case.\<close>

theorem poll_expired_correct:
  assumes "slab_contract SL ok" "env_ok E" "queue_inv SL ok E Q w"
  shows "\<exists>r Q' w'. poll_expired b SL E cx Q w = Inr (r, Q', w') \<and> queue_inv SL ok E Q' w' \<and>
    dq_waker Q' = Some cx \<and> wd_wakes w' = wd_wakes w \<and>
    (case r of
       Pending \<Rightarrow> entries SL Q' = entries SL Q \<and>
         (\<exists>s. dq_delay Q' = Some s \<and> env_clock E (wd_tick w) \<le> sl_deadline s)
     | Ready None \<Rightarrow> entries SL Q = Map.empty \<and> entries SL Q' = Map.empty
     | Ready (Some x) \<Rightarrow>
         (\<exists>t. entries SL Q (exp_key x) = Some (exp_data x, t) \<and> exp_deadline x = at_ms Q t \<and>
            (\<forall>k v u. entries SL Q k = Some (v, u) \<longrightarrow> t \<le> u)) \<and>
         entries SL Q' = (entries SL Q)(exp_key x := None) \<and>
         nanos (std (exp_deadline x)) < nanos (std (env_clock E (wd_tick w'))) + 1000000)"
proof -
  note q = queue_slabI [OF assms(1)]
  obtain r Q' w' where p: "poll_expired b SL E cx Q w = Inr (r, Q', w')" "queue_inv SL ok E Q' w'"
    "dq_waker Q' = Some cx" "wd_wakes w' = wd_wakes w" "queue_slab.poll_post SL E Q w r Q' w'"
    using queue_slab.poll_expired_ok [OF q assms(2,3)] by blast
  show ?thesis
    by (rule exI [of _ r], rule exI [of _ Q'], rule exI [of _ w'])
      (use p in \<open>auto simp: queue_slab.poll_post_def [OF q] queue_slab.waits_def [OF q] split: poll.splits option.splits\<close>)
qed

lemma poll_expired_correct_witness:
  "\<exists>Q w r Q' w'. queue_inv vec_slab vec_ok demo_env Q w \<and> (\<exists>k. entries vec_slab Q = [k \<mapsto> (7::nat, 5)]) \<and>
     poll_expired Release vec_slab demo_env 3 Q w = Inr (r, Q', w') \<and> dq_waker Q' = Some 3"
proof (rule demo_inserted [of 0])
  fix Q w k
  assume "queue_inv vec_slab vec_ok demo_env Q w" "entries vec_slab Q = [k \<mapsto> (7::nat, 5)]"
  then show ?thesis
    using poll_expired_correct [OF vec.slab_contract_axioms demo_env_ok, of Q w Release 3] by simp blast
qed

text \<open>C7: Nothing expired is withheld: when the deadline of an entry has passed and the sleep of
  the queue does not end after that deadline, a poll hands out an entry.\<close>

theorem poll_expired_delivers:
  assumes "slab_contract SL ok" "env_ok E" "queue_inv SL ok E Q w"
    and "entries SL Q k = Some (v, t)" "at_ms Q t < env_clock E (wd_tick w)"
    and "\<And>s. dq_delay Q = Some s \<Longrightarrow> sl_deadline s \<le> at_ms Q t"
  shows "\<exists>x Q' w'. poll_expired b SL E cx Q w = Inr (Ready (Some x), Q', w')"
  using queue_slab.poll_live [OF queue_slabI assms(2-6)] assms(1) by blast

lemma poll_expired_delivers_witness:
  "\<exists>Q w k. entries vec_slab Q = [k \<mapsto> (7::nat, 5)] \<and>
     (\<exists>x Q' w'. poll_expired Release vec_slab demo_env 3 Q w = Inr (Ready (Some x), Q', w'))"
proof (rule demo_inserted [of 6])
  fix Q w k
  assume q: "queue_inv vec_slab vec_ok demo_env Q w" "entries vec_slab Q = [k \<mapsto> (7::nat, 5)]"
    "dq_start Q = demo_at 0" "6 \<le> wd_tick w" "\<exists>s. dq_delay Q = Some s \<and> sl_deadline s \<le> demo_at 5"
  have five: "at_ms Q 5 = demo_at 5" using q(3) by (simp add: at_ms_def demo_at_def)
  have "demo_at 5 < demo_at 6" by (simp add: instant_less_nat demo_at_def)
  also have "demo_at 6 \<le> env_clock demo_env (wd_tick w)"
    using env_ok_mono [OF demo_env_ok q(4)] demo_clock [of 6] by simp
  finally have "at_ms Q 5 < env_clock demo_env (wd_tick w)" by (simp only: five)
  then have "\<exists>x Q' w'. poll_expired Release vec_slab demo_env 3 Q w = Inr (Ready (Some x), Q', w')"
    using poll_expired_delivers [OF vec.slab_contract_axioms demo_env_ok q(1), of k 7 5 Release 3] q five by auto
  then show ?thesis using q(2) by blast
qed

text \<open>C11: Inserting a value, when there is room and the deadline lies in the present block of
  \<open>2^36\<close> milliseconds, succeeds under a key that named no entry. It adds exactly that entry, due at the
  normalized deadline; the queue then sleeps no longer than until that deadline; and a task
  that polled the queue before is woken exactly if the new deadline is before the
  one the queue slept for, or the queue had no sleep.\<close>

theorem insert_at_correct:
  assumes "slab_contract SL ok" "env_ok E" "queue_inv SL ok E Q w"
    and "dq_len SL Q < MAX_ENTRIES" "same_block Q (normalize_deadline Q i)"
  shows "\<exists>k Q' w'. insert_at b SL E v i Q w = Inr (k, Q', w') \<and> queue_inv SL ok E Q' w' \<and>
    entries SL Q k = None \<and> entries SL Q' = (entries SL Q)(k \<mapsto> (v, normalize_deadline Q i)) \<and>
    (\<exists>s. dq_delay Q' = Some s \<and> sl_deadline s \<le> at_ms Q (normalize_deadline Q i)) \<and>
    wd_wakes w' = wd_wakes w @
      (if before_delay Q (normalize_deadline Q i)
       then (case dq_waker Q of Some k \<Rightarrow> [k] | None \<Rightarrow> []) else [])"
  using queue_slab.insert_at_ok [OF queue_slabI [OF assms(1)] assms(2-5), of b v] by blast

lemma insert_at_correct_witness:
  "\<exists>k Q w. insert_at Debug vec_slab demo_env 7 (demo_at 5) demo_queue \<lparr>wd_tick = 1, wd_wakes = []\<rparr> = Inr (k, Q, w) \<and>
     entries vec_slab Q = [k \<mapsto> (7::nat, 5)]"
  using insert_at_correct [OF vec.slab_contract_axioms demo_env_ok demo_queue_inv demo_len demo_block, of 5 Debug 7]
    demo_normalize [of 5]
  by (auto simp: demo_queue_start demo_queue_empty)

text \<open>C35: Inserting fails in exactly the other cases, always by a panic: a full queue is refused;
  a deadline outside the present block is refused as invalid when it is more than
  \<open>2^36 - 1\<close> milliseconds ahead, and otherwise, although it is within the documented range of
  the wheel, indexes the array of levels out of its bounds.\<close>

theorem insert_at_fails:
  assumes "slab_contract SL ok" "env_ok E" "queue_inv SL ok E Q w"
    and "\<not> (dq_len SL Q < MAX_ENTRIES \<and> same_block Q (normalize_deadline Q i))"
  shows "insert_at b SL E v i Q w = Inl
    (if \<not> dq_len SL Q < MAX_ENTRIES then Max_Entries_Exceeded
     else if MAX_DURATION < normalize_deadline Q i - wh_elapsed (dq_wheel Q) then Invalid_Deadline
     else Index_Out_Of_Bounds)"
  using assms(4) queue_slab.insert_at_error [OF queue_slabI [OF assms(1)] assms(2,3) refl, where b = b and v = v and i = i]
  by auto

lemma demo_far: "\<not> same_block demo_queue (normalize_deadline demo_queue (demo_at (2 ^ 36)))"
  by (simp add: demo_normalize same_block_def demo_queue_sel unat_of_nat)

lemma insert_at_fails_witness:
  "insert_at Release vec_slab demo_env 7 (demo_at (2 ^ 36)) demo_queue \<lparr>wd_tick = 1, wd_wakes = []\<rparr> = Inl Invalid_Deadline"
proof -
  have "MAX_DURATION < (of_nat (2 ^ 36) :: u64)" by (simp add: word_less_nat_alt vec_queue.stk.unat_MAX_DURATION)
  then show ?thesis
    using insert_at_fails [OF vec.slab_contract_axioms demo_env_ok demo_queue_inv, of "demo_at (2 ^ 36)" Release 7]
      demo_far demo_len demo_normalize [of "2 ^ 36"]
    by (simp add: demo_queue_sel)
qed

text \<open>The deadline of an entry is the requested instant rounded up to a whole millisecond
  since the start of the queue, so never early and less than a millisecond late, unless the
  wheel has already passed it or it is beyond the range of \<open>u64\<close>.\<close>

theorem deadline_rounding:
  assumes "valid_instant i" "dq_start Q \<le> i" "at_ms Q (wh_elapsed (dq_wheel Q)) \<le> i"
    and "nanos (std i) \<le> nanos (std (dq_start Q)) + (2 ^ 64 - 2) * 1000000"
  shows "i \<le> at_ms Q (normalize_deadline Q i) \<and>
    nanos (std (at_ms Q (normalize_deadline Q i))) < nanos (std i) + 1000000"
proof -
  let ?s = "nanos (std (dq_start Q))" and ?e = "unat (wh_elapsed (dq_wheel Q))"
  obtain d where i: "nanos (std i) = ?s + d"
    using assms(2) by (auto simp: instant_le_nat le_iff_add)
  have e: "?e * 1000000 \<le> d" using assms(3) i by (simp add: at_ms_def instant_le_nat)
  have "(d + 999999) div 1000000 \<le> 2 ^ 64 - 1" using assms(4) i by linarith
  moreover have "?e \<le> (d + 999999) div 1000000" using e by linarith
  ultimately have n: "unat (normalize_deadline Q i) = (d + 999999) div 1000000"
    unfolding unat_normalize [OF assms(1)] using i by simp
  have "d \<le> (d + 999999) div 1000000 * 1000000 \<and> (d + 999999) div 1000000 * 1000000 < d + 1000000"
    using div_mult_mod_eq [of "d + 999999" 1000000] mod_less_divisor [of 1000000 "d + 999999"] by linarith
  then show ?thesis using i by (simp add: at_ms_def instant_le_nat n)
qed

lemma deadline_rounding_witness:
  "Instant (Duration 4000001) \<le> at_ms demo_queue (normalize_deadline demo_queue (Instant (Duration 4000001)))"
  using deadline_rounding [of "Instant (Duration 4000001)" demo_queue]
  by (simp add: valid_instant_def duration_bound_def NANOS_PER_SEC_def demo_queue_start demo_queue_sel
      demo_at_def at_ms_def instant_le_nat)

text \<open>C19: Removing an entry never panics. It returns the value and the deadline of exactly that
  entry, and every other entry stays as it is.\<close>

theorem remove_correct:
  assumes "slab_contract SL ok" "env_ok E" "queue_inv SL ok E Q w"
    and "entries SL Q k = Some (v, t)"
  shows "\<exists>Q' w'. dq_remove b SL E k Q w = Inr (\<lparr>exp_data = v, exp_deadline = at_ms Q t, exp_key = k\<rparr>, Q', w') \<and>
    queue_inv SL ok E Q' w' \<and> entries SL Q' = (entries SL Q)(k := None) \<and> dq_start Q' = dq_start Q"
  using queue_slab.dq_remove_ok [OF queue_slabI [OF assms(1)] assms(2-4)] by blast

lemma remove_correct_witness:
  "\<exists>Q w k x Q' w'. entries vec_slab Q = [k \<mapsto> (7::nat, 5)] \<and>
     dq_remove Release vec_slab demo_env k Q w = Inr (x, Q', w') \<and> exp_data x = 7 \<and>
     entries vec_slab Q' = Map.empty"
proof (rule demo_inserted [of 0])
  fix Q w k
  assume q: "queue_inv vec_slab vec_ok demo_env Q w" "entries vec_slab Q = [k \<mapsto> (7::nat, 5)]"
  obtain x Q' w' where "dq_remove Release vec_slab demo_env k Q w = Inr (x, Q', w')" "exp_data x = 7"
    "entries vec_slab Q' = Map.empty"
    using remove_correct [OF vec.slab_contract_axioms demo_env_ok q(1), of k 7 5 Release] q(2) by auto
  then show ?thesis using q(2) by blast
qed

text \<open>C36: A key that names no entry, because it was never given out or its entry was
  removed or has expired, is detected by \<open>remove\<close>, \<open>reset_at\<close> and
  \<open>reset\<close>: each panics on the key, \<open>reset\<close> only when the time now and the timeout
  add up to an instant; when they do not, that is the panic.\<close>

theorem unknown_key_panics:
  assumes "slab_contract SL ok" "env_ok E" "queue_inv SL ok E Q w"
    and "entries SL Q k = None"
  shows "(\<exists>e. dq_remove b SL E k Q w = Inl e \<and> (e = Invalid_Index (key_index k) \<or> (\<exists>j. e = Slab_Invalid_Key j))) \<and>
    (\<exists>e. reset_at b SL E k i Q w = Inl e \<and> (e = Invalid_Index (key_index k) \<or> (\<exists>j. e = Slab_Invalid_Key j))) \<and>
    (\<exists>e. dq_reset b SL E k timeout Q w = Inl e \<and>
      (case instant_add (env_clock E (wd_tick w)) timeout of
         Inl overflow \<Rightarrow> e = overflow
       | Inr _ \<Rightarrow> e = Invalid_Index (key_index k) \<or> (\<exists>j. e = Slab_Invalid_Key j)))"
proof -
  note q = queue_slabI [OF assms(1)]
  have "\<exists>e. dq_reset b SL E k timeout Q w = Inl e \<and>
      (case instant_add (env_clock E (wd_tick w)) timeout of
         Inl overflow \<Rightarrow> e = overflow
       | Inr _ \<Rightarrow> e = Invalid_Index (key_index k) \<or> (\<exists>j. e = Slab_Invalid_Key j))"
    using queue_slab.remove_key_error [OF q assms(3,4), of b]
    by (cases "instant_add (env_clock E (wd_tick w)) timeout") (auto simp: dq_reset_def instant_now_def reset_at_def)
  then show ?thesis
    using queue_slab.dq_remove_error [OF q assms(2-4), of b] queue_slab.reset_at_error [OF q assms(3,4), of b i] by blast
qed

lemma unknown_key_panics_witness:
  "\<exists>e. dq_remove Release vec_slab demo_env (Key 9) demo_queue \<lparr>wd_tick = 1, wd_wakes = []\<rparr> = Inl e"
  using unknown_key_panics [OF vec.slab_contract_axioms demo_env_ok demo_queue_inv, of "Key 9" Release]
  by (auto simp: demo_queue_empty)

text \<open>C20: Resetting an entry within the present block succeeds and changes when that entry
  is due and nothing else; no task is woken by it, in any case.\<close>

theorem reset_at_correct:
  assumes "slab_contract SL ok" "env_ok E" "queue_inv SL ok E Q w"
    and "entries SL Q k = Some (v, t)" "same_block Q (normalize_deadline Q i)"
  shows "\<exists>Q' w'. reset_at b SL E k i Q w = Inr (Q', w') \<and> queue_inv SL ok E Q' w' \<and>
    entries SL Q' = (entries SL Q)(k \<mapsto> (v, normalize_deadline Q i)) \<and> dq_start Q' = dq_start Q \<and>
    wd_wakes w' = wd_wakes w"
  using queue_slab.reset_at_ok [OF queue_slabI [OF assms(1)] assms(2-5)] by blast

lemma reset_at_correct_witness:
  "\<exists>Q w k Q' w'. entries vec_slab Q = [k \<mapsto> (7::nat, 5)] \<and>
     reset_at Release vec_slab demo_env k (demo_at 9) Q w = Inr (Q', w') \<and> wd_wakes w' = wd_wakes w"
proof (rule demo_inserted [of 0])
  fix Q w k
  assume q: "queue_inv vec_slab vec_ok demo_env Q w" "entries vec_slab Q = [k \<mapsto> (7::nat, 5)]"
    "dq_start Q = demo_at 0" "wh_elapsed (dq_wheel Q) = 0"
  have "normalize_deadline Q (demo_at 9) = normalize_deadline demo_queue (demo_at 9)"
    by (rule normalize_cong) (simp_all add: q demo_queue_start demo_queue_sel)
  then have "same_block Q (normalize_deadline Q (demo_at 9))"
    by (simp add: same_block_def q demo_normalize)
  then obtain Q' w' where "reset_at Release vec_slab demo_env k (demo_at 9) Q w = Inr (Q', w')" "wd_wakes w' = wd_wakes w"
    using reset_at_correct [OF vec.slab_contract_axioms demo_env_ok q(1), of k 7 5 "demo_at 9" Release] q(2,3) by auto
  then show ?thesis using q(2) by blast
qed

text \<open>Resetting an entry to a deadline outside the present block panics, after the entry was
  taken out of the wheel: as invalid when it is too far, else on an index out of bounds.\<close>

theorem reset_at_outside_panics:
  assumes "slab_contract SL ok" "env_ok E" "queue_inv SL ok E Q w"
    and "entries SL Q k = Some (v, t)" "\<not> same_block Q (normalize_deadline Q i)"
  shows "reset_at b SL E k i Q w = Inl
    (if MAX_DURATION < normalize_deadline Q i - wh_elapsed (dq_wheel Q) then Invalid_Deadline else Index_Out_Of_Bounds)"
  by (rule queue_slab.reset_at_outside [OF queue_slabI [OF assms(1)] assms(2-4) refl assms(5)])

lemma reset_at_outside_panics_witness:
  "\<exists>Q w k e. entries vec_slab Q = [k \<mapsto> (7::nat, 5)] \<and>
     reset_at Release vec_slab demo_env k (demo_at (2 ^ 36)) Q w = Inl e"
proof (rule demo_inserted [of 0])
  fix Q w k
  assume q: "queue_inv vec_slab vec_ok demo_env Q w" "entries vec_slab Q = [k \<mapsto> (7::nat, 5)]"
    "dq_start Q = demo_at 0" "wh_elapsed (dq_wheel Q) = 0"
  have "normalize_deadline Q (demo_at (2 ^ 36)) = normalize_deadline demo_queue (demo_at (2 ^ 36))"
    by (rule normalize_cong) (simp_all add: q demo_queue_start demo_queue_sel)
  then have "\<not> same_block Q (normalize_deadline Q (demo_at (2 ^ 36)))"
    using demo_far by (simp add: same_block_def q demo_queue_sel)
  then have "\<exists>e. reset_at Release vec_slab demo_env k (demo_at (2 ^ 36)) Q w = Inl e"
    using reset_at_outside_panics [OF vec.slab_contract_axioms demo_env_ok q(1), of k 7 5 "demo_at (2 ^ 36)" Release]
      q(2,3) by auto
  then show ?thesis using q(2) by blast
qed

text \<open>C28: \<open>compact\<close> and \<open>shrink_to_fit\<close> change no entry: every key that was given
  out keeps its value and its deadline, although compaction moves the entries in the slab. \<open>reserve\<close> either
  panics on the capacity, which it does only when the slab has no room for so many more or
  the map of keys that a compaction leaves behind cannot grow; or it changes no entry, and there is room.\<close>

theorem compact_keeps_entries:
  assumes "slab_contract SL ok" "queue_inv SL ok E Q w"
  shows "queue_inv SL ok E (dq_compact SL Q) w \<and> entries SL (dq_compact SL Q) = entries SL Q \<and>
    queue_inv SL ok E (dq_shrink_to_fit SL Q) w \<and> entries SL (dq_shrink_to_fit SL Q) = entries SL Q \<and>
    (case dq_reserve SL map_reserve n Q of
       Inr Q' \<Rightarrow> queue_inv SL ok E Q' w \<and> entries SL Q' = entries SL Q \<and>
         unat (dq_len SL Q) + unat n \<le> unat (dq_capacity SL Q')
     | Inl e \<Rightarrow> e = Capacity_Overflow \<and>
         (unat (dq_capacity SL Q) < unat (dq_len SL Q) + unat n \<or>
          st_compact_called (dq_slab Q) \<and> \<not> map_reserve (card (dom (st_key_map (dq_slab Q)))) n))"
  using queue_slab.dq_compact_ok [OF queue_slabI [OF assms(1)] assms(2)]
    queue_slab.dq_shrink_ok [OF queue_slabI [OF assms(1)] assms(2)]
    queue_slab.dq_reserve_ok [OF queue_slabI [OF assms(1)] assms(2), of map_reserve n]
  by (cases "dq_reserve SL map_reserve n Q") simp_all

lemma compact_keeps_entries_witness:
  "\<exists>Q k. entries vec_slab Q = [k \<mapsto> (7::nat, 5)] \<and> entries vec_slab (dq_compact vec_slab Q) = [k \<mapsto> (7, 5)]"
proof (rule demo_inserted [of 0])
  fix Q w k
  assume q: "queue_inv vec_slab vec_ok demo_env Q w" "entries vec_slab Q = [k \<mapsto> (7::nat, 5)]"
  then show ?thesis using compact_keeps_entries [OF vec.slab_contract_axioms q(1)] by auto
qed

text \<open>\<open>clear\<close> leaves an empty queue that satisfies the invariant, \<open>is_empty\<close> says whether
  there is an entry and \<open>len\<close> counts the entries exactly.\<close>

theorem clear_and_length:
  assumes "slab_contract SL ok" "queue_inv SL ok E Q w"
  shows "queue_inv SL ok E (dq_clear b SL Q) w \<and> entries SL (dq_clear b SL Q) = Map.empty \<and>
    (dq_is_empty SL Q \<longleftrightarrow> entries SL Q = Map.empty) \<and> unat (dq_len SL Q) = card (dom (entries SL Q))"
  using queue_slab.dq_clear_ok [OF queue_slabI [OF assms(1)] assms(2)]
    queue_slab.dq_is_empty_ok [OF queue_slabI [OF assms(1)] assms(2)]
    queue_slab.dq_len_ok [OF queue_slabI [OF assms(1)] assms(2)] by blast

lemma clear_and_length_witness:
  "\<exists>Q k. entries vec_slab Q = [k \<mapsto> (7::nat, 5)] \<and> unat (dq_len vec_slab Q) = 1 \<and> \<not> dq_is_empty vec_slab Q \<and>
     entries vec_slab (dq_clear Release vec_slab Q) = Map.empty"
proof (rule demo_inserted [of 0])
  fix Q w k
  assume q: "queue_inv vec_slab vec_ok demo_env Q w" "entries vec_slab Q = [k \<mapsto> (7::nat, 5)]"
  then show ?thesis
    using clear_and_length [OF vec.slab_contract_axioms q(1), of Release] by (intro exI [of _ Q] exI [of _ k]) auto
qed

end
