(* ===== verification/Timer_Spec.thy ===== *)
theory Timer_Spec
  imports Example
begin

text \<open>
  The properties of the parts of the delay queue: the timer wheel over any stack that keeps the
  contract of the trait, the linked list that is the queue's stack, the storage behind
  the keys, durations and sleeps.
\<close>

text \<open>C12: Polling the wheel at a time that is not before the time elapsed always ends, without a
  panic or a failed assertion. It returns an entry that is due by then and due first,
  leaving exactly the others in the wheel, and it returns nothing only when no entry is due; the time
  elapsed never exceeds the time of the poll.\<close>

theorem wheel_poll_correct:
  assumes "stack_contract ops repr loose core due good" "stack_contract.wheel_inv repr core due st W X"
    and "wh_elapsed W \<le> now"
  shows "\<exists>r W' st'. wheel_poll b ops W now st = Inr (r, W', st') \<and>
    wh_elapsed W \<le> wh_elapsed W' \<and> wh_elapsed W' \<le> now \<and> core st' = core st \<and>
    (case r of
       None \<Rightarrow> stack_contract.wheel_inv repr core due st' W' X \<and> (\<forall>x\<in>X. now < due (core st) x)
     | Some x \<Rightarrow> x \<in> X \<and> due (core st) x \<le> now \<and> (\<forall>y\<in>X. due (core st) x \<le> due (core st) y) \<and>
         stack_contract.wheel_inv repr core due st' W' (X - {x}))"
proof -
  obtain r W' st' where r: "wheel_poll b ops W now st = Inr (r, W', st')"
    and p: "stack_contract.poll_result repr loose core due st W X now r W' st'"
    using stack_contract.wheel_poll_ok [OF assms] by blast
  show ?thesis
    by (rule exI [of _ r], rule exI [of _ W'], rule exI [of _ st'])
      (use r p in \<open>auto simp: stack_contract.poll_result_def [OF assms(1)] dest: frame_core split: option.splits\<close>)
qed

lemma wheel_poll_correct_witness:
  "\<exists>S W k W' S'. demo_wheel_inv S W {k} \<and> due_of (contents (stored vec_slab S)) k = 5 \<and>
     wheel_poll Release (queue_stack Release vec_slab) W 6 S = Inr (Some k, W', S')"
proof (rule demo_wheel)
  fix S W k
  assume w: "demo_wheel_inv S W {k}" "wh_elapsed W = 0" "due_of (contents (stored vec_slab S)) k = 5"
  obtain r W' S' where "wheel_poll Release (queue_stack Release vec_slab) W 6 S = Inr (r, W', S')" "r = Some k"
    using wheel_poll_correct [OF vec_queue.queue_stack_contract w(1), of 6 Release Release] w(2,3)
    by (auto split: option.splits)
  then show ?thesis using w by blast
qed

text \<open>C26: An entry that is later than the time elapsed and in the same block of \<open>2^36\<close>
  milliseconds is inserted into the wheel without a panic. Removing an entry, right then or after the wheel was polled at any
  later time, which may move entries down the levels and hands out one at most, finds it on the level computed from the
  time elapsed then, and leaves the others.\<close>

theorem wheel_insert_remove:
  assumes "stack_contract ops repr loose core due good" "stack_contract.wheel_inv repr core due st W X"
    and "loose st x" "x \<notin> X" "wh_elapsed W < due (core st) x"
    and "unat (wh_elapsed W) div 2 ^ 36 = unat (due (core st) x) div 2 ^ 36"
  shows "\<exists>W' st'. wheel_insert b ops W (due (core st) x) x st = Inr (Inr (), W', st') \<and>
    stack_contract.wheel_inv repr core due st' W' (insert x X) \<and> wh_elapsed W' = wh_elapsed W \<and> core st' = core st \<and>
    (\<forall>y\<in>insert x X. \<exists>W2 st2. wheel_remove b ops W' y st' = Inr (W2, st2) \<and>
       stack_contract.wheel_inv repr core due st2 W2 (insert x X - {y})) \<and>
    (\<forall>now\<ge>wh_elapsed W. case wheel_poll b ops W' now st' of
       Inl e \<Rightarrow> False
     | Inr (r, W1, st1) \<Rightarrow> \<forall>y \<in> insert x X - set_option r. \<exists>W2 st2. wheel_remove b ops W1 y st1 = Inr (W2, st2) \<and>
         stack_contract.wheel_inv repr core due st2 W2 (insert x X - set_option r - {y}))"
proof -
  obtain W' st' where w: "wheel_insert b ops W (due (core st) x) x st = Inr (Inr (), W', st')"
    "stack_contract.wheel_inv repr core due st' W' (insert x X)" "wh_elapsed W' = wh_elapsed W"
    "frame repr loose core st st' (insert x X)"
    using stack_contract.wheel_insert_ok [OF assms(1-4) refl assms(5-6)] by blast
  have remove: "\<forall>y\<in>Y. \<exists>W2 st2. wheel_remove b ops W1 y st1 = Inr (W2, st2) \<and>
      stack_contract.wheel_inv repr core due st2 W2 (Y - {y})" if "stack_contract.wheel_inv repr core due st1 W1 Y" for W1 st1 Y
    using stack_contract.wheel_remove_ok [OF assms(1) that] by blast
  have "case wheel_poll b ops W' now st' of
       Inl e \<Rightarrow> False
     | Inr (r, W1, st1) \<Rightarrow> \<forall>y \<in> insert x X - set_option r. \<exists>W2 st2. wheel_remove b ops W1 y st1 = Inr (W2, st2) \<and>
         stack_contract.wheel_inv repr core due st2 W2 (insert x X - set_option r - {y})" if later: "wh_elapsed W \<le> now" for now
  proof -
    obtain r W1 st1 where p: "wheel_poll b ops W' now st' = Inr (r, W1, st1)"
      "stack_contract.poll_result repr loose core due st' W' (insert x X) now r W1 st1"
      using stack_contract.wheel_poll_ok [OF assms(1) w(2), of now b] later w(3) by auto
    then have "stack_contract.wheel_inv repr core due st1 W1 (insert x X - set_option r)"
      by (auto simp: stack_contract.poll_result_def [OF assms(1)] split: option.splits)
    then show ?thesis using remove by (simp add: p(1))
  qed
  then show ?thesis using w remove [OF w(2)] frame_core [OF w(4)] by blast
qed

lemma wheel_insert_remove_witness:
  "\<exists>S k W' S'. due_of (contents (stored vec_slab S)) k = 5 \<and>
     wheel_insert Release (queue_stack Release vec_slab) 
       (wheel_new (queue_stack Release vec_slab :: (stack, key, nat data vec_slab storage) stack_ops)) 5 k S =
       Inr (Inr (), W', S') \<and>
     demo_wheel_inv S' W' {k}"
proof (rule demo_item)
  fix S k
  assume s: "storage_inv vec_slab vec_ok S" "stack_loose vec_slab S k"
    "stored vec_slab S = [k \<mapsto> \<lparr>data_inner = 7::nat, data_when = 5, data_expired = False, data_next = None, data_prev = None\<rparr>]"
  let ?W = "wheel_new (queue_stack Release vec_slab :: (stack, key, nat data vec_slab storage) stack_ops)"
  have due: "due_of (contents (stored vec_slab S)) k = 5" using s(3) by (simp add: due_of_stored)
  have inv: "demo_wheel_inv S ?W {}" by (rule vec_queue.stk.wheel_new_inv [OF s(1)])
  obtain W' S' where "wheel_insert Release (queue_stack Release vec_slab) ?W 5 k S = Inr (Inr (), W', S')"
    "demo_wheel_inv S' W' {k}"
    using wheel_insert_remove [OF vec_queue.queue_stack_contract inv s(2), of Release Release] due
    by (auto simp: wheel_new_def)
  then show ?thesis using due by blast
qed

text \<open>C27: \<open>poll_at\<close> names a time exactly when the wheel holds an entry, and never one after an
  entry is due or before the time elapsed: sleeping until then misses nothing.\<close>

theorem poll_at_bound:
  assumes "stack_contract ops repr loose core due good" "stack_contract.wheel_inv repr core due st W X"
  shows "(X = {} \<longrightarrow> poll_at b W = Inr None) \<and>
    (X \<noteq> {} \<longrightarrow> (\<exists>t. poll_at b W = Inr (Some t) \<and> wh_elapsed W \<le> t \<and> (\<forall>x\<in>X. t \<le> due (core st) x)))"
  using stack_contract.poll_at_ok [OF assms] by blast

lemma poll_at_bound_witness:
  "\<exists>S W k t. demo_wheel_inv S W {k} \<and> poll_at Release W = Inr (Some t) \<and> t \<le> 5"
proof (rule demo_wheel)
  fix S W k
  assume w: "demo_wheel_inv S W {k}" "due_of (contents (stored vec_slab S)) k = 5"
  obtain t where "poll_at Release W = Inr (Some t)" "t \<le> 5"
    using poll_at_bound [OF vec_queue.queue_stack_contract w(1), of Release] w(2) by auto
  then show ?thesis using w by blast
qed

text \<open>The level of an entry is the highest at which its due time and the time elapsed
  differ: the least level whose blocks of \<open>64^(level + 1)\<close> milliseconds hold both.\<close>

theorem level_for_least: "level_for e t = (LEAST l. unat e div 64 ^ Suc l = unat t div 64 ^ Suc l)"
  by (rule Least_equality [symmetric]) (use level_for_le_iff [of e t] in auto)

text \<open>Durations convert to milliseconds exactly, rounded as asked, and saturate at the largest
  \<open>u64\<close>; the conversion back is the identity on milliseconds.\<close>

theorem ms_correct:
  assumes "nanos d < duration_bound"
  shows "unat (ms d Up) = min (2 ^ 64 - 1) ((nanos d + 999999) div 1000000) \<and>
    unat (ms d Down) = min (2 ^ 64 - 1) (nanos d div 1000000) \<and> ms (from_millis m) r = m"
  using unat_ms [OF assms, of Up] unat_ms [OF assms, of Down] ms_from_millis by (simp add: ms_exact_def)

lemma ms_correct_witness: "unat (ms (Duration 1000001) Up) = 2 \<and> unat (ms (Duration 1000001) Down) = 1"
  using ms_correct [of "Duration 1000001"] by (simp add: duration_bound_def NANOS_PER_SEC_def)

text \<open>C37: When no occupied slot of a level lies before the present one, which the order of the wheel guarantees, the search for
  its next occupied slot does not overflow, in a debug build too, whatever the time is: the sum in it is one of 32 bits
  and holds the whole number of the present slot, but no slot it finds lies beyond the last of the block of that one. It finds the first occupied slot of
  the level, and none exactly when none is occupied.\<close>

theorem next_occupied_slot_correct:
  assumes "lv_level L < 6"
    and "\<And>j. bit (lv_occupied L) j \<Longrightarrow> slot_for now (lv_level L) \<le> j"
  shows "next_occupied_slot b L now = Inr (if lv_occupied L = 0 then None else Some (LEAST s. bit (lv_occupied L) s))"
proof (cases "lv_occupied L = 0")
  case False
  then obtain s where s: "bit (lv_occupied L) s" "\<And>i. i < s \<Longrightarrow> \<not> bit (lv_occupied L) i"
    by (rule lowest_bit) blast
  then have least: "(LEAST s. bit (lv_occupied L) s) = s" by (intro Least_equality) (auto simp: not_less [symmetric])
  have "next_occupied_slot b L now = Inr (Some s)"
    by (rule next_occupied_slot_Some [OF assms(1) s(1) _ assms(2) [OF s(1)]])
      (use s(2) in \<open>auto simp: not_less [symmetric]\<close>)
  then show ?thesis using False least by simp
qed (simp add: next_occupied_slot_None)

text \<open>The time is the last millisecond of the 32 bits.\<close>

lemma next_occupied_slot_correct_witness:
  "\<exists>s. next_occupied_slot Debug \<lparr>lv_level = 0, lv_occupied = 2 ^ 63, lv_slot = [] :: unit list\<rparr> (2 ^ 32 - 1) = Inr (Some s)"
proof -
  have "bit (2 ^ 63 :: u64) j \<Longrightarrow> slot_for (2 ^ 32 - 1) 0 \<le> j" for j
    by (simp only: bit_exp_iff) (simp add: slot_for_nat)
  then show ?thesis
    using next_occupied_slot_correct [of "\<lparr>lv_level = 0, lv_occupied = 2 ^ 63, lv_slot = [] :: unit list\<rparr>" "2 ^ 32 - 1" Debug]
    by simp
qed

text \<open>Inserting into the storage with room for another entry succeeds, also after compactions
  and when the slab reuses an index that was given out as a key: the key returned names no other
  entry, and exactly the new entry is added.\<close>

theorem storage_insert_correct:
  assumes "slab_contract SL ok" "storage_inv SL ok S" "storage_len SL S < MAX_ENTRIES"
  shows "\<exists>k S'. storage_insert SL S d = Inr (k, S') \<and> storage_inv SL ok S' \<and>
    stored SL S k = None \<and> stored SL S' = (stored SL S)(k \<mapsto> d)"
  using slab_contract.storage_insert_ok [OF assms] .

lemma demo_storage:
  defines "S \<equiv> storage_with_capacity vec_slab 0 :: nat vec_slab storage"
  shows "storage_inv vec_slab vec_ok S" "stored vec_slab S = Map.empty" "storage_len vec_slab S < MAX_ENTRIES"
    "\<not> st_compact_called S"
proof -
  show inv: "storage_inv vec_slab vec_ok S" and e: "stored vec_slab S = Map.empty"
    unfolding S_def by (rule vec.storage_new_ok)+
  show "storage_len vec_slab S < MAX_ENTRIES"
    using vec.storage_len_ok [OF inv] vec.MAX_ENTRIES_nat by (simp add: e word_less_nat_alt)
  show "\<not> st_compact_called S" by (simp add: S_def storage_with_capacity_def)
qed

lemma storage_insert_correct_witness:
  "\<exists>k S. storage_insert vec_slab (storage_compact vec_slab (storage_with_capacity vec_slab 0)) (7::nat) = Inr (k, S) \<and>
     stored vec_slab S = [k \<mapsto> 7]"
proof -
  let ?S = "storage_compact vec_slab (storage_with_capacity vec_slab 0 :: nat vec_slab storage)"
  note c = vec.storage_compact_ok [OF demo_storage(1)]
  have "storage_len vec_slab ?S < MAX_ENTRIES"
    using vec.storage_len_ok [OF c(1)] vec.MAX_ENTRIES_nat by (simp add: c(2) demo_storage(2) word_less_nat_alt)
  from storage_insert_correct [OF vec.slab_contract_axioms c(1) this, of 7] show ?thesis
    by (auto simp: c(2) demo_storage(2))
qed

text \<open>C24: Compacting the storage keeps what every key that was given out names, and the number of entries, and does not
  raise the capacity; removing a key returns its entry and forgets the key, and a key that names nothing
  panics, after a compaction with the queue's own message.\<close>

theorem storage_compact_remove:
  assumes "slab_contract SL ok" "storage_inv SL ok S"
  shows "storage_inv SL ok (storage_compact SL S) \<and> stored SL (storage_compact SL S) = stored SL S \<and>
    storage_len SL (storage_compact SL S) = storage_len SL S \<and> storage_capacity SL (storage_compact SL S) \<le> storage_capacity SL S \<and>
    (case stored SL S k of
       Some d \<Rightarrow> \<exists>S'. storage_remove SL S k = Inr (d, S') \<and> storage_inv SL ok S' \<and> stored SL S' = (stored SL S)(k := None)
     | None \<Rightarrow> storage_remove SL S k =
         Inl (if st_compact_called S then Invalid_Key else Slab_Invalid_Key (key_index k)))"
proof -
  note c = slab_contract.storage_compact_ok [OF assms]
  have "storage_len SL (storage_compact SL S) = storage_len SL S"
    using slab_contract.storage_len_ok [OF assms(1) c(1)] slab_contract.storage_len_ok [OF assms]
    by (simp add: c(2) word_unat_eq_iff)
  then show ?thesis
    using c slab_contract.storage_remove_Some [OF assms] slab_contract.storage_remove_None [OF assms]
    by (cases "stored SL S k") simp_all
qed

lemma storage_compact_remove_witness:
  "storage_remove vec_slab (storage_with_capacity vec_slab 0 :: nat vec_slab storage) (Key 3) = Inl (Slab_Invalid_Key 3)"
  using storage_compact_remove [OF vec.slab_contract_axioms demo_storage(1), of "Key 3"]
  by (simp add: demo_storage(2,4))

text \<open>C25: A stack of the queue is a list: pushing an entry that is in no stack puts it in front,
  popping takes the first, and removing takes any entry out of the middle, each without a
  panic, without a failed assertion, and without changing the data or another stack: whatever is a stack of other
  entries before is the same stack after it, with all its links.\<close>

theorem linked_stack_correct:
  assumes "slab_contract SL ok" "stack_repr SL ok st s xs"
  shows "(stack_loose SL st x \<longrightarrow> x \<notin> set xs \<longrightarrow>
      (\<exists>s' st'. stack_push b SL s x st = Inr (s', st') \<and> stack_repr SL ok st' s' (x # xs) \<and>
        contents (stored SL st') = contents (stored SL st) \<and>
        (\<forall>t ys. stack_repr SL ok st t ys \<and> x \<notin> set ys \<and> set ys \<inter> set xs = {} \<longrightarrow> stack_repr SL ok st' t ys))) \<and>
    (\<exists>s' st'. stack_pop b SL s st = Inr (if xs = [] then None else Some (hd xs), s', st') \<and>
        stack_repr SL ok st' s' (tl xs) \<and> contents (stored SL st') = contents (stored SL st) \<and>
        (\<forall>t ys. stack_repr SL ok st t ys \<and> set ys \<inter> set xs = {} \<longrightarrow> stack_repr SL ok st' t ys)) \<and>
    (x \<in> set xs \<longrightarrow>
      (\<exists>s' st'. stack_remove b SL s x st = Inr (s', st') \<and> stack_repr SL ok st' s' (remove1 x xs) \<and>
        stack_loose SL st' x \<and> contents (stored SL st') = contents (stored SL st) \<and>
        (\<forall>t ys. stack_repr SL ok st t ys \<and> set ys \<inter> set xs = {} \<longrightarrow> stack_repr SL ok st' t ys)))"
proof (intro conjI impI)
  note c = queue_slab.queue_stack_contract [OF queue_slab.intro [OF assms(1)], of b]
  note frame = frame_def [where core = "\<lambda>st. contents (stored SL st)" and repr = "stack_repr SL ok"]
  show "\<exists>s' st'. stack_push b SL s x st = Inr (s', st') \<and> stack_repr SL ok st' s' (x # xs) \<and>
      contents (stored SL st') = contents (stored SL st) \<and>
      (\<forall>t ys. stack_repr SL ok st t ys \<and> x \<notin> set ys \<and> set ys \<inter> set xs = {} \<longrightarrow> stack_repr SL ok st' t ys)"
    if "stack_loose SL st x" "x \<notin> set xs"
    using stack_contract.push_ok [OF c assms(2) that] unfolding frame by simp blast
  show "\<exists>s' st'. stack_remove b SL s x st = Inr (s', st') \<and> stack_repr SL ok st' s' (remove1 x xs) \<and>
      stack_loose SL st' x \<and> contents (stored SL st') = contents (stored SL st) \<and>
      (\<forall>t ys. stack_repr SL ok st t ys \<and> set ys \<inter> set xs = {} \<longrightarrow> stack_repr SL ok st' t ys)" if "x \<in> set xs"
    using stack_contract.remove_ok [OF c assms(2) that] unfolding frame by simp blast
  show "\<exists>s' st'. stack_pop b SL s st = Inr (if xs = [] then None else Some (hd xs), s', st') \<and>
      stack_repr SL ok st' s' (tl xs) \<and> contents (stored SL st') = contents (stored SL st) \<and>
      (\<forall>t ys. stack_repr SL ok st t ys \<and> set ys \<inter> set xs = {} \<longrightarrow> stack_repr SL ok st' t ys)"
  proof (cases xs)
    case Nil
    then show ?thesis using stack_contract.pop_Nil [OF c, of st s] assms(2) by auto
  next
    case (Cons y ys)
    then show ?thesis using stack_contract.pop_Cons [OF c, of st s y ys] assms(2) unfolding frame by simp blast
  qed
qed

lemma linked_stack_correct_witness:
  "\<exists>S k s' S'. stack_push Debug vec_slab stack_default k (S :: nat data vec_slab storage) = Inr (s', S') \<and> stack_repr vec_slab vec_ok S' s' [k]"
proof (rule demo_item)
  fix S :: "nat data vec_slab storage" and k
  assume s: "storage_inv vec_slab vec_ok S" "stack_loose vec_slab S k"
  then have "stack_repr vec_slab vec_ok S stack_default []" by (simp add: stack_repr_def stack_default_def)
  from linked_stack_correct [OF vec.slab_contract_axioms this, of k Debug] s(2) show ?thesis by simp blast
qed

text \<open>C33: A sleep for any deadline, made at any time: it asks the host for a delay of the time left in whole milliseconds,
  rounded down and cut to 64 bits, or for none when the deadline has passed; and it is ready only
  when that delay is over. Unless there are \<open>2^64\<close> milliseconds left, which is when the cut
  changes the number, its deadline is then less than a millisecond ahead of the clock.\<close>

theorem sleep_not_early:
  fixes E :: env and w :: world
  defines "now \<equiv> env_clock E (wd_tick w)"
  assumes "env_ok E" "sleep_until E d w = (s, w1)" "wd_tick w1 \<le> wd_tick w2"
    and "sleep_poll E s w2 = Inr (Ready u, s', w3)"
  shows "sl_entry s = (if now \<le> d then Registered now (of_nat ((nanos (std d) - nanos (std now)) div 1000000)) else Immediate False) \<and>
    (now \<le> d \<longrightarrow> nanos (std now) + (nanos (std d) - nanos (std now)) div 1000000 mod 2 ^ 64 * 1000000 \<le>
       nanos (std (env_clock E (wd_tick w2)))) \<and>
    ((nanos (std d) - nanos (std now)) div 1000000 < 2 ^ 64 \<longrightarrow>
       nanos (std d) < nanos (std (env_clock E (wd_tick w2))) + 1000000)"
proof -
  have s: "s = fst (new_timeout E d w)" "w1 = snd (new_timeout E d w)"
    using assms(3) by (simp_all add: sleep_until_def)
  have ok: "sleep_ok E w2 s"
    unfolding s by (rule sleep_ok_later [OF assms(2) new_timeout_ok [OF assms(2)]]) (use assms(4) s in simp)
  have entry: "sl_entry s = (if now \<le> d then Registered now (of_nat ((nanos (std d) - nanos (std now)) div 1000000)) else Immediate False)"
    unfolding s now_def by (simp add: new_timeout_def instant_now_def checked_duration_since_iff register_delay_def as_millis_u64_def)
  moreover have "nanos (std now) + (nanos (std d) - nanos (std now)) div 1000000 mod 2 ^ 64 * 1000000 \<le>
      nanos (std (env_clock E (wd_tick w2)))" if "now \<le> d"
  proof -
    have "env_woken E (wd_tick w2) (Registered now (of_nat ((nanos (std d) - nanos (std now)) div 1000000)))"
      using assms(5) entry that by (simp add: sleep_poll_def split: if_splits)
    then have "nanos (std now) + unat (of_nat ((nanos (std d) - nanos (std now)) div 1000000) :: u64) * 1000000 \<le>
        nanos (std (env_clock E (wd_tick w2)))" using assms(2) unfolding env_ok_def by blast
    then show ?thesis by (simp add: unat_of_nat)
  qed
  moreover have "nanos (std (sl_deadline s)) < nanos (std (env_clock E (wd_tick w2))) + 1000000"
    if "(nanos (std d) - nanos (std now)) div 1000000 < 2 ^ 64"
    by (rule sleep_poll_ready [OF assms(2) ok assms(5)]) (use that entry s in \<open>auto split: if_splits\<close>)
  ultimately show ?thesis by (simp add: s)
qed

lemma sleep_not_early_witness:
  "nanos (std (demo_at 5)) < nanos (std (env_clock demo_env 6)) + 1000000"
  using sleep_not_early [OF demo_env_ok, of "demo_at 5" demo_world
      "fst (sleep_until demo_env (demo_at 5) demo_world)" "snd (sleep_until demo_env (demo_at 5) demo_world)"
      "\<lparr>wd_tick = 6, wd_wakes = []\<rparr>" "()"]
  by (simp add: sleep_until_def new_timeout_def instant_now_def demo_world_def demo_env_def demo_at_def
      checked_duration_since_iff instant_le_nat register_delay_def sleep_poll_def as_millis_u64_def)

text \<open>A host that wakes each delay as soon as its milliseconds have passed, and not before.\<close>

definition punctual :: "env \<Rightarrow> bool" where
  "punctual E \<longleftrightarrow> (\<forall>n i m. env_woken E n (Registered i m) \<longleftrightarrow> nanos (std i) + unat m * 1000000 \<le> nanos (std (env_clock E n)))"

text \<open>C39: With a host that wakes each delay as soon as its milliseconds have passed (\<open>punctual\<close>), a sleep for less than \<open>2 ^ 64\<close> milliseconds is ready exactly from
  the last whole millisecond, counted from the time it was made, at or before its deadline: so, against
  its documentation, it is ready before the deadline whenever the time left was no
  whole number of milliseconds.\<close>

theorem sleep_ready_iff:
  fixes E :: env and w :: world
  defines "now \<equiv> nanos (std (env_clock E (wd_tick w)))"
  assumes "punctual E" "sleep_until E d w = (s, w1)" "now \<le> nanos (std d)" "(nanos (std d) - now) div 1000000 < 2 ^ 64"
  shows "(\<exists>s' w3. sleep_poll E s w2 = Inr (Ready (), s', w3)) \<longleftrightarrow>
    nanos (std d) - (nanos (std d) - now) mod 1000000 \<le> nanos (std (env_clock E (wd_tick w2)))"
proof -
  let ?left = "nanos (std d) - now"
  have "sl_entry s = Registered (env_clock E (wd_tick w)) (of_nat (?left div 1000000))"
    using assms(3,4) by (auto simp: now_def sleep_until_def new_timeout_def instant_now_def checked_duration_since_iff
        register_delay_def as_millis_u64_def instant_le_nat)
  then have "(\<exists>s' w3. sleep_poll E s w2 = Inr (Ready (), s', w3)) \<longleftrightarrow>
      now + ?left div 1000000 * 1000000 \<le> nanos (std (env_clock E (wd_tick w2)))"
    using assms(2,5) by (simp add: sleep_poll_def punctual_def now_def unat_of_nat)
  moreover have "now + ?left div 1000000 * 1000000 = nanos (std d) - ?left mod 1000000"
    using assms(4) by (simp add: minus_mod_eq_div_mult [symmetric])
  ultimately show ?thesis by simp
qed

text \<open>Half a millisecond from now is now.\<close>

theorem sleep_ready_iff_witness:
  "\<exists>E d s w s' w'. sleep_until E d demo_world = (s, w) \<and> sleep_poll E s w = Inr (Ready (), s', w') \<and> env_clock E (wd_tick w) < d"
proof -
  define E where "E = \<lparr>env_clock = \<lambda>_. Instant (Duration 0),
    env_woken = \<lambda>_ e. (case e of Registered i m \<Rightarrow> nanos (std i) + unat m * 1000000 \<le> 0 | Immediate _ \<Rightarrow> False)\<rparr>"
  let ?d = "Instant (Duration 500000)"
  have clock: "nanos (std (env_clock E n)) = 0" for n by (simp add: E_def)
  have p: "punctual E" unfolding punctual_def clock by (simp add: E_def)
  obtain s w where s: "sleep_until E ?d demo_world = (s, w)" by force
  have "\<exists>s' w'. sleep_poll E s w = Inr (Ready (), s', w')"
    using sleep_ready_iff [OF p s, of w] unfolding clock by simp
  moreover have "env_clock E (wd_tick w) < ?d" by (simp add: instant_less_nat clock)
  ultimately show ?thesis using s by blast
qed

end
