(* ===== verification/Timer_Error.thy ===== *)
theory Timer_Error
  imports Prelude
begin

text \<open>
  The errors of the timer (\<open>error.rs\<close> of the delay queue): three kinds behind an opaque
  \<open>Error\<close>, with a constructor and a predicate for each, their texts, and the error of an
  elapsed timeout with its conversion to an I/O error, whose kind is the part of the
  standard library that is used.
\<close>

datatype kind = Shutdown | AtCapacity | KindInvalid

datatype timer_error = TimerError (error_kind: kind)

datatype elapsed_error = ElapsedError

datatype io_error_kind = TimedOut

definition error_from_kind :: "kind \<Rightarrow> timer_error" where
  "error_from_kind k = TimerError k"

definition kind_repr :: "kind \<Rightarrow> u8" where
  "kind_repr k = (case k of Shutdown \<Rightarrow> 1 | AtCapacity \<Rightarrow> 2 | KindInvalid \<Rightarrow> 3)"

definition error_shutdown :: timer_error where
  "error_shutdown = TimerError Shutdown"

definition is_shutdown :: "timer_error \<Rightarrow> bool" where
  "is_shutdown self = (case error_kind self of Shutdown \<Rightarrow> True | _ \<Rightarrow> False)"

definition error_at_capacity :: timer_error where
  "error_at_capacity = TimerError AtCapacity"

definition is_at_capacity :: "timer_error \<Rightarrow> bool" where
  "is_at_capacity self = (case error_kind self of AtCapacity \<Rightarrow> True | _ \<Rightarrow> False)"

definition error_invalid :: timer_error where
  "error_invalid = TimerError KindInvalid"

definition is_invalid :: "timer_error \<Rightarrow> bool" where
  "is_invalid self = (case error_kind self of KindInvalid \<Rightarrow> True | _ \<Rightarrow> False)"

definition error_display :: "timer_error \<Rightarrow> string" where
  "error_display self = (case error_kind self of
     Shutdown \<Rightarrow> ''the timer is shutdown, must be called from the context of Tokio runtime''
   | AtCapacity \<Rightarrow> ''timer is at capacity and cannot create a new entry''
   | KindInvalid \<Rightarrow> ''timer duration exceeds maximum duration'')"

definition elapsed_new :: elapsed_error where
  "elapsed_new = ElapsedError"

definition elapsed_display :: "elapsed_error \<Rightarrow> string" where
  "elapsed_display self = ''deadline has elapsed''"

definition io_error_from_elapsed :: "elapsed_error \<Rightarrow> io_error_kind" where
  "io_error_from_elapsed err = TimedOut"

text \<open>The predicates decide the kind, each constructor satisfies its own.\<close>

lemmas error_predicates = is_shutdown_def is_at_capacity_def is_invalid_def

lemma error_classified:
  "(is_shutdown e \<longleftrightarrow> e = error_shutdown) \<and> (is_at_capacity e \<longleftrightarrow> e = error_at_capacity) \<and>
   (is_invalid e \<longleftrightarrow> e = error_invalid)"
  by (cases e)
    (auto simp: error_predicates error_shutdown_def error_at_capacity_def error_invalid_def split: kind.splits)

lemma error_display_inj: "error_display e = error_display f \<Longrightarrow> e = f"
  by (cases e, cases f) (auto simp: error_display_def split: kind.splits)

end
