(* ===== verification/Outcome.thy ===== *)
theory Outcome
  imports Prelude
begin

text \<open>
  What the controllers' host shares: the result of a fallible function of the host
  (\<open>anyhow::Result\<close>), which is a value, an error, or the panic that ended it; and the errors,
  named by the call that raised them.
\<close>

datatype host_error =
    Acquire_Error
  | Module_Error
  | Memory_Error
  | Global_Error
  | File_Error
  | Trap
  | Service_Error
  | Body_Error
  | Serialize_Error
  | Yaml_Error
  | Context_Error
  | Engine_Error
  | Linker_Error
  | Config_Error

datatype 'a outcome =
    is_ok: Ok (the_ok: 'a)
  | Err host_error
  | Panic fault

definition obind :: "'a outcome \<Rightarrow> ('a \<Rightarrow> 'b outcome) \<Rightarrow> 'b outcome" where
  "obind m f = (case m of Ok x \<Rightarrow> f x | Err e \<Rightarrow> Err e | Panic p \<Rightarrow> Panic p)"

lemma obind_simps [simp]:
  "obind (Ok x) f = f x" "obind (Err e) f = Err e" "obind (Panic p) f = Panic p"
  by (simp_all add: obind_def)

lemma obind_Ok_iff: "obind m f = Ok y \<longleftrightarrow> (\<exists>x. m = Ok x \<and> f x = Ok y)"
  by (cases m) auto

lemma obind_OkE [elim]:
  assumes "obind m f = Ok y"
  obtains x where "m = Ok x" "f x = Ok y"
  using assms by (auto simp: obind_Ok_iff)

lemma obind_PanicE:
  assumes "obind m f = Panic p"
  obtains "m = Panic p" | x where "m = Ok x" "f x = Panic p"
  using assms by (cases m) auto

lemma obind_cong [fundef_cong]: "m = m' \<Longrightarrow> (\<And>x. m' = Ok x \<Longrightarrow> f x = g x) \<Longrightarrow> obind m f = obind m' g"
  by (cases m') simp_all

text \<open>\<open>?\<close> on an option or a result, \<open>unwrap\<close> and \<open>assert!\<close>.\<close>

definition or_err :: "'a option \<Rightarrow> host_error \<Rightarrow> 'a outcome" where
  "or_err m e = (case m of Some x \<Rightarrow> Ok x | None \<Rightarrow> Err e)"

definition or_panic :: "'a option \<Rightarrow> fault \<Rightarrow> 'a outcome" where
  "or_panic m p = (case m of Some x \<Rightarrow> Ok x | None \<Rightarrow> Panic p)"

definition ensure :: "bool \<Rightarrow> fault \<Rightarrow> unit outcome" where
  "ensure c p = (if c then Ok () else Panic p)"

lemma or_err_simps [simp]:
  "or_err (Some x) e = Ok x" "or_err None e = Err e" "or_err m e = Ok y \<longleftrightarrow> m = Some y" "or_err m e \<noteq> Panic p"
  by (simp_all add: or_err_def split: option.splits)

lemma or_panic_simps [simp]:
  "or_panic (Some x) p = Ok x" "or_panic None p = Panic p" "or_panic m p = Ok y \<longleftrightarrow> m = Some y" "or_panic m p \<noteq> Err e"
  by (simp_all add: or_panic_def split: option.splits)

lemma ensure_simps [simp]:
  "ensure True p = Ok ()" "ensure False p = Panic p" "ensure c p = Ok u \<longleftrightarrow> c" "ensure c p \<noteq> Err e"
  by (simp_all add: ensure_def)

section \<open>Actions\<close>

text \<open>
  An action of the host passes a state on and has an outcome; the state is that at the
  moment of an error too, since what was done before stays done.
\<close>

type_synonym ('s, 'a) action = "'s \<Rightarrow> 'a outcome \<times> 's"

definition act_return :: "'a \<Rightarrow> ('s, 'a) action" where
  "act_return x st = (Ok x, st)"

definition act_bind :: "('s, 'a) action \<Rightarrow> ('a \<Rightarrow> ('s, 'b) action) \<Rightarrow> ('s, 'b) action" where
  "act_bind m f st = (case m st of
     (Ok x, st) \<Rightarrow> f x st
   | (Err e, st) \<Rightarrow> (Err e, st)
   | (Panic p, st) \<Rightarrow> (Panic p, st))"

definition act_get :: "('s, 's) action" where
  "act_get st = (Ok st, st)"

definition act_update :: "('s \<Rightarrow> 's) \<Rightarrow> ('s, unit) action" where
  "act_update f st = (Ok (), f st)"

definition act_lift :: "'a outcome \<Rightarrow> ('s, 'a) action" where
  "act_lift r st = (r, st)"

text \<open>What a scope drops when it is left by an error or a panic.\<close>

definition act_guard :: "('s \<Rightarrow> 's) \<Rightarrow> ('s, 'a) action \<Rightarrow> ('s, 'a) action" where
  "act_guard f m st = (case m st of
     (Ok x, st) \<Rightarrow> (Ok x, st)
   | (r, st) \<Rightarrow> (r, f st))"

named_theorems act_simps \<open>running an action\<close>

lemma act_run [act_simps]:
  "act_return x st = (Ok x, st)" "act_get st = (Ok st, st)" "act_update g st = (Ok (), g st)" "act_lift r st = (r, st)"
  by (simp_all add: act_return_def act_get_def act_update_def act_lift_def)

lemma act_bind_run [act_simps]:
  "m st = (Ok x, st') \<Longrightarrow> act_bind m f st = f x st'"
  "m st = (Err e, st') \<Longrightarrow> act_bind m f st = (Err e, st')"
  "m st = (Panic p, st') \<Longrightarrow> act_bind m f st = (Panic p, st')"
  by (simp_all add: act_bind_def)

lemma act_bind_return [simp, act_simps]: "act_bind (act_return x) f st = f x st"
  by (simp add: act_bind_def act_run)

lemma act_bind_get [simp, act_simps]: "act_bind act_get f st = f st st"
  by (simp add: act_bind_def act_run)

lemma act_bind_update [simp, act_simps]: "act_bind (act_update g) f st = f () (g st)"
  by (simp add: act_bind_def act_run)

lemma act_bind_lift [simp, act_simps]:
  "act_bind (act_lift (Ok x)) f st = f x st" "act_bind (act_lift (Err e)) f st = (Err e, st)"
  "act_bind (act_lift (Panic p)) f st = (Panic p, st)"
  by (simp_all add: act_bind_def act_run)

text \<open>
  The rule of every proof about actions: from a state with \<open>P\<close>, a value leaves \<open>Q\<close>, an
  error or a panic leaves \<open>R\<close>, and the only panics are those of \<open>F\<close>.
\<close>

definition act_ok :: "fault set \<Rightarrow> ('s \<Rightarrow> bool) \<Rightarrow> ('s, 'a) action \<Rightarrow> ('a \<Rightarrow> 's \<Rightarrow> bool) \<Rightarrow> ('s \<Rightarrow> bool) \<Rightarrow> bool" where
  "act_ok F P m Q R \<longleftrightarrow> (\<forall>st. P st \<longrightarrow>
     (case m st of (Ok x, st') \<Rightarrow> Q x st' | (Err e, st') \<Rightarrow> R st' | (Panic p, st') \<Rightarrow> p \<in> F \<and> R st'))"

named_theorems act_rules \<open>rules for the outcome of an action\<close>

lemma act_okI:
  assumes "\<And>st x st'. P st \<Longrightarrow> m st = (Ok x, st') \<Longrightarrow> Q x st'" "\<And>st e st'. P st \<Longrightarrow> m st = (Err e, st') \<Longrightarrow> R st'"
    "\<And>st p st'. P st \<Longrightarrow> m st = (Panic p, st') \<Longrightarrow> p \<in> F \<and> R st'"
  shows "act_ok F P m Q R"
  using assms unfolding act_ok_def by (auto split: prod.splits outcome.splits)

lemma act_ok_result:
  assumes "act_ok F P m Q R" "P st" "m st = (r, st')"
  shows "case r of Ok x \<Rightarrow> Q x st' | Err e \<Rightarrow> R st' | Panic p \<Rightarrow> p \<in> F \<and> R st'"
  using assms unfolding act_ok_def by fastforce

lemma act_ok_Ok: "act_ok F P m Q R \<Longrightarrow> P st \<Longrightarrow> m st = (Ok x, st') \<Longrightarrow> Q x st'"
  unfolding act_ok_def by fastforce

lemma act_ok_Err: "act_ok F P m Q R \<Longrightarrow> P st \<Longrightarrow> m st = (Err e, st') \<Longrightarrow> R st'"
  unfolding act_ok_def by fastforce

lemma act_ok_Panic: "act_ok F P m Q R \<Longrightarrow> P st \<Longrightarrow> m st = (Panic p, st') \<Longrightarrow> p \<in> F \<and> R st'"
  unfolding act_ok_def by fastforce

lemma act_ok_bind:
  assumes "act_ok F P m Q R" "\<And>x. act_ok F (Q x) (f x) S R"
  shows "act_ok F P (act_bind m f) S R"
  unfolding act_ok_def
proof (intro allI impI)
  fix st assume P: "P st"
  obtain r st1 where m: "m st = (r, st1)" by (cases "m st")
  have *: "case (r, st1) of (Ok x, st') \<Rightarrow> Q x st' | (Err e, st') \<Rightarrow> R st' | (Panic p, st') \<Rightarrow> p \<in> F \<and> R st'"
    using assms(1) P m unfolding act_ok_def by fastforce
  show "case act_bind m f st of (Ok x, st') \<Rightarrow> S x st' | (Err e, st') \<Rightarrow> R st' | (Panic p, st') \<Rightarrow> p \<in> F \<and> R st'"
    using * m assms(2) unfolding act_ok_def act_bind_def by (cases r) simp_all
qed

lemma act_ok_return [act_rules]: "(\<And>st. P st \<Longrightarrow> Q x st) \<Longrightarrow> act_ok F P (act_return x) Q R"
  by (simp add: act_ok_def act_run)

lemma act_ok_update [act_rules]: "(\<And>st. P st \<Longrightarrow> Q () (f st)) \<Longrightarrow> act_ok F P (act_update f) Q R"
  by (simp add: act_ok_def act_run)

lemma act_ok_lift:
  "(\<And>x st. r = Ok x \<Longrightarrow> P st \<Longrightarrow> Q x st) \<Longrightarrow> (\<And>st. P st \<Longrightarrow> R st) \<Longrightarrow> (\<And>p st. r = Panic p \<Longrightarrow> P st \<Longrightarrow> p \<in> F) \<Longrightarrow>
   act_ok F P (act_lift r) Q R"
  by (cases r) (simp_all add: act_ok_def act_run)

lemma act_ok_get: "(\<And>st. P st \<Longrightarrow> act_ok F (\<lambda>s. s = st) (f st) S R) \<Longrightarrow> act_ok F P (act_bind act_get f) S R"
  by (simp add: act_ok_def)

lemma act_ok_if:
  "(c \<Longrightarrow> act_ok F P m Q R) \<Longrightarrow> (\<not> c \<Longrightarrow> act_ok F P m' Q R) \<Longrightarrow> act_ok F P (if c then m else m') Q R"
  by simp

lemma act_ok_conseq:
  assumes "act_ok F P m Q R" "\<And>st. P' st \<Longrightarrow> P st" "\<And>x st. Q x st \<Longrightarrow> Q' x st" "\<And>st. R st \<Longrightarrow> R' st" "F \<subseteq> F'"
  shows "act_ok F' P' m Q' R'"
  using act_ok_Ok [OF assms(1)] act_ok_Err [OF assms(1)] act_ok_Panic [OF assms(1)] assms(2-5)
  by (intro act_okI) blast+

lemma act_ok_case:
  assumes "\<And>st. P st \<Longrightarrow> act_ok F (\<lambda>s. s = st) m Q R"
  shows "act_ok F P m Q R"
  using assms by (simp add: act_ok_def)

lemma act_ok_guard:
  assumes "act_ok F P m Q R'" "\<And>st. R' st \<Longrightarrow> R (f st)"
  shows "act_ok F P (act_guard f m) Q R"
  using assms unfolding act_ok_def act_guard_def by (fastforce split: prod.splits outcome.splits)

end
