(* ===== verification/Ops_Runner.thy ===== *)
theory Ops_Runner
  imports Outcome Sleep
begin

text \<open>
  The asynchronous operations of a controller: requests and results (\<open>abicommand.rs\<close>), the
  wrapper that polls a future at once (\<open>opcall.rs\<close>) and the runner that turns a request into
  an operation and collects the results (\<open>runner.rs\<close>).

  A future is the list of what it still does: wait for something outside, send a result,
  or fail. The network is a parameter: what the service answers to a request. A poll is
  given the number of waits that are over; a send waits while the channel of
  results is full. Sending cannot fail, since the runner that owns the operations also owns the
  receiver.
\<close>

record async_result =
  ar_id :: u64
  ar_value :: "u8 list option"
  ar_finished :: bool

datatype 'req request_value = Http 'req | HttpStream 'req | Delay duration

text \<open>
  What the service answers: it fails, or it returns the head, serialized (\<open>None\<close> when that fails),
  and the chunks of the body, each of which may fail.
\<close>

type_synonym response = "(u8 list option \<times> u8 list option list) option"

datatype op_step =
    Wait
  | Post async_result
  | Fail host_error

text \<open>Collecting a whole body, which fails when a chunk does.\<close>

fun to_bytes :: "u8 list option list \<Rightarrow> u8 list option" where
  "to_bytes [] = Some []"
| "to_bytes (None # cs) = None"
| "to_bytes (Some c # cs) = map_option (\<lambda>b. c @ b) (to_bytes cs)"

definition post_meta :: "u64 \<Rightarrow> u8 list option \<Rightarrow> op_step list" where
  "post_meta i meta = (case meta of
     Some m \<Rightarrow> [Post \<lparr>ar_id = i, ar_value = Some m, ar_finished = False\<rparr>]
   | None \<Rightarrow> [Fail Serialize_Error])"

definition http_op :: "u64 \<Rightarrow> response \<Rightarrow> op_step list" where
  "http_op i r = Wait # (case r of
     None \<Rightarrow> [Fail Service_Error]
   | Some (meta, chunks) \<Rightarrow> post_meta i meta @ [Wait] @ (case to_bytes chunks of
         Some full_body \<Rightarrow> [Post \<lparr>ar_id = i, ar_value = Some full_body, ar_finished = True\<rparr>]
       | None \<Rightarrow> [Fail Body_Error]))"

fun stream_chunks :: "u64 \<Rightarrow> u8 list option list \<Rightarrow> op_step list" where
  "stream_chunks i [] = [Wait, Post \<lparr>ar_id = i, ar_value = None, ar_finished = True\<rparr>]"
| "stream_chunks i (None # cs) = [Wait, Fail Body_Error]"
| "stream_chunks i (Some c # cs) =
     Wait # Post \<lparr>ar_id = i, ar_value = Some c, ar_finished = False\<rparr> # stream_chunks i cs"

definition http_stream_op :: "u64 \<Rightarrow> response \<Rightarrow> op_step list" where
  "http_stream_op i r = Wait # (case r of
     None \<Rightarrow> [Fail Service_Error]
   | Some (meta, chunks) \<Rightarrow> post_meta i meta @ stream_chunks i chunks)"

definition delay_op :: "u64 \<Rightarrow> op_step list" where
  "delay_op i = [Wait, Post \<lparr>ar_id = i, ar_value = None, ar_finished = True\<rparr>]"

text \<open>The future a request becomes, and what it evaluates to: whether it was a plain web call.\<close>

definition request_op :: "u64 \<Rightarrow> (u64 \<Rightarrow> 'req \<Rightarrow> response) \<Rightarrow> 'req request_value \<Rightarrow> op_step list \<times> bool" where
  "request_op i net request = (case request of
     Http value \<Rightarrow> (http_op i (net i value), True)
   | HttpStream value \<Rightarrow> (http_stream_op i (net i value), False)
   | Delay value \<Rightarrow> (delay_op i, False))"

section \<open>Polling\<close>

definition CHANNEL_CAPACITY :: nat where
  "CHANNEL_CAPACITY = 10"

fun run_op :: "nat \<Rightarrow> op_step list \<Rightarrow> async_result list \<Rightarrow> (host_error + unit) poll \<times> op_step list \<times> async_result list" where
  "run_op n [] ch = (Ready (Inr ()), [], ch)"
| "run_op 0 (Wait # s) ch = (Pending, Wait # s, ch)"
| "run_op (Suc n) (Wait # s) ch = run_op n s ch"
| "run_op n (Post r # s) ch =
     (if length ch < CHANNEL_CAPACITY then run_op n s (ch @ [r]) else (Pending, Post r # s, ch))"
| "run_op n (Fail e # s) ch = (Ready (Inl e), [], ch)"

text \<open>\<open>MaybeDone\<close> of the futures crate, inside \<open>OpCall\<close>.\<close>

datatype opcall =
    Fut "op_step list" bool
  | Done "host_error + bool"
  | Gone

definition maybe_done_poll :: "nat \<Rightarrow> opcall \<Rightarrow> async_result list \<Rightarrow> (unit poll \<times> opcall \<times> async_result list) outcome" where
  "maybe_done_poll n inner ch = (case inner of
     Fut s v \<Rightarrow> (case run_op n s ch of
         (Ready (Inr _), _, ch) \<Rightarrow> Ok (Ready (), Done (Inr v), ch)
       | (Ready (Inl e), _, ch) \<Rightarrow> Ok (Ready (), Done (Inl e), ch)
       | (Pending, s, ch) \<Rightarrow> Ok (Pending, Fut s v, ch))
   | Done r \<Rightarrow> Ok (Ready (), inner, ch)
   | Gone \<Rightarrow> Panic Expect_Failed)"

definition take_output :: "opcall \<Rightarrow> (host_error + bool) option \<times> opcall" where
  "take_output inner = (case inner of Done r \<Rightarrow> (Some r, Gone) | _ \<Rightarrow> (None, inner))"

definition opcall_eager :: "nat \<Rightarrow> op_step list \<Rightarrow> bool \<Rightarrow> async_result list \<Rightarrow> (opcall \<times> async_result list) outcome" where
  "opcall_eager n s v ch = obind (maybe_done_poll n (Fut s v) ch) (\<lambda>(_, inner, ch). Ok (inner, ch))"

definition opcall_lazy :: "op_step list \<Rightarrow> bool \<Rightarrow> opcall" where
  "opcall_lazy s v = Fut s v"

definition opcall_ready :: "host_error + bool \<Rightarrow> opcall" where
  "opcall_ready value = Done value"

definition opcall_gone :: opcall where
  "opcall_gone = Gone"

definition opcall_poll :: "nat \<Rightarrow> opcall \<Rightarrow> async_result list \<Rightarrow> ((host_error + bool) poll \<times> opcall \<times> async_result list) outcome" where
  "opcall_poll n c ch = obind (maybe_done_poll n c ch) (\<lambda>(p, inner, ch).
     case p of
       Pending \<Rightarrow> Ok (Pending, inner, ch)
     | Ready _ \<Rightarrow> (case take_output inner of
           (Some r, inner) \<Rightarrow> Ok (Ready r, inner, ch)
         | (None, _) \<Rightarrow> Panic Unwrap_None))"

definition opcall_is_terminated :: "opcall \<Rightarrow> bool" where
  "opcall_is_terminated inner = (case inner of Fut _ _ \<Rightarrow> False | _ \<Rightarrow> True)"

text \<open>
  \<open>FuturesUnordered::poll_next\<close>: the set polls the operations that were woken, in the order
  the schedule gives (an operation by its position, and how many of its waits are over), until
  one is ready; that one leaves the set. The empty set is at its end.
\<close>

definition drop_nth :: "nat \<Rightarrow> 'a list \<Rightarrow> 'a list" where
  "drop_nth i xs = take i xs @ drop (Suc i) xs"

lemma set_drop_nth: "set (drop_nth k xs) \<subseteq> set xs"
  by (auto simp: drop_nth_def dest: in_set_takeD in_set_dropD)

fun poll_ops :: "(nat \<times> nat) list \<Rightarrow> opcall list \<Rightarrow> async_result list \<Rightarrow>
    ((host_error + bool) poll \<times> opcall list \<times> async_result list) outcome" where
  "poll_ops [] ops ch = Ok (Pending, ops, ch)"
| "poll_ops ((i, n) # sched) ops ch =
     (if i < length ops then
        obind (opcall_poll n (ops ! i) ch) (\<lambda>(p, c, ch).
        case p of
          Ready r \<Rightarrow> Ok (Ready r, drop_nth i ops, ch)
        | Pending \<Rightarrow> poll_ops sched (ops[i := c]) ch)
      else poll_ops sched ops ch)"

definition poll_next_op :: "(nat \<times> nat) list \<Rightarrow> opcall list \<Rightarrow> async_result list \<Rightarrow>
    ((host_error + bool) option poll \<times> opcall list \<times> async_result list) outcome" where
  "poll_next_op sched ops ch =
     (if ops = [] then Ok (Ready None, ops, ch)
      else obind (poll_ops sched ops ch) (\<lambda>(p, ops, ch).
        Ok (case p of Ready r \<Rightarrow> Ready (Some r) | Pending \<Rightarrow> Pending, ops, ch)))"

section \<open>The runner\<close>

record runner =
  rn_pending_ops :: "opcall list"
  rn_have_unpolled_ops :: bool
  rn_nr_web_calls :: nat
  rn_channel :: "async_result list"

definition runner_new :: runner where
  "runner_new = \<lparr>rn_pending_ops = [], rn_have_unpolled_ops = False, rn_nr_web_calls = 0, rn_channel = []\<rparr>"

definition handle_opcall :: "opcall \<Rightarrow> runner \<Rightarrow> runner" where
  "handle_opcall c R = R\<lparr>rn_pending_ops := rn_pending_ops R @ [c], rn_have_unpolled_ops := True\<rparr>"

definition handle_request :: "nat \<Rightarrow> (u64 \<Rightarrow> 'req \<Rightarrow> response) \<Rightarrow> u64 \<Rightarrow> 'req request_value \<Rightarrow> runner \<Rightarrow> runner outcome" where
  "handle_request n net async_request_id request R =
     (let R = (case request of Http _ \<Rightarrow> R\<lparr>rn_nr_web_calls := rn_nr_web_calls R + 1\<rparr> | _ \<Rightarrow> R);
          (s, v) = request_op async_request_id net request in
      obind (opcall_eager n s v (rn_channel R)) (\<lambda>(c, ch).
      Ok (handle_opcall c (R\<lparr>rn_channel := ch\<rparr>))))"

text \<open>\<open>poll_recv\<close> of the channel: its sender is never dropped, so an empty channel is pending.\<close>

definition poll_recv :: "(runner, async_result poll) action" where
  "poll_recv R = (case rn_channel R of
     [] \<Rightarrow> (Ok Pending, R)
   | r # ch \<Rightarrow> (Ok (Ready r), R\<lparr>rn_channel := ch\<rparr>))"

end
