(* ===== verification/Abi.thy ===== *)
theory Abi
  imports Ops_Runner
begin

text \<open>
  The interface between the host and a controller (\<open>abi/mod.rs\<close>, \<open>controller_ctx.rs\<close>),
  and the state of one controller module, which every later definition acts on.

  The engine that runs a controller (wasmtime) is no part of the repository: its operations
  are the fields of \<open>vm_ops\<close>. A run of the controller, from one call of the host to its return, is
  a function of the instance; it also yields the host functions it called, in order, each
  with the exported memory as it was then (\<open>None\<close> where none is exported). The identifiers it gets back are consecutive, so
  the next identifier is all it has to be given.
\<close>

datatype guest_call =
    Call_Request "u8 list option" u32 u32 u32
  | Call_Delay u64

record ('vm, 'val) vm_ops =
  vm_load :: "string \<Rightarrow> 'vm option"
  vm_exports_memory :: "'vm \<Rightarrow> bool"
  vm_memory :: "'vm \<Rightarrow> u8 list"
  vm_put_memory :: "u8 list \<Rightarrow> 'vm \<Rightarrow> 'vm"
  vm_grow :: "nat \<Rightarrow> 'vm \<Rightarrow> 'vm option"
  vm_globals :: "'vm \<Rightarrow> (string \<times> bool \<times> 'val) list"
  vm_set_global :: "string \<Rightarrow> 'val \<Rightarrow> 'vm \<Rightarrow> 'vm option"
  vm_start :: "u64 \<Rightarrow> 'vm \<Rightarrow> ('vm \<times> guest_call list) option"
  vm_allocate :: "u32 \<Rightarrow> u64 \<Rightarrow> 'vm \<Rightarrow> (u32 \<times> 'vm \<times> guest_call list) option"
  vm_wakeup :: "u64 \<Rightarrow> u32 \<Rightarrow> u32 \<Rightarrow> u32 \<Rightarrow> u64 \<Rightarrow> 'vm \<Rightarrow> ('vm \<times> guest_call list) option"

text \<open>
  \<open>vm_load\<close> reads a compiled module from a file and instantiates it; \<open>vm_exports_memory\<close> says whether
  there is an exported memory, and \<open>vm_memory\<close> is what it holds; \<open>vm_globals\<close> lists the
  exported globals with their mutability; \<open>None\<close> is a trap or a missing export.

  The surroundings of the host: the wall clock in nanoseconds, what the service answers, how
  many waits of an operation are over when it is first polled, which operations a later
  poll finds woken, whether writing to a file succeeds and what is in the file if it does not, what the prediction server
  answers (no answer, an unreadable answer, or a time), which timers have run out, how
  a request is decoded, and whether its URI can be rewritten to one of the cluster (the panics of
  \<open>start_request_executor\<close> in \<open>Http_Data\<close>, when it has no path or the whole is no URI). What changes from call to call depends on a count of calls.
\<close>

record 'req host_env =
  he_now :: "nat \<Rightarrow> int"
  he_net :: "u64 \<Rightarrow> 'req \<Rightarrow> response"
  he_eager :: "u64 \<Rightarrow> nat"
  he_sched :: "nat \<Rightarrow> (nat \<times> nat) list"
  he_write_ok :: "nat \<Rightarrow> bool"
  he_torn :: "nat \<Rightarrow> u8 list option"
  he_predict :: "nat \<Rightarrow> int option option"
  he_elapsed :: "nat \<Rightarrow> nat \<times> nat \<Rightarrow> bool"
  he_decode :: "u8 list \<Rightarrow> 'req option"
  he_url_ok :: "'req \<Rightarrow> bool"

record controller_ctx =
  cx_async_client_id :: u64
  cx_request_id_counter :: u64

definition controller_ctx_new :: "u64 \<Rightarrow> controller_ctx" where
  "controller_ctx_new async_client_id = \<lparr>cx_async_client_id = async_client_id, cx_request_id_counter = 0\<rparr>"

section \<open>The state of a module\<close>

record 'val snapshot =
  sn_globals :: "(string \<times> 'val) list"
  sn_memory_min :: nat

text \<open>The permit of an instance is that of the constructor \<open>GotInst\<close>.\<close>

datatype ('vm, 'val) maybe_inst =
    Locked
  | NotInst controller_ctx
  | UnsInst controller_ctx "'val snapshot"
  | GotInst controller_ctx 'vm

datatype work = Uninstantiate | Start | Wakeup u64 "u8 list option" bool | Load_To_Mem

text \<open>The work that was set: not yet polled, or waiting for a permit.\<close>

datatype 'val wasm_work =
    Fresh work
  | Start_Waits controller_ctx
  | Restore_Waits work controller_ctx "'val snapshot"

record ('vm, 'val) module_state =
  ms_inner :: "('vm, 'val) maybe_inst"
  ms_wasm_work :: "'val wasm_work option"
  ms_uninstantiating :: bool
  ms_wasm_path :: string
  ms_swap_path :: string
  ms_runner :: runner
  ms_last_event_time :: int
  ms_last_events :: "int list"
  ms_predicted :: int
  ms_sleep_vec :: "(nat \<times> nat) list"
  ms_first_event_after_shutdown :: bool
  ms_permits :: nat
  ms_files :: "string \<Rightarrow> u8 list option"
  ms_tick :: nat
  ms_wakes :: nat

text \<open>
  The last four are shared with the rest of the host: the permits left, the files, the count of
  calls to the surroundings and how often the task woke itself.
\<close>

type_synonym ('vm, 'val, 'a) mod_action = "(('vm, 'val) module_state, 'a) action"

definition next_tick :: "('vm, 'val, nat) mod_action" where
  "next_tick st = (Ok (ms_tick st), st\<lparr>ms_tick := Suc (ms_tick st)\<rparr>)"

definition utc_now :: "'req host_env \<Rightarrow> ('vm, 'val, int) mod_action" where
  "utc_now E = act_bind next_tick (\<lambda>n. act_return (he_now E n))"

definition wake_by_ref :: "('vm, 'val, unit) mod_action" where
  "wake_by_ref = act_update (\<lambda>st. st\<lparr>ms_wakes := Suc (ms_wakes st)\<rparr>)"

section \<open>Host functions\<close>

text \<open>\<open>&memory[(ptr as usize)..((ptr + size) as usize)]\<close>, with the sum of 32 bits.\<close>

definition u32_add :: "build \<Rightarrow> u32 \<Rightarrow> u32 \<Rightarrow> u32 outcome" where
  "u32_add b x y = (if b = Debug \<and> 2 ^ 32 \<le> unat x + unat y then Panic Overflow else Ok (x + y))"

definition memory_slice :: "build \<Rightarrow> u8 list \<Rightarrow> u32 \<Rightarrow> u32 \<Rightarrow> u8 list outcome" where
  "memory_slice b mem ptr len =
     obind (u32_add b ptr len) (\<lambda>stop.
     obind (ensure (unat ptr \<le> unat stop \<and> unat stop \<le> length mem) Index_Out_Of_Bounds) (\<lambda>_.
     Ok (take (unat stop - unat ptr) (drop (unat ptr) mem))))"

definition fetch_add :: "controller_ctx \<Rightarrow> u64 \<times> controller_ctx" where
  "fetch_add cx = (cx_request_id_counter cx, cx\<lparr>cx_request_id_counter := cx_request_id_counter cx + 1\<rparr>)"

text \<open>
  The operation of a request is polled as soon as it is made, and rewrites the URI before anything else, so that is
  where a URI that cannot be rewritten panics.
\<close>

definition abi_request ::
  "build \<Rightarrow> 'req host_env \<Rightarrow> u8 list option \<Rightarrow> u32 \<Rightarrow> u32 \<Rightarrow> u32 \<Rightarrow> controller_ctx \<times> runner \<Rightarrow>
   (u64 \<times> controller_ctx \<times> runner) outcome" where
  "abi_request b E memory ptr len stream = (\<lambda>(cx, R).
     obind (or_panic memory Memory_Missing) (\<lambda>mem.
     obind (memory_slice b mem ptr len) (\<lambda>inner_req_bytes.
     obind (or_panic (he_decode E inner_req_bytes) Undecodable_Request) (\<lambda>inner_request.
     let (async_request_id, cx) = fetch_add cx in
     obind (ensure (he_url_ok E inner_request) Unaddressable_Request) (\<lambda>_.
     obind (handle_request (he_eager E async_request_id) (he_net E) async_request_id
              ((if stream = 0 then Http else HttpStream) inner_request) R) (\<lambda>R.
     Ok (async_request_id, cx, R)))))))"

definition abi_delay ::
  "'req host_env \<Rightarrow> u64 \<Rightarrow> controller_ctx \<times> runner \<Rightarrow> (u64 \<times> controller_ctx \<times> runner) outcome" where
  "abi_delay E millis = (\<lambda>(cx, R).
     let (async_request_id, cx) = fetch_add cx in
     obind (handle_request (he_eager E async_request_id) (he_net E) async_request_id
              (Delay (from_millis millis)) R) (\<lambda>R.
     Ok (async_request_id, cx, R)))"

text \<open>The linker binds \<open>request\<close> and \<open>request_stream\<close> to the same function.\<close>

fun guest_calls :: "build \<Rightarrow> 'req host_env \<Rightarrow> guest_call list \<Rightarrow> controller_ctx \<times> runner \<Rightarrow> (controller_ctx \<times> runner) outcome" where
  "guest_calls b E [] s = Ok s"
| "guest_calls b E (Call_Request memory ptr len stream # cs) s =
     obind (abi_request b E memory ptr len stream s) (\<lambda>(_, s). guest_calls b E cs s)"
| "guest_calls b E (Call_Delay millis # cs) s =
     obind (abi_delay E millis s) (\<lambda>(_, s). guest_calls b E cs s)"

section \<open>Calls into the controller\<close>

text \<open>One call: the instance runs, and the host functions it called take effect on its context and the runner.\<close>

definition enter_guest ::
  "build \<Rightarrow> 'req host_env \<Rightarrow> (u64 \<Rightarrow> 'vm \<Rightarrow> ('a \<times> 'vm \<times> guest_call list) option) \<Rightarrow> ('vm, 'val, 'a) mod_action" where
  "enter_guest b E call st = (case ms_inner st of
     GotInst cx vm \<Rightarrow> (case call (cx_request_id_counter cx) vm of
         None \<Rightarrow> (Err Trap, st)
       | Some (x, vm, cs) \<Rightarrow> (case guest_calls b E cs (cx, ms_runner st) of
             Ok (cx, R) \<Rightarrow> (Ok x, st\<lparr>ms_inner := GotInst cx vm, ms_runner := R\<rparr>)
           | Err e \<Rightarrow> (Err e, st)
           | Panic p \<Rightarrow> (Panic p, st)))
   | _ \<Rightarrow> (Panic Unreachable, st))"

definition no_value :: "('vm \<times> guest_call list) option \<Rightarrow> (unit \<times> 'vm \<times> guest_call list) option" where
  "no_value = map_option (\<lambda>(vm, cs). ((), vm, cs))"

definition abi_start_controller :: "build \<Rightarrow> ('vm, 'val) vm_ops \<Rightarrow> 'req host_env \<Rightarrow> ('vm, 'val, unit) mod_action" where
  "abi_start_controller b V E = enter_guest b E (\<lambda>i vm. no_value (vm_start V i vm))"

definition abi_allocate :: "build \<Rightarrow> ('vm, 'val) vm_ops \<Rightarrow> 'req host_env \<Rightarrow> u32 \<Rightarrow> ('vm, 'val, u32) mod_action" where
  "abi_allocate b V E allocation_size = enter_guest b E (vm_allocate V allocation_size)"

text \<open>\<open>get_memory("memory").unwrap()\<close>.\<close>

definition get_memory :: "('vm, 'val) vm_ops \<Rightarrow> 'vm \<Rightarrow> u8 list outcome" where
  "get_memory V vm = (if vm_exports_memory V vm then Ok (vm_memory V vm) else Panic Memory_Missing)"

definition write_memory :: "('vm, 'val) vm_ops \<Rightarrow> nat \<Rightarrow> u8 list \<Rightarrow> 'vm \<Rightarrow> 'vm option" where
  "write_memory V ptr bytes vm =
     (let mem = vm_memory V vm in
      if ptr + length bytes \<le> length mem
      then Some (vm_put_memory V (take ptr mem @ bytes @ drop (ptr + length bytes) mem) vm)
      else None)"

definition memory_write :: "('vm, 'val) vm_ops \<Rightarrow> u32 \<Rightarrow> u8 list \<Rightarrow> ('vm, 'val, unit) mod_action" where
  "memory_write V ptr bytes st = (case ms_inner st of
     GotInst cx vm \<Rightarrow> (case obind (get_memory V vm) (\<lambda>_. or_err (write_memory V (unat ptr) bytes vm) Memory_Error) of
         Ok vm \<Rightarrow> (Ok (), st\<lparr>ms_inner := GotInst cx vm\<rparr>)
       | Err e \<Rightarrow> (Err e, st)
       | Panic p \<Rightarrow> (Panic p, st))
   | _ \<Rightarrow> (Panic Unreachable, st))"

definition abi_wakeup ::
  "build \<Rightarrow> ('vm, 'val) vm_ops \<Rightarrow> 'req host_env \<Rightarrow> u64 \<Rightarrow> u8 list option \<Rightarrow> bool \<Rightarrow> ('vm, 'val, unit) mod_action" where
  "abi_wakeup b V E async_request_id value finished =
     act_bind (case value of
         None \<Rightarrow> act_return (0, 0)
       | Some event \<Rightarrow>
           act_bind (abi_allocate b V E (of_nat (length event))) (\<lambda>ptr.
           act_bind (memory_write V ptr event) (\<lambda>_.
           act_return (ptr, of_nat (length event) :: u32)))) (\<lambda>(ptr, len).
     enter_guest b E (\<lambda>i vm. no_value (vm_wakeup V async_request_id (if finished then 1 else 0) ptr len i vm)))"

end
