(* ===== verification/Wasm_Runtime.thy ===== *)
theory Wasm_Runtime
  imports Abi
begin

text \<open>
  The life of an instance (\<open>modules/wasm.rs\<close>): a controller is started once, swapped out to a
  file while it is idle, and brought back before it is woken. Each of these is a future that
  is set as the module's work and polled until it is over; the one point at which it waits
  is the permit of the pool of instances, so a future is the work that was set, or one of
  two states that wait for the permit. Reading and writing the swap file is not split further: while a
  work is pending it holds the lock of the instance, and nothing else uses it.
\<close>

definition WASM_PAGE_SIZE :: nat where
  "WASM_PAGE_SIZE = 0x10000"

text \<open>\<open>MaybeInst\<close>: each taking operation returns what was there, if it is of the kind asked for, and locks it.\<close>

definition inst_set :: "('vm, 'val) maybe_inst \<Rightarrow> ('vm, 'val) maybe_inst \<Rightarrow> ('vm, 'val) maybe_inst \<times> ('vm, 'val) maybe_inst" where
  "inst_set val self = (self, val)"

definition inst_take :: "('vm, 'val) maybe_inst \<Rightarrow> ('vm, 'val) maybe_inst \<times> ('vm, 'val) maybe_inst" where
  "inst_take self = inst_set Locked self"

definition take_not :: "('vm, 'val) maybe_inst \<Rightarrow> ('vm, 'val) maybe_inst \<times> ('vm, 'val) maybe_inst" where
  "take_not self = (case self of NotInst _ \<Rightarrow> inst_take self | _ \<Rightarrow> (Locked, self))"

definition take_uns :: "('vm, 'val) maybe_inst \<Rightarrow> ('vm, 'val) maybe_inst \<times> ('vm, 'val) maybe_inst" where
  "take_uns self = (case self of UnsInst _ _ \<Rightarrow> inst_take self | _ \<Rightarrow> (Locked, self))"

definition take_got :: "('vm, 'val) maybe_inst \<Rightarrow> ('vm, 'val) maybe_inst \<times> ('vm, 'val) maybe_inst" where
  "take_got self = (case self of GotInst _ _ \<Rightarrow> inst_take self | _ \<Rightarrow> (Locked, self))"

definition inst_debug :: "('vm, 'val) maybe_inst \<Rightarrow> string" where
  "inst_debug self = (case self of
     Locked \<Rightarrow> debug_struct ''Locked'' []
   | NotInst _ \<Rightarrow> debug_struct ''NotInst(ctx)'' []
   | UnsInst _ _ \<Rightarrow> debug_struct ''UnsInst(ctx, snapshot)'' []
   | GotInst _ _ \<Rightarrow> debug_struct ''GotInst(store, permit, instance)'' [])"

definition set_inner :: "('vm, 'val) maybe_inst \<Rightarrow> ('vm, 'val, unit) mod_action" where
  "set_inner i = act_update (\<lambda>st. st\<lparr>ms_inner := i\<rparr>)"

definition add_permit :: "('vm, 'val) module_state \<Rightarrow> ('vm, 'val) module_state" where
  "add_permit st = st\<lparr>ms_permits := Suc (ms_permits st)\<rparr>"

text \<open>\<open>acquire_owned\<close>: the semaphore is never closed, so a permit is had or waited for.\<close>

definition acquire :: "'val wasm_work \<Rightarrow> ('vm, 'val, unit poll) mod_action \<Rightarrow> ('vm, 'val, unit poll) mod_action" where
  "acquire waiting m st =
     (if ms_permits st = 0 then (Ok Pending, st\<lparr>ms_wasm_work := Some waiting\<rparr>)
      else m (st\<lparr>ms_permits := ms_permits st - 1\<rparr>))"

section \<open>Swapping out\<close>

definition mutable_globals :: "('vm, 'val) vm_ops \<Rightarrow> 'vm \<Rightarrow> (string \<times> 'val) list" where
  "mutable_globals V vm = map (\<lambda>(name, _, v). (name, v)) (filter (\<lambda>(_, mutable, _). mutable) (vm_globals V vm))"

definition take_snapshot :: "('vm, 'val) vm_ops \<Rightarrow> 'vm \<Rightarrow> 'val snapshot" where
  "take_snapshot V vm = \<lparr>sn_globals = mutable_globals V vm, sn_memory_min = length (vm_memory V vm)\<rparr>"

text \<open>A write that fails may have cut the file off, or written a part of it.\<close>

definition file_write :: "'req host_env \<Rightarrow> string \<Rightarrow> u8 list \<Rightarrow> ('vm, 'val, unit) mod_action" where
  "file_write E path bytes = act_bind next_tick (\<lambda>n.
     if he_write_ok E n then act_update (\<lambda>st. st\<lparr>ms_files := (ms_files st)(path := Some bytes)\<rparr>)
     else act_bind (act_update (\<lambda>st. st\<lparr>ms_files := (ms_files st)(path := he_torn E n)\<rparr>)) (\<lambda>_.
       act_lift (Err File_Error)))"

definition run_uninstantiate :: "('vm, 'val) vm_ops \<Rightarrow> 'req host_env \<Rightarrow> ('vm, 'val, unit poll) mod_action" where
  "run_uninstantiate V E = act_bind act_get (\<lambda>st.
     let (taken, rest) = take_got (ms_inner st) in
     act_bind (set_inner rest) (\<lambda>_.
     act_bind (case taken of
         GotInst cx vm \<Rightarrow>
           act_guard add_permit (
           act_bind (act_lift (get_memory V vm)) (\<lambda>mem.
           act_bind (file_write E (ms_swap_path st) mem) (\<lambda>_.
           act_bind (set_inner (UnsInst cx (take_snapshot V vm))) (\<lambda>_.
           act_update add_permit))))
       | _ \<Rightarrow> act_return ()) (\<lambda>_.
     act_return (Ready ()))))"

section \<open>Starting\<close>

definition load_instance :: "('vm, 'val) vm_ops \<Rightarrow> ('vm, 'val, 'vm) mod_action" where
  "load_instance V = act_bind act_get (\<lambda>st. act_lift (or_err (vm_load V (ms_wasm_path st)) Module_Error))"

definition run_started :: "build \<Rightarrow> ('vm, 'val) vm_ops \<Rightarrow> 'req host_env \<Rightarrow> ('vm, 'val, unit poll) mod_action" where
  "run_started b V E = act_bind act_get (\<lambda>st.
     case ms_inner st of
       GotInst _ _ \<Rightarrow> act_bind (abi_start_controller b V E) (\<lambda>_. act_return (Ready ()))
     | _ \<Rightarrow> act_lift (Panic Unreachable))"

definition start_acquired :: "build \<Rightarrow> ('vm, 'val) vm_ops \<Rightarrow> 'req host_env \<Rightarrow> controller_ctx \<Rightarrow> ('vm, 'val, unit poll) mod_action" where
  "start_acquired b V E cx =
     act_bind (act_guard add_permit (load_instance V)) (\<lambda>vm.
     act_bind (set_inner (GotInst cx vm)) (\<lambda>_.
     run_started b V E))"

definition run_start :: "build \<Rightarrow> ('vm, 'val) vm_ops \<Rightarrow> 'req host_env \<Rightarrow> ('vm, 'val, unit poll) mod_action" where
  "run_start b V E = act_bind act_get (\<lambda>st.
     let (taken, rest) = take_not (ms_inner st) in
     act_bind (set_inner rest) (\<lambda>_.
     case taken of
       NotInst cx \<Rightarrow> acquire (Start_Waits cx) (start_acquired b V E cx)
     | _ \<Rightarrow> run_started b V E))"

section \<open>Bringing back\<close>

definition pages_needed :: "nat \<Rightarrow> nat \<Rightarrow> nat" where
  "pages_needed memory_min mem_size =
     (let memory_diff = memory_min - mem_size; n_pages = memory_diff div WASM_PAGE_SIZE in
      if memory_diff mod WASM_PAGE_SIZE > 0 then n_pages + 1 else n_pages)"

definition grow_to :: "('vm, 'val) vm_ops \<Rightarrow> nat \<Rightarrow> 'vm \<Rightarrow> 'vm outcome" where
  "grow_to V memory_min vm =
     (let mem_size = length (vm_memory V vm) in
      if memory_min > mem_size then or_err (vm_grow V (pages_needed memory_min mem_size) vm) Memory_Error
      else Ok vm)"

text \<open>\<open>read_exact\<close> fills the whole memory from the file, or fails at its end.\<close>

definition read_memory :: "('vm, 'val) vm_ops \<Rightarrow> u8 list \<Rightarrow> nat \<Rightarrow> 'vm \<Rightarrow> 'vm outcome" where
  "read_memory V file memory_min vm =
     (let n = length (vm_memory V vm) in
      if length file < n then Err File_Error
      else obind (ensure (n = memory_min) Assert_Failed) (\<lambda>_. Ok (vm_put_memory V (take n file) vm)))"

fun restore_globals :: "('vm, 'val) vm_ops \<Rightarrow> (string \<times> 'val) list \<Rightarrow> 'vm \<Rightarrow> 'vm outcome" where
  "restore_globals V [] vm = Ok vm"
| "restore_globals V ((name, v) # gs) vm =
     obind (ensure (name \<in> fst ` set (vm_globals V vm)) Global_Missing) (\<lambda>_.
     obind (or_err (vm_set_global V name v vm) Global_Error) (\<lambda>vm.
     restore_globals V gs vm))"

definition restore_instance :: "('vm, 'val) vm_ops \<Rightarrow> 'val snapshot \<Rightarrow> ('vm, 'val, 'vm) mod_action" where
  "restore_instance V sn =
     act_bind (load_instance V) (\<lambda>vm.
     act_bind (act_lift (get_memory V vm)) (\<lambda>_.
     act_bind act_get (\<lambda>st.
     act_bind (act_lift (or_err (ms_files st (ms_swap_path st)) File_Error)) (\<lambda>file.
     act_lift (
       obind (grow_to V (sn_memory_min sn) vm) (\<lambda>vm.
       obind (read_memory V file (sn_memory_min sn) vm) (\<lambda>vm.
       restore_globals V (sn_globals sn) vm)))))))"

definition restore_acquired ::
  "('vm, 'val) vm_ops \<Rightarrow> controller_ctx \<Rightarrow> 'val snapshot \<Rightarrow> ('vm, 'val, unit) mod_action" where
  "restore_acquired V cx sn =
     act_bind (act_guard add_permit (restore_instance V sn)) (\<lambda>vm. set_inner (GotInst cx vm))"

definition run_woken ::
  "build \<Rightarrow> ('vm, 'val) vm_ops \<Rightarrow> 'req host_env \<Rightarrow> u64 \<Rightarrow> u8 list option \<Rightarrow> bool \<Rightarrow> ('vm, 'val, unit poll) mod_action" where
  "run_woken b V E async_request_id value finished = act_bind act_get (\<lambda>st.
     case ms_inner st of
       GotInst _ _ \<Rightarrow> act_bind (abi_wakeup b V E async_request_id value finished) (\<lambda>_. act_return (Ready ()))
     | _ \<Rightarrow> act_lift (Panic Unreachable))"

definition run_loaded :: "('vm, 'val, unit poll) mod_action" where
  "run_loaded = act_bind act_get (\<lambda>st.
     case ms_inner st of
       GotInst _ _ \<Rightarrow> act_return (Ready ())
     | _ \<Rightarrow> act_lift (Panic Unreachable))"

definition after_restore :: "build \<Rightarrow> ('vm, 'val) vm_ops \<Rightarrow> 'req host_env \<Rightarrow> work \<Rightarrow> ('vm, 'val, unit poll) mod_action" where
  "after_restore b V E w = (case w of Wakeup i value finished \<Rightarrow> run_woken b V E i value finished | _ \<Rightarrow> run_loaded)"

definition run_wakeup ::
  "build \<Rightarrow> ('vm, 'val) vm_ops \<Rightarrow> 'req host_env \<Rightarrow> u64 \<Rightarrow> u8 list option \<Rightarrow> bool \<Rightarrow> ('vm, 'val, unit poll) mod_action" where
  "run_wakeup b V E async_request_id value finished = act_bind act_get (\<lambda>st.
     let (taken, rest) = take_uns (ms_inner st) in
     act_bind (set_inner rest) (\<lambda>_.
     case taken of
       UnsInst cx sn \<Rightarrow>
         acquire (Restore_Waits (Wakeup async_request_id value finished) cx sn) (
         act_bind (restore_acquired V cx sn) (\<lambda>_.
         run_woken b V E async_request_id value finished))
     | _ \<Rightarrow> run_woken b V E async_request_id value finished))"

definition run_load_to_mem :: "('vm, 'val) vm_ops \<Rightarrow> ('vm, 'val, unit poll) mod_action" where
  "run_load_to_mem V = act_bind act_get (\<lambda>st.
     let (taken, rest) = take_uns (ms_inner st) in
     act_bind (set_inner rest) (\<lambda>_.
     case taken of
       UnsInst cx sn \<Rightarrow>
         acquire (Restore_Waits Load_To_Mem cx sn) (
         act_bind (restore_acquired V cx sn) (\<lambda>_. run_loaded))
     | _ \<Rightarrow> run_loaded))"

section \<open>The runtime\<close>

definition poll_work :: "build \<Rightarrow> ('vm, 'val) vm_ops \<Rightarrow> 'req host_env \<Rightarrow> 'val wasm_work \<Rightarrow> ('vm, 'val, unit poll) mod_action" where
  "poll_work b V E w = (case w of
     Fresh Uninstantiate \<Rightarrow> run_uninstantiate V E
   | Fresh Start \<Rightarrow> run_start b V E
   | Fresh (Wakeup i value finished) \<Rightarrow> run_wakeup b V E i value finished
   | Fresh Load_To_Mem \<Rightarrow> run_load_to_mem V
   | Start_Waits cx \<Rightarrow> acquire (Start_Waits cx) (start_acquired b V E cx)
   | Restore_Waits w cx sn \<Rightarrow>
       acquire (Restore_Waits w cx sn) (act_bind (restore_acquired V cx sn) (\<lambda>_. after_restore b V E w)))"

definition poll_unpin :: "build \<Rightarrow> ('vm, 'val) vm_ops \<Rightarrow> 'req host_env \<Rightarrow> ('vm, 'val, unit poll) mod_action" where
  "poll_unpin b V E = act_bind act_get (\<lambda>st.
     case ms_wasm_work st of
       None \<Rightarrow> act_return (Ready ())
     | Some w \<Rightarrow> act_bind (poll_work b V E w) (\<lambda>res.
         case res of
           Pending \<Rightarrow> act_return Pending
         | Ready _ \<Rightarrow> act_bind (act_update (\<lambda>st. st\<lparr>ms_wasm_work := None\<rparr>)) (\<lambda>_. act_return (Ready ()))))"

definition assert_idle :: "('vm, 'val, unit) mod_action" where
  "assert_idle = act_bind act_get (\<lambda>st. act_lift (ensure (ms_wasm_work st = None) Assert_Failed))"

definition set_wasm_work :: "work \<Rightarrow> ('vm, 'val, unit) mod_action" where
  "set_wasm_work w = act_bind assert_idle (\<lambda>_. act_update (\<lambda>st. st\<lparr>ms_wasm_work := Some (Fresh w)\<rparr>))"

definition set_uninstantiating :: "bool \<Rightarrow> ('vm, 'val, unit) mod_action" where
  "set_uninstantiating u = act_update (\<lambda>st. st\<lparr>ms_uninstantiating := u\<rparr>)"

text \<open>A runtime that has just been made, with its part of the permits.\<close>

record ('vm, 'val) wasm_runtime =
  wr_inner :: "('vm, 'val) maybe_inst"
  wr_wasm_work :: "'val wasm_work option"
  wr_uninstantiating :: bool
  wr_wasm_path :: string
  wr_swap_path :: string
  wr_permits :: nat

definition wasm_runtime_new :: "controller_ctx \<Rightarrow> string \<Rightarrow> string \<Rightarrow> nat \<Rightarrow> ('vm, 'val) wasm_runtime" where
  "wasm_runtime_new controller_ctx wasm_path swap_path async_active_client_counter =
     \<lparr>wr_inner = NotInst controller_ctx, wr_wasm_work = None, wr_uninstantiating = True, wr_wasm_path = wasm_path,
      wr_swap_path = swap_path, wr_permits = async_active_client_counter\<rparr>"

text \<open>Its text; how a path is quoted is the parameter \<open>debug_path\<close>.\<close>

definition wasm_debug :: "(string \<Rightarrow> string) \<Rightarrow> ('vm, 'val) wasm_runtime \<Rightarrow> string" where
  "wasm_debug debug_path self =
     debug_struct ''WasmRuntime'' [(''uninstantiating'', debug_bool (wr_uninstantiating self)), (''swap_path'', debug_path (wr_swap_path self)),
       (''wasm_work'', if wr_wasm_work self = None then [CHR 0x22] @ ''None'' @ [CHR 0x22] else [CHR 0x22] @ ''Some(...)'' @ [CHR 0x22])]"

definition is_uninstantiating :: "('vm, 'val) module_state \<Rightarrow> bool" where
  "is_uninstantiating st = ms_uninstantiating st"

definition wasm_uninstantiate :: "('vm, 'val, unit) mod_action" where
  "wasm_uninstantiate =
     act_bind assert_idle (\<lambda>_. act_bind (set_wasm_work Uninstantiate) (\<lambda>_. set_uninstantiating True))"

definition wasm_start_controller :: "('vm, 'val, unit) mod_action" where
  "wasm_start_controller =
     act_bind assert_idle (\<lambda>_. act_bind (set_wasm_work Start) (\<lambda>_. set_uninstantiating False))"

definition wasm_wakeup :: "u64 \<Rightarrow> u8 list option \<Rightarrow> bool \<Rightarrow> ('vm, 'val, unit) mod_action" where
  "wasm_wakeup async_request_id value finished =
     act_bind assert_idle (\<lambda>_. act_bind (set_wasm_work (Wakeup async_request_id value finished)) (\<lambda>_. set_uninstantiating False))"

definition wasm_load_to_mem :: "('vm, 'val, unit) mod_action" where
  "wasm_load_to_mem =
     act_bind assert_idle (\<lambda>_. act_bind (set_wasm_work Load_To_Mem) (\<lambda>_. set_uninstantiating False))"

end
