(* ===== verification/Event_Loop.thy ===== *)
theory Event_Loop
  imports Wasm_Runtime
begin

text \<open>
  The event loop of a controller module (\<open>modules/module.rs\<close>): it collects the results of
  asynchronous requests, wakes the controller with each, swaps the controller out when it has been
  idle, and brings it back shortly before the time at which the next event is predicted.
  Times are nanoseconds; a span counts as its whole milliseconds, rounded towards zero.
\<close>

definition BUFFER_LENGTH :: nat where
  "BUFFER_LENGTH = 50"

definition SHUTDOWN_INACTIVE_INTERVAL_MS :: int where
  "SHUTDOWN_INACTIVE_INTERVAL_MS = 1000"

definition TIME_BEFORE_PREDICTED_MS :: int where
  "TIME_BEFORE_PREDICTED_MS = 1000"

definition GRACE_PERIOD_MS :: int where
  "GRACE_PERIOD_MS = 1000"

definition num_milliseconds :: "int \<Rightarrow> int" where
  "num_milliseconds d = (if 0 \<le> d then d div 1000000 else - ((- d) div 1000000))"

definition days :: "int \<Rightarrow> int" where
  "days n = n * 86400 * 1000000000"

definition in_time_before_prediction_period :: "int \<Rightarrow> int \<Rightarrow> bool" where
  "in_time_before_prediction_period current_time predicted_time =
     (let difference = num_milliseconds (predicted_time - current_time) in
      difference > 0 \<and> difference < TIME_BEFORE_PREDICTED_MS)"

definition in_time_grace_period :: "int \<Rightarrow> int \<Rightarrow> bool" where
  "in_time_grace_period current_time predicted_time =
     (let difference = num_milliseconds (current_time - predicted_time) in
      difference > 0 \<and> difference < GRACE_PERIOD_MS)"

definition is_inactive_period :: "int \<Rightarrow> int \<Rightarrow> bool" where
  "is_inactive_period current_time last_event =
     (let difference = num_milliseconds (current_time - last_event) in
      difference > SHUTDOWN_INACTIVE_INTERVAL_MS)"

definition module_new ::
  "'req host_env \<Rightarrow> controller_ctx \<Rightarrow> string \<Rightarrow> string \<Rightarrow> nat \<Rightarrow> (string \<Rightarrow> u8 list option) \<Rightarrow> ('vm, 'val) module_state" where
  "module_new E cx wasm_path swap_path permits files =
     (let wasm = wasm_runtime_new cx wasm_path swap_path permits in
      \<lparr>ms_inner = wr_inner wasm, ms_wasm_work = wr_wasm_work wasm, ms_uninstantiating = wr_uninstantiating wasm,
       ms_wasm_path = wr_wasm_path wasm, ms_swap_path = wr_swap_path wasm, ms_runner = runner_new,
       ms_last_event_time = he_now E 0, ms_last_events = [he_now E 1],
       ms_predicted = he_now E 2 + days 999, ms_sleep_vec = [], ms_first_event_after_shutdown = True,
       ms_permits = wr_permits wasm, ms_files = files, ms_tick = 3, ms_wakes = 0\<rparr>)"

text \<open>
  Making the blocking client of the prediction server, whose documentation says that it panics inside an
  asynchronous runtime, is the one part of \<open>ControllerModule::new\<close> that can fail; \<open>client_ok\<close> says whether it does not.
\<close>

definition controller_module_new ::
  "bool \<Rightarrow> 'req host_env \<Rightarrow> controller_ctx \<Rightarrow> string \<Rightarrow> string \<Rightarrow> nat \<Rightarrow> (string \<Rightarrow> u8 list option) \<Rightarrow>
   ('vm, 'val) module_state outcome" where
  "controller_module_new client_ok E cx wasm_path swap_path permits files =
     obind (ensure client_ok Http_Client_Panic) (\<lambda>_. Ok (module_new E cx wasm_path swap_path permits files))"

lemma module_new_eq:
  "module_new E cx wasm_path swap_path permits files =
     \<lparr>ms_inner = NotInst cx, ms_wasm_work = None, ms_uninstantiating = True,
      ms_wasm_path = wasm_path, ms_swap_path = swap_path, ms_runner = runner_new,
      ms_last_event_time = he_now E 0, ms_last_events = [he_now E 1],
      ms_predicted = he_now E 2 + days 999, ms_sleep_vec = [], ms_first_event_after_shutdown = True,
      ms_permits = permits, ms_files = files, ms_tick = 3, ms_wakes = 0\<rparr>"
  by (simp add: module_new_def wasm_runtime_new_def)

definition add_event_time :: "int \<Rightarrow> ('vm, 'val, unit) mod_action" where
  "add_event_time time = act_update (\<lambda>st.
     let es = ms_last_events st;
         es = (if BUFFER_LENGTH \<le> length es then tl es else es)
     in st\<lparr>ms_last_events := es @ [time]\<rparr>)"

text \<open>A timer is polled once, so that it wakes the task, and kept: when it was made and for how long.\<close>

definition push_sleep :: "nat \<Rightarrow> ('vm, 'val, unit) mod_action" where
  "push_sleep millis = act_bind next_tick (\<lambda>n.
     act_update (\<lambda>st. st\<lparr>ms_sleep_vec := ms_sleep_vec st @ [(n, millis)]\<rparr>))"

section \<open>Collecting results\<close>

text \<open>
  The loop of \<open>resolve_async_ops\<close>, on the runner alone. A turn polls the pending operations and
  then the channel; it goes round again, \<open>None\<close>, when an operation was finished and no result
  has come. \<open>nr_web_calls -= 1\<close> panics below zero: a release build wraps there, but the count
  never is zero then.
\<close>

definition take_web_call :: "bool \<Rightarrow> (runner, unit) action" where
  "take_web_call val = act_bind act_get (\<lambda>R.
     if val then
       act_bind (act_lift (ensure (0 < rn_nr_web_calls R) Overflow)) (\<lambda>_.
       act_update (\<lambda>R. R\<lparr>rn_nr_web_calls := rn_nr_web_calls R - 1\<rparr>))
     else act_return ())"

definition after_poll :: "(host_error + bool) option poll \<Rightarrow> (runner, unit) action" where
  "after_poll poll_result = (case poll_result of
     Ready (Some (Inr val)) \<Rightarrow> take_web_call val
   | Ready (Some (Inl err)) \<Rightarrow> act_lift (Err err)
   | _ \<Rightarrow> act_return ())"

definition poll_next_unpin :: "(nat \<times> nat) list \<Rightarrow> (runner, (host_error + bool) option poll) action" where
  "poll_next_unpin sched R = (case poll_next_op sched (rn_pending_ops R) (rn_channel R) of
     Ok (p, ops, ch) \<Rightarrow> (Ok p, R\<lparr>rn_pending_ops := ops, rn_channel := ch\<rparr>)
   | Err e \<Rightarrow> (Err e, R)
   | Panic p \<Rightarrow> (Panic p, R))"

definition collect_turn :: "(nat \<times> nat) list \<Rightarrow> (runner, async_result option option) action" where
  "collect_turn sched =
     act_bind (poll_next_unpin sched) (\<lambda>poll_result.
     act_bind (after_poll poll_result) (\<lambda>_.
     act_bind poll_recv (\<lambda>received.
     act_return (case received of
         Ready result \<Rightarrow> Some (Some result)
       | Pending \<Rightarrow> (case poll_result of Ready (Some _) \<Rightarrow> None | _ \<Rightarrow> Some None)))))"

lemma length_drop_nth [simp]: "i < length xs \<Longrightarrow> length (drop_nth i xs) = length xs - 1"
  by (simp add: drop_nth_def)

lemma poll_ops_length:
  "poll_ops sched ops ch = Ok (p, ops', ch') \<Longrightarrow>
     length ops' = (case p of Ready _ \<Rightarrow> length ops - 1 | Pending \<Rightarrow> length ops) \<and> (p \<noteq> Pending \<longrightarrow> ops \<noteq> [])"
proof (induction sched ops ch arbitrary: p ops' ch' rule: poll_ops.induct)
  case (1 ops ch)
  then show ?case by simp
next
  case (2 i n sched ops ch)
  show ?case
  proof (cases "i < length ops")
    case True
    then obtain q c ch1 where q: "opcall_poll n (ops ! i) ch = Ok (q, c, ch1)"
      "(case q of Ready r \<Rightarrow> Ok (Ready r, drop_nth i ops, ch1) | Pending \<Rightarrow> poll_ops sched (ops[i := c]) ch1) = Ok (p, ops', ch')"
      using 2(3) by (auto simp: obind_Ok_iff)
    then show ?thesis using True 2(1) [OF True q(1) refl refl, of p ops' ch'] by (cases q; cases p) (auto split: poll.splits)
  next
    case False
    then show ?thesis using 2(2) [OF False, of p ops' ch'] 2(3) by simp
  qed
qed

lemma poll_next_unpin_length:
  assumes "poll_next_unpin sched R = (Ok (Ready (Some r)), R')"
  shows "length (rn_pending_ops R') < length (rn_pending_ops R)"
proof -
  obtain ops ch where n: "poll_next_op sched (rn_pending_ops R) (rn_channel R) = Ok (Ready (Some r), ops, ch)"
    and R': "R' = R\<lparr>rn_pending_ops := ops, rn_channel := ch\<rparr>"
    using assms unfolding poll_next_unpin_def by (auto split: outcome.splits)
  obtain p where "poll_ops sched (rn_pending_ops R) (rn_channel R) = Ok (p, ops, ch)" "p = Ready r" "rn_pending_ops R \<noteq> []"
    using n unfolding poll_next_op_def
    by (auto simp: obind_Ok_iff split: if_splits poll.splits) (metis poll.exhaust)
  then show ?thesis using poll_ops_length R' by fastforce
qed

lemma after_poll_ops: "after_poll p R = (r, R') \<Longrightarrow> rn_pending_ops R' = rn_pending_ops R"
  by (auto simp: after_poll_def take_web_call_def act_bind_def act_run ensure_def
      split: poll.splits option.splits sum.splits if_splits)

lemma poll_recv_ops: "poll_recv R = (p, R') \<Longrightarrow> rn_pending_ops R' = rn_pending_ops R"
  by (auto simp: poll_recv_def split: list.splits)

lemma collect_turn_again:
  assumes "collect_turn sched R = (Ok None, R')"
  shows "length (rn_pending_ops R') < length (rn_pending_ops R)"
proof -
  obtain p R1 where p: "poll_next_unpin sched R = (Ok p, R1)"
    using assms unfolding collect_turn_def act_bind_def by (auto split: prod.splits outcome.splits)
  obtain R2 where a: "after_poll p R1 = (Ok (), R2)"
    using assms p unfolding collect_turn_def by (auto simp: act_bind_def split: prod.splits outcome.splits)
  obtain q R3 where q: "poll_recv R2 = (Ok q, R3)" by (cases "rn_channel R2") (auto simp: poll_recv_def)
  obtain r where "p = Ready (Some r)" "R' = R3"
    using assms p a q unfolding collect_turn_def by (auto simp: act_bind_def act_run split: poll.splits option.splits)
  then show ?thesis using poll_next_unpin_length [of sched R r R1] p after_poll_ops [OF a] poll_recv_ops [OF q] by simp
qed

function collect_loop :: "'req host_env \<Rightarrow> nat \<Rightarrow> runner \<Rightarrow> async_result option outcome \<times> nat \<times> runner" where
  "collect_loop E tick R =
     (case collect_turn (he_sched E tick) R of
        (Ok (Some r), R) \<Rightarrow> (Ok r, Suc tick, R)
      | (Ok None, R) \<Rightarrow> collect_loop E (Suc tick) R
      | (Err e, R) \<Rightarrow> (Err e, Suc tick, R)
      | (Panic p, R) \<Rightarrow> (Panic p, Suc tick, R))"
  by pat_completeness auto

termination
  by (relation "measure (\<lambda>(E, tick, R). length (rn_pending_ops R))") (simp_all add: collect_turn_again)

declare collect_loop.simps [simp del]

text \<open>The first half of \<open>resolve_async_ops\<close>: the runner's lock is held only here.\<close>

definition collect_result :: "'req host_env \<Rightarrow> ('vm, 'val, async_result option) mod_action" where
  "collect_result E st =
     (case collect_loop E (ms_tick st) ((ms_runner st)\<lparr>rn_have_unpolled_ops := False\<rparr>) of
        (r, tick, R) \<Rightarrow> (r, st\<lparr>ms_runner := R, ms_tick := tick\<rparr>))"

definition note_event :: "'req host_env \<Rightarrow> ('vm, 'val, unit) mod_action" where
  "note_event E = act_bind act_get (\<lambda>st.
     if ms_first_event_after_shutdown st then
       act_bind (act_update (\<lambda>st. st\<lparr>ms_first_event_after_shutdown := False\<rparr>)) (\<lambda>_.
       act_bind (utc_now E) (\<lambda>now_timestamp.
       add_event_time now_timestamp))
     else act_return ())"

definition reset_failed_prediction :: "'req host_env \<Rightarrow> ('vm, 'val, unit) mod_action" where
  "reset_failed_prediction E = act_bind act_get (\<lambda>st.
     if is_uninstantiating st then
       act_bind (utc_now E) (\<lambda>now. act_update (\<lambda>st. st\<lparr>ms_predicted := now + days 999\<rparr>))
     else act_return ())"

definition note_finished :: "'req host_env \<Rightarrow> async_result \<Rightarrow> ('vm, 'val, unit) mod_action" where
  "note_finished E result =
     (if ar_finished result then
        act_bind (utc_now E) (\<lambda>now.
        act_bind (act_update (\<lambda>st. st\<lparr>ms_last_event_time := now\<rparr>)) (\<lambda>_.
        push_sleep (nat (SHUTDOWN_INACTIVE_INTERVAL_MS + 10))))
      else act_return ())"

definition resolve_async_ops :: "'req host_env \<Rightarrow> ('vm, 'val, bool) mod_action" where
  "resolve_async_ops E =
     act_bind (collect_result E) (\<lambda>maybe_result.
     case maybe_result of
       None \<Rightarrow> act_return False
     | Some result \<Rightarrow>
         act_bind (note_event E) (\<lambda>_.
         act_bind (reset_failed_prediction E) (\<lambda>_.
         act_bind (note_finished E result) (\<lambda>_.
         act_bind (wasm_wakeup (ar_id result) (ar_value result) (ar_finished result)) (\<lambda>_.
         act_return True)))))"

section \<open>One poll\<close>

text \<open>
  \<open>while self.wasm.poll_unpin(cx)?.is_ready() && self.resolve_async_ops(cx)? {}\<close>: it need not
  end, when the controller answers every result with a request that is ready at once, so it
  has a bound; \<open>None\<close> is a bound that was too small.
\<close>

fun resolve_loop :: "build \<Rightarrow> ('vm, 'val) vm_ops \<Rightarrow> 'req host_env \<Rightarrow> nat \<Rightarrow> ('vm, 'val) module_state \<Rightarrow>
    (unit outcome \<times> ('vm, 'val) module_state) option" where
  "resolve_loop b V E 0 st = None"
| "resolve_loop b V E (Suc n) st =
     (case act_bind (poll_unpin b V E) (\<lambda>p. if p = Ready () then resolve_async_ops E else act_return False) st of
        (Ok again, st) \<Rightarrow> (if again then resolve_loop b V E n st else Some (Ok (), st))
      | (Err e, st) \<Rightarrow> Some (Err e, st)
      | (Panic p, st) \<Rightarrow> Some (Panic p, st))"

text \<open>\<open>wake_by_ref\<close> when operations were added since the last poll.\<close>

definition wake_unpolled :: "('vm, 'val, unit) mod_action" where
  "wake_unpolled = act_bind act_get (\<lambda>st.
     if rn_have_unpolled_ops (ms_runner st) then wake_by_ref else act_return ())"

definition reset_missed_prediction :: "int \<Rightarrow> ('vm, 'val, unit) mod_action" where
  "reset_missed_prediction current_time = act_bind act_get (\<lambda>st.
     if num_milliseconds (current_time - ms_predicted st) > 0 \<and> \<not> in_time_grace_period current_time (ms_predicted st)
     then act_bind (act_update (\<lambda>st. st\<lparr>ms_predicted := current_time + days 999\<rparr>)) (\<lambda>_. wake_by_ref)
     else act_return ())"

definition maybe_load :: "int \<Rightarrow> ('vm, 'val, unit) mod_action" where
  "maybe_load current_time = act_bind act_get (\<lambda>st.
     if is_uninstantiating st \<and> in_time_before_prediction_period current_time (ms_predicted st) then
       act_bind wasm_load_to_mem (\<lambda>_.
       act_bind wake_by_ref (\<lambda>_.
       push_sleep (nat (GRACE_PERIOD_MS + TIME_BEFORE_PREDICTED_MS))))
     else act_return ())"

text \<open>The request to the prediction server, with the history of events.\<close>

definition predict :: "'req host_env \<Rightarrow> ('vm, 'val, unit) mod_action" where
  "predict E = act_bind next_tick (\<lambda>n.
     case he_predict E n of
       None \<Rightarrow> act_return ()
     | Some resp \<Rightarrow>
         act_bind (act_lift (or_panic resp Unreadable_Prediction)) (\<lambda>prediction.
         act_bind (act_update (\<lambda>st. st\<lparr>ms_predicted := prediction\<rparr>)) (\<lambda>_.
         act_bind (utc_now E) (\<lambda>now.
         let next_time = \<bar>num_milliseconds (prediction - now) - TIME_BEFORE_PREDICTED_MS + 5\<bar> in
         push_sleep (nat next_time)))))"

definition may_shut_down :: "bool \<Rightarrow> int \<Rightarrow> ('vm, 'val) module_state \<Rightarrow> bool" where
  "may_shut_down COMPILE_WITH_UNINSTANTIATE current_time st \<longleftrightarrow>
     rn_nr_web_calls (ms_runner st) = 0 \<and> \<not> is_uninstantiating st \<and> COMPILE_WITH_UNINSTANTIATE \<and>
     is_inactive_period current_time (ms_last_event_time st) \<and>
     \<not> in_time_before_prediction_period current_time (ms_predicted st) \<and>
     \<not> in_time_grace_period current_time (ms_predicted st)"

definition maybe_shut_down :: "bool \<Rightarrow> 'req host_env \<Rightarrow> int \<Rightarrow> ('vm, 'val, unit) mod_action" where
  "maybe_shut_down cu E current_time = act_bind act_get (\<lambda>st.
     if may_shut_down cu current_time st then
       act_bind wasm_uninstantiate (\<lambda>_.
       act_bind wake_by_ref (\<lambda>_.
       act_bind (if \<not> ms_first_event_after_shutdown st then predict E else act_return ()) (\<lambda>_.
       act_update (\<lambda>st. st\<lparr>ms_first_event_after_shutdown := True\<rparr>))))
     else act_return ())"

definition drop_old_sleeps :: "'req host_env \<Rightarrow> ('vm, 'val, unit) mod_action" where
  "drop_old_sleeps E = act_bind next_tick (\<lambda>n.
     act_update (\<lambda>st. st\<lparr>ms_sleep_vec := filter (\<lambda>e. \<not> he_elapsed E n e) (ms_sleep_vec st)\<rparr>))"

definition after_resolve :: "bool \<Rightarrow> build \<Rightarrow> ('vm, 'val) vm_ops \<Rightarrow> 'req host_env \<Rightarrow> ('vm, 'val, unit poll) mod_action" where
  "after_resolve cu b V E = act_bind (poll_unpin b V E) (\<lambda>p.
     if p = Pending then act_return Pending
     else act_bind act_get (\<lambda>st.
       if rn_pending_ops (ms_runner st) = [] then act_return (Ready ())
       else
         act_bind wake_unpolled (\<lambda>_.
         act_bind (utc_now E) (\<lambda>current_time.
         act_bind (reset_missed_prediction current_time) (\<lambda>_.
         act_bind (maybe_load current_time) (\<lambda>_.
         act_bind (maybe_shut_down cu E current_time) (\<lambda>_.
         act_bind (drop_old_sleeps E) (\<lambda>_.
         act_return Pending))))))))"

definition poll_event_loop :: "nat \<Rightarrow> bool \<Rightarrow> build \<Rightarrow> ('vm, 'val) vm_ops \<Rightarrow> 'req host_env \<Rightarrow> ('vm, 'val) module_state \<Rightarrow>
    (unit poll outcome \<times> ('vm, 'val) module_state) option" where
  "poll_event_loop n cu b V E st =
     (case resolve_loop b V E n st of
        None \<Rightarrow> None
      | Some (Ok _, st) \<Rightarrow> Some (after_resolve cu b V E st)
      | Some (Err e, st) \<Rightarrow> Some (Err e, st)
      | Some (Panic p, st) \<Rightarrow> Some (Panic p, st))"

text \<open>\<open>start\<close>: the first work is set, then the loop is polled until it is ready.\<close>

definition module_start :: "('vm, 'val, unit) mod_action" where
  "module_start = wasm_start_controller"

fun run_event_loop :: "nat \<Rightarrow> nat \<Rightarrow> bool \<Rightarrow> build \<Rightarrow> ('vm, 'val) vm_ops \<Rightarrow> 'req host_env \<Rightarrow> ('vm, 'val) module_state \<Rightarrow>
    (unit outcome \<times> ('vm, 'val) module_state) option" where
  "run_event_loop 0 n cu b V E st = None"
| "run_event_loop (Suc m) n cu b V E st =
     (case poll_event_loop n cu b V E st of
        None \<Rightarrow> None
      | Some (Ok (Ready _), st) \<Rightarrow> Some (Ok (), st)
      | Some (Ok Pending, st) \<Rightarrow> run_event_loop m n cu b V E st
      | Some (Err e, st) \<Rightarrow> Some (Err e, st)
      | Some (Panic p, st) \<Rightarrow> Some (Panic p, st))"

section \<open>The periods in nanoseconds\<close>

lemma num_milliseconds_ge: "0 < k \<Longrightarrow> k \<le> num_milliseconds d \<longleftrightarrow> k * 1000000 \<le> d"
proof -
  assume k: "0 < k"
  have "k \<le> d div 1000000 \<longleftrightarrow> k * 1000000 \<le> d"
  proof
    assume "k \<le> d div 1000000"
    then have "k * 1000000 \<le> d div 1000000 * 1000000" by simp
    also have "\<dots> \<le> d" by simp
    finally show "k * 1000000 \<le> d" .
  next
    assume "k * 1000000 \<le> d"
    then have "k * 1000000 div 1000000 \<le> d div 1000000" by (intro zdiv_mono1) simp_all
    then show "k \<le> d div 1000000" by simp
  qed
  moreover have "\<not> 0 \<le> d \<Longrightarrow> - ((- d) div 1000000) \<le> 0" by simp
  ultimately show ?thesis using k by (auto simp: num_milliseconds_def)
qed

lemma in_time_before_iff:
  "in_time_before_prediction_period now predicted \<longleftrightarrow> 1000000 \<le> predicted - now \<and> predicted - now < 1000 * 1000000"
  using num_milliseconds_ge [of 1 "predicted - now"] num_milliseconds_ge [of 1000 "predicted - now"]
  by (auto simp: in_time_before_prediction_period_def TIME_BEFORE_PREDICTED_MS_def)

lemma in_time_grace_iff:
  "in_time_grace_period now predicted \<longleftrightarrow> 1000000 \<le> now - predicted \<and> now - predicted < 1000 * 1000000"
  using num_milliseconds_ge [of 1 "now - predicted"] num_milliseconds_ge [of 1000 "now - predicted"]
  by (auto simp: in_time_grace_period_def GRACE_PERIOD_MS_def)

lemma is_inactive_iff: "is_inactive_period now last_event \<longleftrightarrow> 1001 * 1000000 \<le> now - last_event"
  using num_milliseconds_ge [of 1001 "now - last_event"]
  by (auto simp: is_inactive_period_def SHUTDOWN_INACTIVE_INTERVAL_MS_def)

section \<open>The steps of handing over a result\<close>

lemma note_event_eq:
  "note_event E st =
     (Ok (), if ms_first_event_after_shutdown st
       then st\<lparr>ms_first_event_after_shutdown := False, ms_tick := Suc (ms_tick st),
              ms_last_events := (if BUFFER_LENGTH \<le> length (ms_last_events st) then tl (ms_last_events st) else ms_last_events st) @
                [he_now E (ms_tick st)]\<rparr>
       else st)"
  by (simp add: note_event_def utc_now_def next_tick_def add_event_time_def act_bind_def act_run Let_def)

lemma reset_failed_prediction_eq:
  "reset_failed_prediction E st =
     (Ok (), if ms_uninstantiating st then st\<lparr>ms_tick := Suc (ms_tick st), ms_predicted := he_now E (ms_tick st) + days 999\<rparr> else st)"
  by (simp add: reset_failed_prediction_def is_uninstantiating_def utc_now_def next_tick_def act_bind_def act_run)

lemma note_finished_eq:
  "note_finished E r st =
     (Ok (), if ar_finished r
       then st\<lparr>ms_last_event_time := he_now E (ms_tick st), ms_tick := Suc (Suc (ms_tick st)),
              ms_sleep_vec := ms_sleep_vec st @ [(Suc (ms_tick st), nat (SHUTDOWN_INACTIVE_INTERVAL_MS + 10))]\<rparr>
       else st)"
  by (simp add: note_finished_def push_sleep_def utc_now_def next_tick_def act_bind_def act_run)

lemma wasm_wakeup_eq:
  assumes "ms_wasm_work st = None"
  shows "wasm_wakeup i val finished st =
    (Ok (), st\<lparr>ms_wasm_work := Some (Fresh (Wakeup i val finished)), ms_uninstantiating := False\<rparr>)"
  using assms by (simp add: wasm_wakeup_def assert_idle_def set_wasm_work_def set_uninstantiating_def act_bind_def act_run)

end
