(* ===== verification/Environment.thy ===== *)
theory Environment
  imports Event_Loop
begin

text \<open>
  How the host finds and prepares its modules: the list of modules (\<open>modules/metadata.rs\<close>), the
  cache of compiled modules and the making of a module (\<open>runtime/environment.rs\<close>). The YAML
  parser, the hash and the compiler are parameters.
\<close>

section \<open>Paths and text\<close>

text \<open>\<open>Path::join\<close> with a relative path.\<close>

definition path_join :: "string \<Rightarrow> string \<Rightarrow> string" where
  "path_join dir name = (if dir = [] \<or> last dir = CHR ''/'' then dir @ name else dir @ ''/'' @ name)"

text \<open>\<open>str::split\<close> on a string that is not empty: the piece read so far is kept in reverse.\<close>

fun starts_with :: "string \<Rightarrow> string \<Rightarrow> bool" where
  "starts_with [] s = True"
| "starts_with (p # ps) [] = False"
| "starts_with (p # ps) (c # s) = (p = c \<and> starts_with ps s)"

function split_on :: "string \<Rightarrow> string \<Rightarrow> string \<Rightarrow> string list" where
  "split_on sep piece [] = [rev piece]"
| "split_on sep piece (c # s) =
     (if sep \<noteq> [] \<and> starts_with sep (c # s) then rev piece # split_on sep [] (drop (length sep) (c # s))
      else split_on sep (c # piece) s)"
  by pat_completeness auto

termination by (relation "measure (\<lambda>(sep, piece, s). length s)") auto

fun contains :: "string \<Rightarrow> string \<Rightarrow> bool" where
  "contains pat [] = (pat = [])"
| "contains pat (c # s) = (starts_with pat (c # s) \<or> contains pat s)"

section \<open>Metadata\<close>

record environment_variable =
  ev_name :: string
  ev_value :: string

record metadata =
  md_name :: string
  md_wasm :: string
  md_env :: "environment_variable list"
  md_args :: "string list"

text \<open>The parser yields the text of its error or the metadata.\<close>

type_synonym yaml = "string \<Rightarrow> string + metadata"

definition yaml_doc :: "yaml \<Rightarrow> string \<Rightarrow> metadata outcome option" where
  "yaml_doc from_str doc = (case from_str doc of
     Inl err \<Rightarrow> if contains ''EOF while parsing a value'' err then None else Some (Err Yaml_Error)
   | Inr md \<Rightarrow> Some (Ok md))"

text \<open>\<open>collect\<close> into a \<open>Result\<close>: the first error, if there is one.\<close>

fun collect_results :: "'a outcome list \<Rightarrow> 'a list outcome" where
  "collect_results [] = Ok []"
| "collect_results (r # rs) = obind r (\<lambda>x. obind (collect_results rs) (\<lambda>xs. Ok (x # xs)))"

definition load_modules_from_dir :: "yaml \<Rightarrow> (string \<Rightarrow> string option) \<Rightarrow> string \<Rightarrow> metadata list outcome" where
  "load_modules_from_dir from_str read_to_string dir =
     obind (or_err (read_to_string (path_join dir ''wasm_config.yaml'')) File_Error) (\<lambda>wasm_config.
     collect_results (List.map_filter (yaml_doc from_str) (split_on (CHR 0x0A # ''---'') [] wasm_config)))"

text \<open>
  \<open>main\<close>, up to the tasks it starts: the configuration of the cluster, the service, the
  directories, the list of modules. What is left are the two directories and the modules, each
  sent as a command, in order. Every error of a step is a panic.
\<close>

definition controller_main ::
  "'config option \<Rightarrow> ('config \<Rightarrow> 'service option) \<Rightarrow> (string \<Rightarrow> bool) \<Rightarrow> yaml \<Rightarrow> (string \<Rightarrow> string option) \<Rightarrow>
   string \<Rightarrow> string list \<Rightarrow> ('service \<times> string \<times> string \<times> metadata list) outcome" where
  "controller_main infer create_client_service create_dir_all from_str read_to_string temp_dir args =
     obind (or_panic infer Expect_Failed) (\<lambda>kubeconfig.
     obind (or_panic (create_client_service kubeconfig) Expect_Failed) (\<lambda>service.
     obind (ensure (2 \<le> length args) Assert_Failed) (\<lambda>_.
     let path = args ! 1;
         cache_path = path_join temp_dir ''cache'';
         swap_path = path_join temp_dir ''swap''
     in obind (ensure (create_dir_all cache_path) Unwrap_None) (\<lambda>_.
     obind (ensure (create_dir_all swap_path) Unwrap_None) (\<lambda>_.
     (case load_modules_from_dir from_str read_to_string path of
        Ok mods \<Rightarrow> Ok (service, cache_path, swap_path, mods)
      | Err e \<Rightarrow> Panic Expect_Failed
      | Panic p \<Rightarrow> Panic p))))))"

section \<open>The cache of compiled modules\<close>

type_synonym files = "string \<Rightarrow> u8 list option"

definition cache_file :: "(u8 list \<Rightarrow> string) \<Rightarrow> string \<Rightarrow> u8 list \<Rightarrow> string" where
  "cache_file hash cache_path wasm_bytes = path_join cache_path (hash wasm_bytes @ ''.wasm'')"

text \<open>\<open>torn\<close> is what a write that fails leaves in the file.\<close>

definition cache_precompile ::
  "(u8 list \<Rightarrow> string) \<Rightarrow> (u8 list \<Rightarrow> u8 list option) \<Rightarrow> (string \<Rightarrow> bool) \<Rightarrow> (string \<Rightarrow> u8 list option) \<Rightarrow> string \<Rightarrow> string \<Rightarrow>
   (files, string) action" where
  "cache_precompile hash precompile_module write_ok torn wasm_path cache_path =
     act_bind act_get (\<lambda>files.
     act_bind (act_lift (or_err (files wasm_path) File_Error)) (\<lambda>wasm_bytes.
     let file = cache_file hash cache_path wasm_bytes in
     act_bind (if files file = None then
         act_bind (act_lift (or_err (precompile_module wasm_bytes) Module_Error)) (\<lambda>compiled.
         if write_ok file then act_update (\<lambda>files. files(file := Some compiled))
         else act_bind (act_update (\<lambda>files. files(file := torn file))) (\<lambda>_. act_lift (Err File_Error)))
       else act_return ()) (\<lambda>_.
     act_return file)))"

section \<open>Making a module\<close>

text \<open>The context of a module takes its variables and arguments, which it may refuse.\<close>

definition new_controller_module ::
  "'req host_env \<Rightarrow> ((string \<times> string) list \<Rightarrow> string list \<Rightarrow> bool) \<Rightarrow> bool \<Rightarrow> metadata \<Rightarrow> string \<Rightarrow> string \<Rightarrow> u64 \<Rightarrow>
   nat \<Rightarrow> files \<Rightarrow> ('vm, 'val) module_state outcome" where
  "new_controller_module E wasi_ok client_ok meta wasm_path swap_path async_client_id permits files =
     (let envs = map (\<lambda>e. (ev_name e, ev_value e)) (md_env meta) in
      if wasi_ok envs (md_args meta)
      then controller_module_new client_ok E (controller_ctx_new async_client_id) wasm_path swap_path permits files
      else Err Context_Error)"

section \<open>What splitting and collecting do\<close>

lemma starts_with_append: "starts_with p s \<longleftrightarrow> (\<exists>t. s = p @ t)"
  by (induction p s rule: starts_with.induct) auto

lemma contains_iff: "contains pat s \<longleftrightarrow> (\<exists>a b. s = a @ pat @ b)"
proof (induction s)
  case (Cons c s)
  have "(\<exists>a b. c # s = a @ pat @ b) \<longleftrightarrow> (\<exists>t. c # s = pat @ t) \<or> (\<exists>a b. s = a @ pat @ b)" (is "?l \<longleftrightarrow> ?r")
  proof
    assume ?l
    then obtain a b where "c # s = a @ pat @ b" by blast
    then show ?r by (cases a) auto
  next
    assume ?r
    then show ?l by (metis append_Cons append_Nil)
  qed
  then show ?case using Cons.IH by (simp add: starts_with_append)
qed auto

text \<open>The pieces, joined by the separator, are the text; none of them is missed.\<close>

fun join_with :: "string \<Rightarrow> string list \<Rightarrow> string" where
  "join_with sep [] = []"
| "join_with sep [p] = p"
| "join_with sep (p # q # ps) = p @ sep @ join_with sep (q # ps)"

lemma join_with_Cons: "ps \<noteq> [] \<Longrightarrow> join_with sep (p # ps) = p @ sep @ join_with sep ps"
  by (cases ps) auto

lemma split_on_join: "split_on sep piece s \<noteq> [] \<and> join_with sep (split_on sep piece s) = rev piece @ s"
proof (induction sep piece s rule: split_on.induct)
  case (2 sep piece c s)
  show ?case
  proof (cases "sep \<noteq> [] \<and> starts_with sep (c # s)")
    case True
    then obtain t where t: "c # s = sep @ t" by (auto simp: starts_with_append)
    then have "drop (length sep) (c # s) = t" by simp
    moreover have "split_on sep piece (c # s) = rev piece # split_on sep [] (drop (length sep) (c # s))" using True by simp
    ultimately show ?thesis using 2(1) [OF True] t by (simp add: join_with_Cons)
  next
    case False
    then have "split_on sep piece (c # s) = split_on sep (c # piece) s" by auto
    then show ?thesis using 2(2) [OF False] by (simp del: split_on.simps)
  qed
qed simp

text \<open>No piece contains the separator: an occurrence would have been found where it begins.\<close>

lemma split_on_free:
  assumes "sep \<noteq> []" "\<forall>i < length piece. \<not> starts_with sep (drop i (rev piece @ s))" "p \<in> set (split_on sep piece s)"
  shows "\<not> contains sep p"
  using assms
proof (induction sep piece s rule: split_on.induct)
  case (1 sep piece)
  show ?case
  proof
    assume "contains sep p"
    then obtain a b where p: "rev piece = a @ sep @ b" using 1(3) by (auto simp: contains_iff)
    then have "length a + (length sep + length b) = length piece" by (metis length_append length_rev)
    then have "length a < length piece" using 1(1) by (cases sep) auto
    then show False using 1(2) p by (auto simp: starts_with_append)
  qed
next
  case (2 sep piece c s)
  show ?case
  proof (cases "sep \<noteq> [] \<and> starts_with sep (c # s)")
    case True
    then have "p = rev piece \<or> p \<in> set (split_on sep [] (drop (length sep) (c # s)))" using 2(5) by simp
    then show ?thesis
    proof
      assume "p = rev piece"
      show ?thesis
      proof
        assume "contains sep p"
        then obtain a b where p: "rev piece = a @ sep @ b" using \<open>p = rev piece\<close> by (auto simp: contains_iff)
        then have "length a + (length sep + length b) = length piece" by (metis length_append length_rev)
        then have "length a < length piece" using 2(3) by (cases sep) auto
        then show False using 2(4) p by (auto simp: starts_with_append)
      qed
    qed (use 2(1) [OF True] 2(3) in simp)
  next
    case False
    have "\<forall>i < length (c # piece). \<not> starts_with sep (drop i (rev (c # piece) @ s))"
      using 2(4) False 2(3) by (auto simp: less_Suc_eq)
    moreover have "p \<in> set (split_on sep (c # piece) s)" using 2(5) False by auto
    ultimately show ?thesis using 2(2) [OF False 2(3)] by simp
  qed
qed

lemma collect_results_Ok: "collect_results rs = Ok xs \<longleftrightarrow> rs = map Ok xs"
proof (induction rs arbitrary: xs)
  case (Cons r rs)
  then show ?case by (cases xs) (auto simp: obind_Ok_iff)
qed auto

lemma collect_results_Err: "collect_results rs = Err e \<longleftrightarrow> (\<exists>xs rest. rs = map Ok xs @ Err e # rest)"
proof (induction rs)
  case (Cons r rs)
  show ?case
  proof (cases r)
    case (Ok x)
    have "(\<exists>xs rest. r # rs = map Ok xs @ Err e # rest) \<longleftrightarrow> (\<exists>xs rest. rs = map Ok xs @ Err e # rest)"
    proof
      assume "\<exists>xs rest. r # rs = map Ok xs @ Err e # rest"
      then obtain xs rest where "r # rs = map Ok xs @ Err e # rest" by blast
      then show "\<exists>xs rest. rs = map Ok xs @ Err e # rest" using Ok by (cases xs) auto
    next
      assume "\<exists>xs rest. rs = map Ok xs @ Err e # rest"
      then obtain xs rest where "rs = map Ok xs @ Err e # rest" by blast
      then have "r # rs = map Ok (x # xs) @ Err e # rest" using Ok by simp
      then show "\<exists>xs rest. r # rs = map Ok xs @ Err e # rest" by blast
    qed
    then show ?thesis using Ok Cons.IH by (cases "collect_results rs") auto
  next
    case (Err e')
    have "(\<exists>xs rest. Err e' # rs = map Ok xs @ Err e # rest) \<longleftrightarrow> e' = e" (is "?l \<longleftrightarrow> _")
    proof
      assume ?l
      then obtain xs rest where "Err e' # rs = map Ok xs @ Err e # rest" by blast
      then show "e' = e" by (cases xs) auto
    next
      assume "e' = e"
      then have "Err e' # rs = map Ok [] @ Err e # rs" by simp
      then show ?l by blast
    qed
    then show ?thesis using Err by simp
  next
    case (Panic p)
    have "Panic p # rs \<noteq> map Ok xs @ Err e # rest" for xs rest by (cases xs) auto
    then show ?thesis using Panic by simp
  qed
qed simp

lemma collect_docs:
  "collect_results (List.map_filter (yaml_doc from_str) docs) =
     (if \<exists>doc \<in> set docs. \<exists>err. from_str doc = Inl err \<and> \<not> contains ''EOF while parsing a value'' err
      then Err Yaml_Error
      else Ok (map projr (filter (\<lambda>p. \<not> isl p) (map from_str docs))))"
proof (induction docs)
  case (Cons doc docs)
  show ?case
  proof (cases "from_str doc")
    case (Inl err)
    then show ?thesis using Cons.IH
      by (cases "contains ''EOF while parsing a value'' err") (simp_all add: yaml_doc_def map_filter_simps)
  next
    case (Inr md)
    then show ?thesis using Cons.IH by (simp add: yaml_doc_def map_filter_simps)
  qed
qed (simp add: map_filter_simps)

section \<open>The cache\<close>

text \<open>A file of the cache holds the compiled form of the bytes it is named after.\<close>

definition cache_ok :: "(u8 list \<Rightarrow> string) \<Rightarrow> (u8 list \<Rightarrow> u8 list option) \<Rightarrow> string \<Rightarrow> files \<Rightarrow> bool" where
  "cache_ok hash precompile_module cache_path files \<longleftrightarrow>
     (\<forall>bytes compiled. files (cache_file hash cache_path bytes) = Some compiled \<longrightarrow> precompile_module bytes = Some compiled)"

lemma cache_file_inj: "inj hash \<Longrightarrow> cache_file hash dir x = cache_file hash dir y \<longleftrightarrow> x = y"
  by (auto simp: cache_file_def path_join_def inj_eq)

lemma cache_precompile_cases:
  assumes "cache_precompile hash pc write_ok torn wasm_path dir files = (r, files')"
  obtains (unread) "files wasm_path = None" "r = Err File_Error" "files' = files"
  | (hit) bytes compiled where "files wasm_path = Some bytes" "files (cache_file hash dir bytes) = Some compiled"
      "r = Ok (cache_file hash dir bytes)" "files' = files"
  | (invalid) bytes where "files wasm_path = Some bytes" "files (cache_file hash dir bytes) = None" "pc bytes = None"
      "r = Err Module_Error" "files' = files"
  | (unwritten) bytes where "files wasm_path = Some bytes" "files (cache_file hash dir bytes) = None" "\<not> write_ok (cache_file hash dir bytes)"
      "r = Err File_Error" "files' = files(cache_file hash dir bytes := torn (cache_file hash dir bytes))"
  | (compiled) bytes compiled where "files wasm_path = Some bytes" "files (cache_file hash dir bytes) = None"
      "pc bytes = Some compiled" "r = Ok (cache_file hash dir bytes)" "files' = files(cache_file hash dir bytes := Some compiled)"
proof (cases "files wasm_path")
  case None
  have "r = Err File_Error" "files' = files" using assms None by (simp_all add: cache_precompile_def act_bind_def act_run)
  then show thesis by (rule unread [OF None])
next
  case bytes: (Some bytes)
  let ?file = "cache_file hash dir bytes"
  show thesis
  proof (cases "files ?file")
    case None
    show thesis
    proof (cases "pc bytes")
      case invalid': None
      have "r = Err Module_Error" "files' = files"
        using assms bytes None invalid' by (simp_all add: cache_precompile_def act_bind_def act_run Let_def)
      then show thesis by (rule invalid [OF bytes None invalid'])
    next
      case c: (Some c)
      show thesis
      proof (cases "write_ok ?file")
        case True
        have "r = Ok ?file" "files' = files(?file := Some c)"
          using assms bytes None c True by (simp_all add: cache_precompile_def act_bind_def act_run Let_def)
        then show thesis by (rule compiled [OF bytes None c])
      next
        case False
        have "r = Err File_Error" "files' = files(?file := torn ?file)"
          using assms bytes None c False by (simp_all add: cache_precompile_def act_bind_def act_run Let_def)
        then show thesis by (rule unwritten [OF bytes None False])
      qed
    qed
  next
    case c: (Some c)
    have "r = Ok ?file" "files' = files"
      using assms bytes c by (simp_all add: cache_precompile_def act_bind_def act_run Let_def)
    then show thesis by (rule hit [OF bytes c])
  qed
qed

section \<open>Names of swap files\<close>

definition value_of :: "string \<Rightarrow> nat" where
  "value_of = foldl (\<lambda>v c. v * 10 + (of_char c - 48)) 0"

lemma of_char_digit: "d < 10 \<Longrightarrow> (of_char (digit d) :: nat) - 48 = d"
  by (simp add: digit_def)

lemma value_of_decimal [simp]: "value_of (decimal n) = n"
proof (induction n rule: decimal.induct)
  case (1 n)
  show ?case
  proof (cases "n < 10")
    case True
    then show ?thesis by (simp add: decimal.simps [of n] value_of_def of_char_digit)
  next
    case False
    have "value_of (decimal n) = value_of (decimal (n div 10)) * 10 + n mod 10"
      using False by (simp add: decimal.simps [of n] value_of_def of_char_digit)
    then show ?thesis using 1 False by simp
  qed
qed

definition swap_file :: "string \<Rightarrow> u64 \<Rightarrow> string" where
  "swap_file swap_path async_client_id =
     path_join swap_path (''worker_'' @ decimal (unat async_client_id) @ ''_mem.bin'')"

lemma swap_file_inj [simp]: "swap_file dir i = swap_file dir j \<longleftrightarrow> i = j"
proof
  assume "swap_file dir i = swap_file dir j"
  then have "decimal (unat i) = decimal (unat j)" by (simp add: swap_file_def path_join_def split: if_splits)
  then have "unat i = unat j" using value_of_decimal by metis
  then show "i = j" by (simp add: word_unat_eq_iff)
qed simp

lemma swap_not_cache: "swap_file dir i \<noteq> cache_file hash dir' bytes"
proof -
  have "last (swap_file dir i) = CHR ''n''" "last (cache_file hash dir' bytes) = CHR ''m''"
    by (simp_all add: swap_file_def cache_file_def path_join_def)
  then show ?thesis by auto
qed

text \<open>The host starts with the modules of the list, or not at all.\<close>

lemma controller_main_Ok:
  "controller_main infer create_client_service create_dir_all from_str read_to_string temp_dir args =
     Ok (service, cache_path, swap_path, mods) \<longleftrightarrow>
   (\<exists>config. infer = Some config \<and> create_client_service config = Some service) \<and> 2 \<le> length args \<and>
   cache_path = path_join temp_dir ''cache'' \<and> create_dir_all cache_path \<and>
   swap_path = path_join temp_dir ''swap'' \<and> create_dir_all swap_path \<and>
   load_modules_from_dir from_str read_to_string (args ! 1) = Ok mods"
  by (cases infer) (auto simp: controller_main_def obind_Ok_iff or_panic_def ensure_def Let_def split: option.splits outcome.splits if_splits)

end
