(* ===== verification/Runner_Correct.thy ===== *)
theory Runner_Correct
  imports Event_Loop
begin

text \<open>
  What the runner promises: whatever the order in which operations make progress, each
  request's results come out in the order they were produced, once each, and none is lost;
  the count of web calls never underflows; no operation is polled after its end.
\<close>

section \<open>The results an operation still has\<close>

fun op_posts :: "op_step list \<Rightarrow> async_result list" where
  "op_posts [] = []"
| "op_posts (Wait # s) = op_posts s"
| "op_posts (Post r # s) = r # op_posts s"
| "op_posts (Fail e # s) = []"

fun op_error :: "op_step list \<Rightarrow> host_error option" where
  "op_error [] = None"
| "op_error (Wait # s) = op_error s"
| "op_error (Post r # s) = op_error s"
| "op_error (Fail e # s) = Some e"

definition call_posts :: "opcall \<Rightarrow> async_result list" where
  "call_posts c = (case c of Fut s _ \<Rightarrow> op_posts s | _ \<Rightarrow> [])"

definition stream_of :: "u64 \<Rightarrow> async_result list \<Rightarrow> async_result list" where
  "stream_of i = filter (\<lambda>r. ar_id r = i)"

definition pending_of :: "u64 \<Rightarrow> opcall list \<Rightarrow> async_result list" where
  "pending_of i ops = concat (map (\<lambda>c. stream_of i (call_posts c)) ops)"

definition left_of :: "u64 \<Rightarrow> runner \<Rightarrow> async_result list" where
  "left_of i R = stream_of i (rn_channel R) @ pending_of i (rn_pending_ops R)"

definition is_web :: "opcall \<Rightarrow> bool" where
  "is_web c = (case c of Fut _ v \<Rightarrow> v | Done (Inr v) \<Rightarrow> v | _ \<Rightarrow> False)"

definition is_failed :: "opcall \<Rightarrow> bool" where
  "is_failed c = (case c of Done (Inl _) \<Rightarrow> True | _ \<Rightarrow> False)"

definition webs :: "opcall list \<Rightarrow> nat" where
  "webs ops = length (filter is_web ops)"

definition fails :: "opcall list \<Rightarrow> nat" where
  "fails ops = length (filter is_failed ops)"

text \<open>How many operations have results of a request: at most one.\<close>

definition busy :: "u64 \<Rightarrow> opcall list \<Rightarrow> nat" where
  "busy i ops = length (filter (\<lambda>c. stream_of i (call_posts c) \<noteq> []) ops)"

definition call_error :: "opcall \<Rightarrow> host_error option" where
  "call_error c = (case c of Fut s _ \<Rightarrow> op_error s | Done (Inl e) \<Rightarrow> Some e | _ \<Rightarrow> None)"

lemma call_error_simps [simp]:
  "call_error (Fut s v) = op_error s" "call_error (Done (Inl e)) = Some e" "call_error (Done (Inr v)) = None" "call_error Gone = None"
  by (simp_all add: call_error_def)

definition errors :: "opcall list \<Rightarrow> host_error set" where
  "errors ops = {e. \<exists>c \<in> set ops. call_error c = Some e}"

named_theorems op_simps \<open>sums over the operations of a runner\<close>

lemma call_simps [simp]:
  "call_posts (Fut s v) = op_posts s" "call_posts (Done r) = []" "call_posts Gone = []"
  "is_web (Fut s v) = v" "is_web (Done (Inr v)) = v" "is_web (Done (Inl e)) = False" "is_web Gone = False"
  "is_failed (Fut s v) = False" "is_failed (Done (Inr v)) = False" "is_failed (Done (Inl e)) = True" "is_failed Gone = False"
  by (simp_all add: call_posts_def is_web_def is_failed_def)

lemma stream_of_simps [simp]:
  "stream_of i [] = []" "stream_of i (xs @ ys) = stream_of i xs @ stream_of i ys"
  "stream_of i (r # xs) = (if ar_id r = i then r # stream_of i xs else stream_of i xs)"
  by (simp_all add: stream_of_def)

lemma op_sums [op_simps]:
  "pending_of i [] = []" "pending_of i (xs @ ys) = pending_of i xs @ pending_of i ys"
  "pending_of i (c # ops) = stream_of i (call_posts c) @ pending_of i ops"
  "webs [] = 0" "webs (xs @ ys) = webs xs + webs ys" "webs (c # ops) = (if is_web c then Suc (webs ops) else webs ops)"
  "fails [] = 0" "fails (xs @ ys) = fails xs + fails ys" "fails (c # ops) = (if is_failed c then Suc (fails ops) else fails ops)"
  "busy i [] = 0" "busy i (xs @ ys) = busy i xs + busy i ys"
  "busy i (c # ops) = (if stream_of i (call_posts c) = [] then busy i ops else Suc (busy i ops))"
  "errors [] = {}" "errors (xs @ ys) = errors xs \<union> errors ys" "errors (c # ops) = set_option (call_error c) \<union> errors ops"
  by (auto simp: pending_of_def webs_def fails_def busy_def errors_def)

lemma busy_0 [simp]: "busy i ops = 0 \<longleftrightarrow> pending_of i ops = []"
  by (induction ops) (auto simp: op_simps)

lemma no_pending_busy: "pending_of i ops = [] \<Longrightarrow> busy i ops = 0"
  by simp

lemma busy_le_1 [simp]: "busy i (xs @ c # ys) \<le> Suc 0 \<longleftrightarrow>
  (if stream_of i (call_posts c) = [] then busy i xs + busy i ys \<le> Suc 0 else pending_of i xs = [] \<and> pending_of i ys = [])"
  using busy_0 [of i xs] busy_0 [of i ys] by (auto simp: op_simps simp del: busy_0)

text \<open>The operations around position \<open>j\<close>.\<close>

lemma split_at:
  assumes "j < length ops"
  obtains xs ys where "ops = xs @ ops ! j # ys" "length xs = j" "\<forall>c. ops[j := c] = xs @ c # ys" "drop_nth j ops = xs @ ys"
  using that [OF id_take_nth_drop [OF assms]] assms by (simp add: upd_conv_take_nth_drop drop_nth_def)

section \<open>One poll\<close>

lemma run_op_posts:
  assumes "run_op n s ch = (p, s', ch')"
  shows "\<exists>sent. ch' = ch @ sent \<and> op_posts s = sent @ op_posts s'"
    and "p \<noteq> Pending \<Longrightarrow> op_posts s' = []"
    and "length ch \<le> CHANNEL_CAPACITY \<Longrightarrow> length ch' \<le> CHANNEL_CAPACITY"
    and "p = Ready (Inl e) \<Longrightarrow> op_error s = Some e"
    and "p = Pending \<Longrightarrow> op_error s' = op_error s"
  using assms by (induction n s ch rule: run_op.induct) (auto split: if_splits)

lemma opcall_poll_ok:
  assumes "c \<noteq> Gone"
  obtains p c' ch' where "opcall_poll n c ch = Ok (p, c', ch')"
proof -
  have "is_ok (opcall_poll n c ch)"
  proof (cases c)
    case (Fut s v)
    obtain q s1 ch1 where "run_op n s ch = (q, s1, ch1)" by (cases "run_op n s ch")
    then show ?thesis using Fut by (auto simp: opcall_poll_def maybe_done_poll_def take_output_def split: poll.splits sum.splits)
  qed (use assms in \<open>auto simp: opcall_poll_def maybe_done_poll_def take_output_def\<close>)
  then show thesis using that by (cases "opcall_poll n c ch") auto
qed

lemma opcall_poll_posts:
  assumes "opcall_poll n c ch = Ok (p, c', ch')"
  shows "\<exists>sent. ch' = ch @ sent \<and> call_posts c = sent @ call_posts c'"
    and "p \<noteq> Pending \<Longrightarrow> call_posts c' = []"
    and "length ch \<le> CHANNEL_CAPACITY \<Longrightarrow> length ch' \<le> CHANNEL_CAPACITY"
    and "p = Pending \<Longrightarrow> c' \<noteq> Gone \<and> is_web c' = is_web c \<and> is_failed c' = is_failed c \<and> call_error c' = call_error c"
    and "p = Ready (Inr v) \<Longrightarrow> is_web c = v \<and> \<not> is_failed c"
    and "p = Ready (Inl e) \<Longrightarrow> call_error c = Some e"
proof -
  have *: "(\<exists>sent. ch' = ch @ sent \<and> call_posts c = sent @ call_posts c') \<and> (p \<noteq> Pending \<longrightarrow> call_posts c' = []) \<and>
      (length ch \<le> CHANNEL_CAPACITY \<longrightarrow> length ch' \<le> CHANNEL_CAPACITY) \<and>
      (p = Pending \<longrightarrow> c' \<noteq> Gone \<and> is_web c' = is_web c \<and> is_failed c' = is_failed c \<and> call_error c' = call_error c) \<and>
      (\<forall>v. p = Ready (Inr v) \<longrightarrow> is_web c = v \<and> \<not> is_failed c) \<and> (\<forall>e. p = Ready (Inl e) \<longrightarrow> call_error c = Some e)"
  proof (cases c)
    case (Fut s v)
    obtain q s1 ch1 where r: "run_op n s ch = (q, s1, ch1)" by (cases "run_op n s ch")
    note run_op_posts [OF r]
    then show ?thesis using assms r Fut
      by (cases q) (auto simp: opcall_poll_def maybe_done_poll_def take_output_def split: sum.splits)
  next
    case (Done r)
    then show ?thesis using assms by (cases r) (auto simp: opcall_poll_def maybe_done_poll_def take_output_def)
  next
    case Gone
    then show ?thesis using assms by (simp add: opcall_poll_def maybe_done_poll_def)
  qed
  show "\<exists>sent. ch' = ch @ sent \<and> call_posts c = sent @ call_posts c'" using * by blast
  show "p \<noteq> Pending \<Longrightarrow> call_posts c' = []" using * by blast
  show "length ch \<le> CHANNEL_CAPACITY \<Longrightarrow> length ch' \<le> CHANNEL_CAPACITY" using * by blast
  show "p = Pending \<Longrightarrow> c' \<noteq> Gone \<and> is_web c' = is_web c \<and> is_failed c' = is_failed c \<and> call_error c' = call_error c" using * by blast
  show "p = Ready (Inr v) \<Longrightarrow> is_web c = v \<and> \<not> is_failed c" using * by blast
  show "p = Ready (Inl e) \<Longrightarrow> call_error c = Some e" using * by blast
qed

lemma poll_ops_ok:
  assumes "Gone \<notin> set ops"
  shows "is_ok (poll_ops sched ops ch)"
  using assms
proof (induction sched ops ch rule: poll_ops.induct)
  case (2 i n sched ops ch)
  show ?case
  proof (cases "i < length ops")
    case True
    then have "ops ! i \<noteq> Gone" using 2(3) nth_mem by metis
    then obtain p c ch1 where q: "opcall_poll n (ops ! i) ch = Ok (p, c, ch1)" by (rule opcall_poll_ok)
    show ?thesis
    proof (cases p)
      case Pending
      then have "Gone \<notin> set (ops[i := c])"
        using opcall_poll_posts(4) [OF q] 2(3) set_update_subset_insert [of ops i c] by auto
      then show ?thesis using 2(1) [OF True q refl refl Pending] q Pending True by simp
    qed (use q True in simp)
  qed (use 2 in simp)
qed simp

lemma poll_ops_correct:
  assumes "poll_ops sched ops ch = Ok (p, ops', ch')" "Gone \<notin> set ops" "length ch \<le> CHANNEL_CAPACITY"
  shows "(busy i ops \<le> 1 \<longrightarrow>
      stream_of i ch' @ pending_of i ops' = stream_of i ch @ pending_of i ops \<and> busy i ops' \<le> 1) \<and> Gone \<notin> set ops' \<and> length ch' \<le> CHANNEL_CAPACITY \<and>
    (case p of
       Pending \<Rightarrow> webs ops' = webs ops \<and> fails ops' = fails ops
     | Ready (Inr v) \<Rightarrow> webs ops = webs ops' + (if v then 1 else 0) \<and> fails ops' = fails ops
     | Ready (Inl e) \<Rightarrow> e \<in> errors ops) \<and> errors ops' \<subseteq> errors ops"
  using assms
proof (induction sched ops ch arbitrary: p ops' ch' rule: poll_ops.induct)
  case (2 k n sched ops ch)
  show ?case
  proof (cases "k < length ops")
    case True
    obtain xs ys where ops: "ops = xs @ ops ! k # ys" and lx: "length xs = k" and ops2: "\<forall>c. ops[k := c] = xs @ c # ys" "drop_nth k ops = xs @ ys"
      by (rule split_at [OF True])
    obtain q c ch1 where q: "opcall_poll n (ops ! k) ch = Ok (q, c, ch1)"
      and r: "(case q of Ready r \<Rightarrow> Ok (Ready r, drop_nth k ops, ch1) | Pending \<Rightarrow> poll_ops sched (ops[k := c]) ch1) = Ok (p, ops', ch')"
      using 2(3) True by (auto simp: obind_Ok_iff)
    note t = opcall_poll_posts [OF q]
    obtain sent where sent: "ch1 = ch @ sent" "call_posts (ops ! k) = sent @ call_posts c" using t(1) by blast
    have b: "busy i ops = busy i (xs @ ops ! k # ys)" using ops by simp
    have s: "stream_of i ch1 @ pending_of i (xs @ c # ys) = stream_of i ch @ pending_of i ops" if "busy i ops \<le> 1"
      by (subst ops) (use that [unfolded b] sent in \<open>auto simp: op_simps split: if_splits\<close>)
    have b': "busy i (xs @ c # ys) \<le> 1" if "busy i ops \<le> 1" using that [unfolded b] sent by (auto simp: op_simps no_pending_busy split: if_splits)
    have l: "length ch1 \<le> CHANNEL_CAPACITY" using t(3) 2(5) .
    have g: "Gone \<notin> set xs" "Gone \<notin> set ys" "ops ! k \<in> set ops" using 2(4) ops True by (metis Un_iff set_append list.set_intros(2), metis Un_iff set_append list.set_intros(2), simp)
    show ?thesis
    proof (cases q)
      case Pending
      have "webs (xs @ c # ys) = webs ops" "fails (xs @ c # ys) = fails ops" "errors (xs @ c # ys) = errors ops"
        using t(4) [OF Pending] arg_cong [OF ops, of webs] arg_cong [OF ops, of fails] arg_cong [OF ops, of errors]
        by (simp_all add: op_simps)
      then show ?thesis
        using 2(1) [OF True q refl refl Pending, of p ops' ch'] r Pending ops2(1) s b' l g t(4) [OF Pending]
        by (auto split: poll.splits sum.splits)
    next
      case (Ready r')
      then have "p = q" "ops' = xs @ ys" "ch' = ch1" using r ops2(2) Ready by auto
      moreover have "webs ops = webs (xs @ ops ! k # ys)" "fails ops = fails (xs @ ops ! k # ys)"
        "errors ops = errors (xs @ ops ! k # ys)" using ops by auto
      ultimately show ?thesis
        using Ready s b' l g t(2,5,6) by (auto simp: op_simps split: sum.splits if_splits)
    qed
  next
    case False
    then show ?thesis using 2 by simp
  qed
qed simp

section \<open>The runner\<close>

definition runner_inv :: "runner \<Rightarrow> bool" where
  "runner_inv R \<longleftrightarrow> Gone \<notin> set (rn_pending_ops R) \<and> length (rn_channel R) \<le> CHANNEL_CAPACITY \<and>
     webs (rn_pending_ops R) \<le> rn_nr_web_calls R \<and>
     rn_nr_web_calls R \<le> webs (rn_pending_ops R) + fails (rn_pending_ops R)"

lemma runner_inv_new: "runner_inv runner_new"
  by (simp add: runner_inv_def runner_new_def op_simps CHANNEL_CAPACITY_def)

lemma runner_inv_unpolled [simp]: "runner_inv (R\<lparr>rn_have_unpolled_ops := u\<rparr>) = runner_inv R"
  by (simp add: runner_inv_def)

lemma left_of_unpolled [simp]: "left_of i (R\<lparr>rn_have_unpolled_ops := u\<rparr>) = left_of i R"
  by (simp add: left_of_def)

lemma poll_next_unpin_correct:
  assumes "runner_inv R"
  obtains p R' where "poll_next_unpin sched R = (Ok p, R')"
    "busy i (rn_pending_ops R) \<le> 1 \<longrightarrow> left_of i R' = left_of i R \<and> busy i (rn_pending_ops R') \<le> 1"
    "rn_nr_web_calls R' = rn_nr_web_calls R" "errors (rn_pending_ops R') \<subseteq> errors (rn_pending_ops R)"
    "case p of
       Ready (Some (Inr v)) \<Rightarrow>
         if v then 0 < rn_nr_web_calls R' \<and> runner_inv (R'\<lparr>rn_nr_web_calls := rn_nr_web_calls R' - 1\<rparr>) else runner_inv R'
     | Ready (Some (Inl e)) \<Rightarrow> e \<in> errors (rn_pending_ops R)
     | _ \<Rightarrow> runner_inv R'"
proof (cases "rn_pending_ops R = []")
  case True
  then have "poll_next_unpin sched R = (Ok (Ready None), R)"
    by (simp add: poll_next_unpin_def poll_next_op_def)
  then show thesis using that assms by fastforce
next
  case False
  have G: "Gone \<notin> set (rn_pending_ops R)" "length (rn_channel R) \<le> CHANNEL_CAPACITY"
    using assms by (auto simp: runner_inv_def)
  obtain q ops ch where q: "poll_ops sched (rn_pending_ops R) (rn_channel R) = Ok (q, ops, ch)"
    using poll_ops_ok [OF G(1)] by (metis outcome.collapse(1) prod_cases3)
  note t = poll_ops_correct [OF q G, of i]
  let ?p = "case q of Ready r \<Rightarrow> Ready (Some r) | Pending \<Rightarrow> Pending"
  have "poll_next_unpin sched R = (Ok ?p, R\<lparr>rn_pending_ops := ops, rn_channel := ch\<rparr>)"
    using q False by (simp add: poll_next_unpin_def poll_next_op_def)
  then show thesis
    by (rule that) (use t assms in \<open>auto simp: left_of_def runner_inv_def split: poll.splits sum.splits if_splits\<close>)
qed

lemma collect_turn_correct:
  assumes "runner_inv R" "collect_turn sched R = (r, R')"
  shows "case r of
      Ok res \<Rightarrow> runner_inv R' \<and> errors (rn_pending_ops R') \<subseteq> errors (rn_pending_ops R) \<and>
        (busy i (rn_pending_ops R) \<le> 1 \<longrightarrow> busy i (rn_pending_ops R') \<le> 1 \<and>
           left_of i R = (case res of Some (Some x) \<Rightarrow> stream_of i [x] | _ \<Rightarrow> []) @ left_of i R') \<and>
        (case res of Some (Some x) \<Rightarrow> True | _ \<Rightarrow> rn_channel R' = [])
    | Err e \<Rightarrow> e \<in> errors (rn_pending_ops R)
    | Panic _ \<Rightarrow> False"
proof -
  obtain p R1 where p: "poll_next_unpin sched R = (Ok p, R1)"
    and t: "busy i (rn_pending_ops R) \<le> 1 \<longrightarrow> left_of i R1 = left_of i R \<and> busy i (rn_pending_ops R1) \<le> 1" "rn_nr_web_calls R1 = rn_nr_web_calls R"
    "errors (rn_pending_ops R1) \<subseteq> errors (rn_pending_ops R)"
    "case p of
       Ready (Some (Inr v)) \<Rightarrow>
         if v then 0 < rn_nr_web_calls R1 \<and> runner_inv (R1\<lparr>rn_nr_web_calls := rn_nr_web_calls R1 - 1\<rparr>) else runner_inv R1
     | Ready (Some (Inl e)) \<Rightarrow> e \<in> errors (rn_pending_ops R)
     | _ \<Rightarrow> runner_inv R1"
    by (rule poll_next_unpin_correct [OF assms(1), of sched i])
  obtain a R2 where a: "after_poll p R1 = (a, R2)" by (cases "after_poll p R1")
  show ?thesis
  proof (cases "\<exists>e. p = Ready (Some (Inl e))")
    case True
    then show ?thesis using assms(2) p t(4) by (auto simp: collect_turn_def act_bind_def after_poll_def act_run)
  next
    case False
    then have R2: "a = Ok ()" "runner_inv R2" "busy i (rn_pending_ops R) \<le> 1 \<longrightarrow> left_of i R2 = left_of i R \<and> busy i (rn_pending_ops R2) \<le> 1" "errors (rn_pending_ops R2) \<subseteq> errors (rn_pending_ops R)"
      using a t by (auto simp: after_poll_def take_web_call_def act_run act_bind_def left_of_def
          split: poll.splits option.splits sum.splits if_splits)
    show ?thesis
    proof (cases "rn_channel R2")
      case Nil
      then show ?thesis using assms(2) p a R2
        by (auto simp: collect_turn_def act_bind_def act_run poll_recv_def split: poll.splits option.splits)
    next
      case (Cons x ch)
      then have "r = Ok (Some (Some x))" "R' = R2\<lparr>rn_channel := ch\<rparr>"
        using assms(2) p a R2 by (auto simp: collect_turn_def act_bind_def act_run poll_recv_def)
      then show ?thesis using R2 Cons by (auto simp: left_of_def runner_inv_def)
    qed
  qed
qed

lemma collect_loop_correct:
  assumes "runner_inv R" "collect_loop E tick R = (r, tick', R')"
  shows "case r of
      Ok res \<Rightarrow> runner_inv R' \<and> errors (rn_pending_ops R') \<subseteq> errors (rn_pending_ops R) \<and>
        (busy i (rn_pending_ops R) \<le> 1 \<longrightarrow> busy i (rn_pending_ops R') \<le> 1 \<and>
           left_of i R = (case res of Some x \<Rightarrow> stream_of i [x] | None \<Rightarrow> []) @ left_of i R') \<and>
        (res = None \<longrightarrow> rn_channel R' = [])
    | Err e \<Rightarrow> e \<in> errors (rn_pending_ops R)
    | Panic _ \<Rightarrow> False"
  using assms
proof (induction E tick R rule: collect_loop.induct)
  case (1 E tick R)
  obtain q R1 where t: "collect_turn (he_sched E tick) R = (q, R1)" by (cases "collect_turn (he_sched E tick) R")
  note c = collect_turn_correct [OF 1(2) t, of i]
  show ?case
  proof (cases "q = Ok None")
    case True
    have l: "collect_loop E (Suc tick) R1 = (r, tick', R')" using True 1(3) t by (simp add: collect_loop.simps [of E tick R])
    have e: "errors (rn_pending_ops R1) \<subseteq> errors (rn_pending_ops R)"
      "busy i (rn_pending_ops R) \<le> 1 \<longrightarrow> busy i (rn_pending_ops R1) \<le> 1 \<and> left_of i R = left_of i R1" using c True by auto
    have "runner_inv R1" using c True by auto
    note 1(1) [OF t [symmetric] True refl this l]
    then show ?thesis using e by (auto split: outcome.splits)
  next
    case False
    then show ?thesis using 1(3) t c by (auto simp: collect_loop.simps [of E tick R] split: outcome.splits option.splits)
  qed
qed

section \<open>Requests\<close>

lemma post_meta_ids: "r \<in> set (op_posts (post_meta i m @ s)) \<Longrightarrow> ar_id r = i \<or> r \<in> set (op_posts s)"
  by (auto simp: post_meta_def split: option.splits)

lemma stream_chunks_ids: "r \<in> set (op_posts (stream_chunks i cs)) \<Longrightarrow> ar_id r = i"
  by (induction i cs rule: stream_chunks.induct) auto

lemma request_op_ids: "r \<in> set (op_posts (fst (request_op i net q))) \<Longrightarrow> ar_id r = i"
  by (auto simp: request_op_def http_op_def http_stream_op_def delay_op_def
      dest!: post_meta_ids dest: stream_chunks_ids split: request_value.splits option.splits)

lemma to_bytes_some: "to_bytes (map Some chunks) = Some (concat chunks)"
  by (induction chunks) auto

lemma stream_chunks_some:
  "op_posts (stream_chunks i (map Some chunks)) =
     map (\<lambda>c. \<lparr>ar_id = i, ar_value = Some c, ar_finished = False\<rparr>) chunks @ [\<lparr>ar_id = i, ar_value = None, ar_finished = True\<rparr>]"
  by (induction chunks) auto

text \<open>A request that does not fail says so in its last result, and only there.\<close>

definition well_ended :: "op_step list \<Rightarrow> bool" where
  "well_ended s = (let posts = op_posts s in
     if op_error s = None
     then posts \<noteq> [] \<and> ar_finished (last posts) \<and> (\<forall>r \<in> set (butlast posts). \<not> ar_finished r)
     else (\<forall>r \<in> set posts. \<not> ar_finished r))"

lemma well_ended_step:
  "well_ended (Wait # s) = well_ended s"
  "\<not> ar_finished r \<Longrightarrow> well_ended s \<Longrightarrow> well_ended (Post r # s)"
  "well_ended [Fail e]"
  "ar_finished r \<Longrightarrow> well_ended [Post r]"
  by (auto simp: well_ended_def Let_def split: if_splits)

lemma stream_chunks_ended: "well_ended (stream_chunks i cs)"
  by (induction i cs rule: stream_chunks.induct) (auto intro!: well_ended_step simp: well_ended_step(1))

lemma post_meta_ended: "well_ended s \<Longrightarrow> well_ended (post_meta i m @ s)"
  by (cases m) (auto simp: post_meta_def well_ended_def Let_def split: if_splits)

lemma request_op_ended: "well_ended (fst (request_op i net q))"
proof (cases q)
  case (Http v)
  then show ?thesis
    by (auto simp: request_op_def http_op_def well_ended_step(1) intro!: post_meta_ended well_ended_step(3,4) split: option.splits)
next
  case (HttpStream v)
  then show ?thesis
    by (auto simp: request_op_def http_stream_op_def well_ended_step(1)
        intro!: post_meta_ended stream_chunks_ended well_ended_step(3) split: option.splits)
next
  case (Delay d)
  then show ?thesis by (simp add: request_op_def delay_op_def well_ended_step)
qed

lemma stream_of_same: "(\<And>r. r \<in> set xs \<Longrightarrow> ar_id r = i) \<Longrightarrow> stream_of j xs = (if j = i then xs else [])"
  by (induction xs) auto

lemma maybe_done_fresh:
  obtains p c ch' sent where "maybe_done_poll n (Fut s v) ch = Ok (p, c, ch')" "ch' = ch @ sent" "op_posts s = sent @ call_posts c"
    "length ch \<le> CHANNEL_CAPACITY \<longrightarrow> length ch' \<le> CHANNEL_CAPACITY"
    "c \<noteq> Gone" "is_web c = v \<and> \<not> is_failed c \<or> \<not> is_web c \<and> is_failed c"
proof -
  obtain q s1 ch1 where r: "run_op n s ch = (q, s1, ch1)" by (cases "run_op n s ch")
  note t = run_op_posts [OF r]
  obtain sent where "ch1 = ch @ sent" "op_posts s = sent @ op_posts s1" using t(1) by blast
  then show thesis
  proof (cases q)
    case Pending
    then show thesis using that [of Pending "Fut s1 v" ch1 sent] \<open>ch1 = ch @ sent\<close> \<open>op_posts s = _\<close> r t(3)
      by (simp add: maybe_done_poll_def)
  next
    case (Ready x)
    then show thesis
      using that [of "Ready ()" "Done (case x of Inl e \<Rightarrow> Inl e | Inr _ \<Rightarrow> Inr v)" ch1 sent]
        \<open>ch1 = ch @ sent\<close> \<open>op_posts s = _\<close> r t(2,3)
      by (cases x) (simp_all add: maybe_done_poll_def)
  qed
qed

lemma handle_request_correct:
  assumes "runner_inv R"
  obtains R' where "handle_request n net i q R = Ok R'" "runner_inv R'"
    "\<And>j. busy j (rn_pending_ops R) \<le> 1 \<Longrightarrow> pending_of i (rn_pending_ops R) = [] \<Longrightarrow> busy j (rn_pending_ops R') \<le> 1"
    "\<And>j. pending_of i (rn_pending_ops R) = [] \<Longrightarrow>
       left_of j R' = left_of j R @ (if j = i then op_posts (fst (request_op i net q)) else [])"
    "rn_have_unpolled_ops R'"
proof -
  obtain s v where sv: "request_op i net q = (s, v)" by (cases "request_op i net q")
  obtain p c ch' sent where m: "maybe_done_poll n (Fut s v) (rn_channel R) = Ok (p, c, ch')" "ch' = rn_channel R @ sent"
    "op_posts s = sent @ call_posts c"
    "length (rn_channel R) \<le> CHANNEL_CAPACITY \<longrightarrow> length ch' \<le> CHANNEL_CAPACITY"
    "c \<noteq> Gone" "is_web c = v \<and> \<not> is_failed c \<or> \<not> is_web c \<and> is_failed c"
    by (rule maybe_done_fresh)
  have v: "v \<longleftrightarrow> (\<exists>x. q = Http x)" using sv by (auto simp: request_op_def split: request_value.splits)
  let ?nr = "rn_nr_web_calls R + (if v then 1 else 0)"
  let ?R = "R\<lparr>rn_pending_ops := rn_pending_ops R @ [c], rn_have_unpolled_ops := True, rn_nr_web_calls := ?nr, rn_channel := ch'\<rparr>"
  have ids: "ar_id r = i" if "r \<in> set (op_posts s)" for r using request_op_ids [of r i net q] that sv by simp
  have s: "stream_of j sent = (if j = i then sent else [])" "stream_of j (call_posts c) = (if j = i then call_posts c else [])" for j
    using ids m(3) stream_of_same [of sent i j] stream_of_same [of "call_posts c" i j] by auto
  show thesis
  proof (rule that [of ?R])
    show "handle_request n net i q R = Ok ?R"
      using sv m(1) v by (auto simp: handle_request_def opcall_eager_def handle_opcall_def split: request_value.splits)
    show "runner_inv ?R" using assms m(4-6) by (auto simp: runner_inv_def op_simps)
    show "busy j (rn_pending_ops ?R) \<le> 1" if "busy j (rn_pending_ops R) \<le> 1" "pending_of i (rn_pending_ops R) = []" for j
      using that s by (auto simp: op_simps no_pending_busy)
    show "left_of j ?R = left_of j R @ (if j = i then op_posts (fst (request_op i net q)) else [])"
      if "pending_of i (rn_pending_ops R) = []" for j
      using that s m(2,3) sv by (auto simp: left_of_def op_simps)
    show "rn_have_unpolled_ops ?R" by simp
  qed
qed

section \<open>Runs\<close>

text \<open>
  The requests made so far, each with its identifier, and the results handed to the
  controller, over any interleaving of requests and collections.
\<close>

inductive runner_run :: "'req host_env \<Rightarrow> (u64 \<times> 'req request_value) list \<Rightarrow> async_result list \<Rightarrow> runner \<Rightarrow> bool"
  for E where
  run_new: "runner_run E [] [] runner_new"
| run_request: "runner_run E reqs out R \<Longrightarrow> i \<notin> fst ` set reqs \<Longrightarrow> handle_request n (he_net E) i q R = Ok R' \<Longrightarrow>
    runner_run E (reqs @ [(i, q)]) out R'"
| run_collect: "runner_run E reqs out R \<Longrightarrow>
    collect_loop E tick (R\<lparr>rn_have_unpolled_ops := False\<rparr>) = (Ok res, tick', R') \<Longrightarrow>
    runner_run E reqs (out @ (case res of Some r \<Rightarrow> [r] | None \<Rightarrow> [])) R'"

definition run_ok :: "(u64 \<Rightarrow> 'req \<Rightarrow> response) \<Rightarrow> (u64 \<times> 'req request_value) list \<Rightarrow> async_result list \<Rightarrow> runner \<Rightarrow> bool" where
  "run_ok net reqs out R \<longleftrightarrow> runner_inv R \<and> distinct (map fst reqs) \<and> (\<forall>j. busy j (rn_pending_ops R) \<le> 1) \<and>
     (\<forall>j. stream_of j out @ left_of j R =
        (case map_of reqs j of Some q \<Rightarrow> op_posts (fst (request_op j net q)) | None \<Rightarrow> []))"

lemma runner_new_left: "left_of j runner_new = []" "busy j (rn_pending_ops runner_new) = 0"
  by (simp_all add: left_of_def runner_new_def op_simps)

lemma runner_run_ok: "runner_run E reqs out R \<Longrightarrow> run_ok (he_net E) reqs out R"
proof (induction rule: runner_run.induct)
  case run_new
  then show ?case using runner_inv_new by (simp add: run_ok_def runner_new_left)
next
  case (run_request reqs out R i n q R')
  have d: "runner_inv R" "distinct (map fst reqs)" "\<And>j. busy j (rn_pending_ops R) \<le> 1"
    "\<And>j. stream_of j out @ left_of j R = (case map_of reqs j of Some q \<Rightarrow> op_posts (fst (request_op j (he_net E) q)) | None \<Rightarrow> [])"
    using run_request.IH by (auto simp: run_ok_def)
  have "map_of reqs i = None" using run_request.hyps(2) by (simp add: map_of_eq_None_iff)
  then have i: "stream_of i out = []" "left_of i R = []" using d(4) [of i] by auto
  then have p: "pending_of i (rn_pending_ops R) = []" by (simp add: left_of_def)
  obtain R1 where h: "handle_request n (he_net E) i q R = Ok R1" "runner_inv R1"
    "\<And>j. busy j (rn_pending_ops R) \<le> 1 \<Longrightarrow> pending_of i (rn_pending_ops R) = [] \<Longrightarrow> busy j (rn_pending_ops R1) \<le> 1"
    "\<And>j. pending_of i (rn_pending_ops R) = [] \<Longrightarrow>
       left_of j R1 = left_of j R @ (if j = i then op_posts (fst (request_op i (he_net E) q)) else [])"
    using handle_request_correct [OF d(1), of n "he_net E" i q] by metis
  have "R1 = R'" using h(1) run_request.hyps(3) by simp
  moreover have "map_of (reqs @ [(i, q)]) j = (if j = i then Some q else map_of reqs j)" for j
    using \<open>map_of reqs i = None\<close> by (auto simp: map_add_def split: option.splits)
  ultimately show ?case
    using h(2) h(3) [OF d(3) p] h(4) [OF p] d(2,4) i run_request.hyps(2) by (auto simp: run_ok_def)
next
  case (run_collect reqs out R tick res tick' R')
  let ?R = "R\<lparr>rn_have_unpolled_ops := False\<rparr>"
  have *: "runner_inv R' \<and> busy j (rn_pending_ops R') \<le> 1 \<and>
      left_of j R = stream_of j (case res of Some r \<Rightarrow> [r] | None \<Rightarrow> []) @ left_of j R'" for j
  proof -
    have r: "runner_inv ?R" "busy j (rn_pending_ops ?R) \<le> 1" using run_collect.IH by (simp_all add: run_ok_def)
    from collect_loop_correct [OF r(1) run_collect.hyps(2), of j] r(2) show ?thesis by (cases res) auto
  qed
  have "stream_of j (out @ (case res of Some r \<Rightarrow> [r] | None \<Rightarrow> [])) @ left_of j R' = stream_of j out @ left_of j R" for j
    using * [of j] by simp
  then show ?case using run_collect.IH * unfolding run_ok_def by auto
qed

section \<open>Identifiers\<close>

definition ids_below :: "u64 \<Rightarrow> (u64 \<times> 'req request_value) list \<Rightarrow> bool" where
  "ids_below i reqs \<longleftrightarrow> (\<forall>j \<in> fst ` set reqs. j < i)"

lemma ids_below_snoc:
  assumes "ids_below i reqs" "unat i + 1 < 2 ^ 64"
  shows "ids_below (i + 1) (reqs @ [(i, q)])" "i \<notin> fst ` set reqs"
proof -
  have "unat (i + 1) = unat i + 1" using assms(2) unat_add_lem [of i 1] by simp
  then show "ids_below (i + 1) (reqs @ [(i, q)])"
    using assms(1) unfolding ids_below_def word_less_nat_alt by (auto intro: less_SucI)
  show "i \<notin> fst ` set reqs" using assms(1) unfolding ids_below_def by auto
qed

text \<open>What one host function does: one request, under the next identifier.\<close>

lemma abi_request_run:
  assumes "abi_request b E mem ptr len stream (cx, R) = Ok (i, cx', R')" "runner_run E reqs out R"
    "ids_below (cx_request_id_counter cx) reqs" "unat (cx_request_id_counter cx) + 1 < 2 ^ 64"
  obtains q where "i = cx_request_id_counter cx" "cx_request_id_counter cx' = i + 1"
    "runner_run E (reqs @ [(i, q)]) out R'" "ids_below (i + 1) (reqs @ [(i, q)])"
proof -
  obtain x where x: "i = cx_request_id_counter cx" "cx_request_id_counter cx' = i + 1"
    "handle_request (he_eager E i) (he_net E) i ((if stream = 0 then Http else HttpStream) x) R = Ok R'"
    using assms(1) by (fastforce simp: abi_request_def fetch_add_def obind_Ok_iff)
  then show thesis
    using that run_request [OF assms(2) _ x(3)] ids_below_snoc [OF assms(3,4)] by simp
qed

lemma abi_delay_run:
  assumes "abi_delay E millis (cx, R) = Ok (i, cx', R')" "runner_run E reqs out R"
    "ids_below (cx_request_id_counter cx) reqs" "unat (cx_request_id_counter cx) + 1 < 2 ^ 64"
  obtains q where "i = cx_request_id_counter cx" "cx_request_id_counter cx' = i + 1"
    "runner_run E (reqs @ [(i, q)]) out R'" "ids_below (i + 1) (reqs @ [(i, q)])"
proof -
  have x: "i = cx_request_id_counter cx" "cx_request_id_counter cx' = i + 1"
    "handle_request (he_eager E i) (he_net E) i (Delay (from_millis millis)) R = Ok R'"
    using assms(1) by (auto simp: abi_delay_def fetch_add_def obind_Ok_iff)
  then show thesis
    using that run_request [OF assms(2) _ x(3)] ids_below_snoc [OF assms(3,4)] by simp
qed

lemma guest_calls_run:
  assumes "guest_calls b E cs (cx, R) = Ok (cx', R')" "runner_run E reqs out R"
    "ids_below (cx_request_id_counter cx) reqs" "unat (cx_request_id_counter cx) + length cs < 2 ^ 64"
  shows "\<exists>new. map fst new = map (\<lambda>k. cx_request_id_counter cx + of_nat k) [0..<length cs] \<and>
    cx_request_id_counter cx' = cx_request_id_counter cx + of_nat (length cs) \<and>
    runner_run E (reqs @ new) out R' \<and> ids_below (cx_request_id_counter cx') (reqs @ new)"
  using assms
proof (induction cs arbitrary: cx R reqs)
  case Nil
  then show ?case by (intro exI [of _ "[]"]) simp
next
  case (Cons c cs)
  let ?i = "cx_request_id_counter cx"
  obtain i cx1 R1 where h: "(case c of Call_Request mem ptr len stream \<Rightarrow> abi_request b E mem ptr len stream (cx, R)
      | Call_Delay millis \<Rightarrow> abi_delay E millis (cx, R)) = Ok (i, cx1, R1)"
    and r: "guest_calls b E cs (cx1, R1) = Ok (cx', R')"
    using Cons.prems(1) by (cases c) (auto simp: obind_Ok_iff)
  have l: "unat ?i + 1 < 2 ^ 64" using Cons.prems(4) by simp
  obtain q where q: "i = ?i" "cx_request_id_counter cx1 = i + 1" "runner_run E (reqs @ [(i, q)]) out R1"
    "ids_below (i + 1) (reqs @ [(i, q)])"
    using h abi_request_run [OF _ Cons.prems(2,3) l] abi_delay_run [OF _ Cons.prems(2,3) l] by (cases c) (auto, blast+)
  have u: "unat (cx_request_id_counter cx1) = unat ?i + 1" using q(1,2) l unat_add_lem [of ?i 1] by simp
  obtain new where n: "map fst new = map (\<lambda>k. cx_request_id_counter cx1 + of_nat k) [0..<length cs]"
    "cx_request_id_counter cx' = cx_request_id_counter cx1 + of_nat (length cs)"
    "runner_run E ((reqs @ [(i, q)]) @ new) out R'" "ids_below (cx_request_id_counter cx') ((reqs @ [(i, q)]) @ new)"
    using Cons.IH [OF r q(3)] q(2,4) u Cons.prems(4) by auto
  have "map fst ((i, q) # new) = map (\<lambda>k. ?i + of_nat k) [0..<length (c # cs)]"
    using n(1) q(1,2) by (simp add: map_upt_Suc ac_simps del: upt_Suc)
  moreover have "cx_request_id_counter cx' = ?i + of_nat (length (c # cs))" using n(2) q(1,2) by (simp add: ac_simps)
  ultimately show ?case using n(3,4) by (intro exI [of _ "(i, q) # new"]) simp
qed

text \<open>The panics a host function can end with: all come from what the controller passed.\<close>

definition guest_faults :: "build \<Rightarrow> fault set" where
  "guest_faults b = {Index_Out_Of_Bounds, Undecodable_Request, Unaddressable_Request, Memory_Missing} \<union> (if b = Debug then {Overflow} else {})"

lemma memory_slice_faults: "memory_slice b mem ptr len = Panic p \<Longrightarrow> p \<in> guest_faults b" "memory_slice b mem ptr len \<noteq> Err e"
  by (auto simp: memory_slice_def u32_add_def ensure_def guest_faults_def obind_def split: if_splits outcome.splits)

lemma memory_slice_eq:
  "memory_slice b mem ptr len =
     (if unat ptr + unat len < 2 ^ 32 \<and> unat ptr + unat len \<le> length mem
      then Ok (take (unat len) (drop (unat ptr) mem))
      else Panic (if b = Debug \<and> 2 ^ 32 \<le> unat ptr + unat len then Overflow else Index_Out_Of_Bounds))"
proof (cases "unat ptr + unat len < 2 ^ 32")
  case True
  then have "unat (ptr + len) = unat ptr + unat len" using unat_add_lem [of ptr len] by simp
  then show ?thesis using True by (auto simp: memory_slice_def u32_add_def ensure_def)
next
  case False
  have bound: "unat x < 2 ^ 32" for x :: u32 using unsigned_less [of x, where 'a = nat] by simp
  have "unat (ptr + len) = (unat ptr + unat len) mod 2 ^ 32" by (simp add: unat_word_ariths)
  also have "\<dots> = unat ptr + unat len - 2 ^ 32"
    using False bound [of ptr] bound [of len] by (simp add: le_mod_geq)
  finally have "unat (ptr + len) < unat ptr" using False bound [of ptr] bound [of len] by simp
  then show ?thesis using False by (auto simp: memory_slice_def u32_add_def ensure_def)
qed

lemma handle_request_inv:
  assumes "runner_inv R"
  obtains R' where "handle_request n net i q R = Ok R'" "runner_inv R'"
  using handle_request_correct [OF assms, of n net i q] by metis

lemma host_call_inv:
  assumes "runner_inv R"
  shows "case abi_request b E memory ptr len stream (cx, R) of
      Ok (_, _, R') \<Rightarrow> runner_inv R' | Err _ \<Rightarrow> False | Panic p \<Rightarrow> p \<in> guest_faults b" (is ?request)
    and "case abi_delay E millis (cx, R) of Ok (_, _, R') \<Rightarrow> runner_inv R' | _ \<Rightarrow> False" (is ?delay)
proof -
  show ?request
  proof (cases memory)
    case (Some mem)
    note memory = this
    show ?thesis
    proof (cases "memory_slice b mem ptr len")
      case (Ok bytes)
      show ?thesis
      proof (cases "he_decode E bytes")
        case (Some x)
        obtain R' where "handle_request (he_eager E (cx_request_id_counter cx)) (he_net E) (cx_request_id_counter cx)
            ((if stream = 0 then Http else HttpStream) x) R = Ok R'" "runner_inv R'"
          by (rule handle_request_inv [OF assms])
        then show ?thesis using memory Ok Some by (cases "he_url_ok E x") (simp_all add: abi_request_def fetch_add_def guest_faults_def)
      qed (use memory Ok in \<open>simp add: abi_request_def guest_faults_def\<close>)
    qed (use memory memory_slice_faults in \<open>auto simp: abi_request_def\<close>)
  qed (simp add: abi_request_def guest_faults_def)
  obtain R' where "handle_request (he_eager E (cx_request_id_counter cx)) (he_net E) (cx_request_id_counter cx)
      (Delay (from_millis millis)) R = Ok R'" "runner_inv R'"
    by (rule handle_request_inv [OF assms])
  then show ?delay by (simp add: abi_delay_def fetch_add_def)
qed

lemma guest_calls_inv:
  "runner_inv (snd s) \<Longrightarrow>
     case guest_calls b E cs s of Ok (_, R') \<Rightarrow> runner_inv R' | Err _ \<Rightarrow> False | Panic p \<Rightarrow> p \<in> guest_faults b"
proof (induction b E cs s rule: guest_calls.induct)
  case (2 b E mem ptr len stream cs s)
  then show ?case using host_call_inv(1) [of "snd s" b E mem ptr len stream "fst s"]
    by (cases "abi_request b E mem ptr len stream s") (auto split: prod.splits)
next
  case (3 b E millis cs s)
  then show ?case using host_call_inv(2) [of "snd s" E millis "fst s"]
    by (cases "abi_delay E millis s") (auto split: prod.splits)
qed (auto split: prod.splits)

end
