(* ===== verification/Swap.thy ===== *)
theory Swap
  imports Runner_Correct
begin

text \<open>
  Swapping an instance out and back in. The engine is a parameter; what the code relies on is
  \<open>engine_ok\<close>: memory reads back what was written, grows by whole pages and never shrinks, a
  global reads back what it was set to, and an instance exports what its module exports.
\<close>

section \<open>The engine\<close>

definition exports :: "('vm, 'val) vm_ops \<Rightarrow> 'vm \<Rightarrow> bool \<times> (string \<times> bool) list" where
  "exports V vm = (vm_exports_memory V vm, map (\<lambda>(name, mutable, _). (name, mutable)) (vm_globals V vm))"

definition assign :: "string \<Rightarrow> 'val \<Rightarrow> (string \<times> bool \<times> 'val) list \<Rightarrow> (string \<times> bool \<times> 'val) list" where
  "assign name v = map (\<lambda>(n, mutable, x). (n, mutable, if n = name then v else x))"

lemma exports_memory: "exports V vm = exports V vm' \<Longrightarrow> vm_exports_memory V vm = vm_exports_memory V vm'"
  by (simp add: exports_def)

definition keeps_module :: "('vm, 'val) vm_ops \<Rightarrow> 'vm \<Rightarrow> 'vm \<Rightarrow> bool" where
  "keeps_module V vm vm' \<longleftrightarrow> exports V vm' = exports V vm \<and> length (vm_memory V vm) \<le> length (vm_memory V vm')"

definition engine_memory_ok :: "('vm, 'val) vm_ops \<Rightarrow> bool" where
  "engine_memory_ok V \<longleftrightarrow>
     (\<forall>vm. WASM_PAGE_SIZE dvd length (vm_memory V vm)) \<and>
     (\<forall>vm mem. length mem = length (vm_memory V vm) \<longrightarrow>
        vm_memory V (vm_put_memory V mem vm) = mem \<and> vm_globals V (vm_put_memory V mem vm) = vm_globals V vm \<and>
        vm_exports_memory V (vm_put_memory V mem vm) = vm_exports_memory V vm) \<and>
     (\<forall>vm n vm'. vm_grow V n vm = Some vm' \<longrightarrow>
        length (vm_memory V vm') = length (vm_memory V vm) + n * WASM_PAGE_SIZE \<and> vm_globals V vm' = vm_globals V vm \<and>
        vm_exports_memory V vm' = vm_exports_memory V vm)"

definition engine_globals_ok :: "('vm, 'val) vm_ops \<Rightarrow> bool" where
  "engine_globals_ok V \<longleftrightarrow>
     (\<forall>vm. distinct (map fst (vm_globals V vm))) \<and>
     (\<forall>vm name v vm'. vm_set_global V name v vm = Some vm' \<longrightarrow>
        vm_memory V vm' = vm_memory V vm \<and> vm_globals V vm' = assign name v (vm_globals V vm) \<and>
        vm_exports_memory V vm' = vm_exports_memory V vm) \<and>
     (\<forall>vm vm' name v. exports V vm' = exports V vm \<longrightarrow> (name, True, v) \<in> set (vm_globals V vm) \<longrightarrow>
        vm_set_global V name v vm' \<noteq> None)"

definition engine_calls_ok :: "('vm, 'val) vm_ops \<Rightarrow> bool" where
  "engine_calls_ok V \<longleftrightarrow>
     (\<forall>i vm vm' cs. vm_start V i vm = Some (vm', cs) \<longrightarrow> keeps_module V vm vm') \<and>
     (\<forall>n i vm p vm' cs. vm_allocate V n i vm = Some (p, vm', cs) \<longrightarrow> keeps_module V vm vm') \<and>
     (\<forall>r f p n i vm vm' cs. vm_wakeup V r f p n i vm = Some (vm', cs) \<longrightarrow> keeps_module V vm vm')"

definition engine_ok :: "('vm, 'val) vm_ops \<Rightarrow> bool" where
  "engine_ok V \<longleftrightarrow> engine_memory_ok V \<and> engine_globals_ok V \<and> engine_calls_ok V"

lemma keeps_module_refl [simp]: "keeps_module V vm vm"
  by (simp add: keeps_module_def)

lemma keeps_module_trans: "keeps_module V vm vm1 \<Longrightarrow> keeps_module V vm1 vm2 \<Longrightarrow> keeps_module V vm vm2"
  by (simp add: keeps_module_def)

lemma engine_put_memory:
  assumes "engine_ok V" "length mem = length (vm_memory V vm)"
  shows "vm_memory V (vm_put_memory V mem vm) = mem" "vm_globals V (vm_put_memory V mem vm) = vm_globals V vm"
    "vm_exports_memory V (vm_put_memory V mem vm) = vm_exports_memory V vm"
  using assms by (auto simp: engine_ok_def engine_memory_ok_def)

lemma engine_grow:
  assumes "engine_ok V" "vm_grow V n vm = Some vm'"
  shows "length (vm_memory V vm') = length (vm_memory V vm) + n * WASM_PAGE_SIZE" "vm_globals V vm' = vm_globals V vm"
    "vm_exports_memory V vm' = vm_exports_memory V vm"
  using assms by (auto simp: engine_ok_def engine_memory_ok_def)

lemma engine_set_global:
  assumes "engine_ok V" "vm_set_global V name v vm = Some vm'"
  shows "vm_memory V vm' = vm_memory V vm" "vm_globals V vm' = assign name v (vm_globals V vm)"
    "vm_exports_memory V vm' = vm_exports_memory V vm"
  using assms by (auto simp: engine_ok_def engine_globals_ok_def)

lemma exports_cong:
  "vm_globals V vm' = vm_globals V vm \<Longrightarrow> vm_exports_memory V vm' = vm_exports_memory V vm \<Longrightarrow> exports V vm' = exports V vm"
  by (simp add: exports_def)

lemma exports_assign:
  "vm_globals V vm' = assign name v (vm_globals V vm) \<Longrightarrow> vm_exports_memory V vm' = vm_exports_memory V vm \<Longrightarrow>
     exports V vm' = exports V vm"
  by (auto simp: exports_def assign_def)

lemma exports_names: "exports V vm' = exports V vm \<Longrightarrow> fst ` set (vm_globals V vm') = fst ` set (vm_globals V vm)"
proof -
  assume "exports V vm' = exports V vm"
  then have "map fst (snd (exports V vm')) = map fst (snd (exports V vm))" by simp
  then have "set (map fst (vm_globals V vm')) = set (map fst (vm_globals V vm))"
    unfolding exports_def by (simp add: comp_def case_prod_unfold)
  then show ?thesis by simp
qed

section \<open>Growing\<close>

lemma WASM_PAGE_SIZE_pos [simp]: "0 < WASM_PAGE_SIZE"
  by (simp add: WASM_PAGE_SIZE_def)

lemma pages_needed_least:
  "pages_needed memory_min mem_size \<le> n \<longleftrightarrow> memory_min \<le> mem_size + n * WASM_PAGE_SIZE"
proof -
  define P where "P = WASM_PAGE_SIZE"
  define d where "d = memory_min - mem_size"
  have d: "d = d div P * P + d mod P" "d mod P < P" unfolding P_def by simp_all
  have "pages_needed memory_min mem_size \<le> n \<longleftrightarrow> d \<le> n * P"
  proof (cases "d mod P = 0")
    case True
    have "d div P \<le> n \<longleftrightarrow> d div P * P \<le> n * P" unfolding P_def using WASM_PAGE_SIZE_pos by (metis mult_le_cancel2)
    moreover have "d div P * P = d" using True d(1) by linarith
    ultimately show ?thesis using True by (simp add: pages_needed_def Let_def d_def [symmetric] P_def [symmetric])
  next
    case False
    have "d div P < n \<longleftrightarrow> d div P * P + d mod P \<le> n * P"
    proof
      assume "d div P < n"
      then have "Suc (d div P) * P \<le> n * P" by (intro mult_le_mono1) simp
      then have "P + d div P * P \<le> n * P" by simp
      then show "d div P * P + d mod P \<le> n * P" using d(2) by linarith
    next
      assume "d div P * P + d mod P \<le> n * P"
      then have "d div P * P < n * P" using False by linarith
      then show "d div P < n" by simp
    qed
    moreover have "d div P * P + d mod P = d" by simp
    ultimately show ?thesis using False by (simp add: pages_needed_def Let_def d_def [symmetric] P_def [symmetric] Suc_le_eq)
  qed
  then show ?thesis unfolding d_def P_def by linarith
qed

lemma pages_needed_exact:
  assumes "WASM_PAGE_SIZE dvd memory_min" "WASM_PAGE_SIZE dvd mem_size" "mem_size \<le> memory_min"
  shows "mem_size + pages_needed memory_min mem_size * WASM_PAGE_SIZE = memory_min"
proof -
  have "WASM_PAGE_SIZE dvd memory_min - mem_size" using assms by simp
  then show ?thesis using assms(3) by (auto simp: pages_needed_def Let_def dvd_eq_mod_eq_0 dvd_div_mult_self)
qed

section \<open>Restoring\<close>

lemma grow_to_ok:
  assumes "engine_ok V"
  shows "case grow_to V n vm of
      Ok vm' \<Rightarrow> vm_globals V vm' = vm_globals V vm \<and> vm_exports_memory V vm' = vm_exports_memory V vm \<and> n \<le> length (vm_memory V vm') \<and>
        (WASM_PAGE_SIZE dvd n \<and> length (vm_memory V vm) \<le> n \<longrightarrow> length (vm_memory V vm') = n)
    | Err _ \<Rightarrow> length (vm_memory V vm) < n \<and> vm_grow V (pages_needed n (length (vm_memory V vm))) vm = None
    | Panic _ \<Rightarrow> False"
proof (cases "length (vm_memory V vm) < n")
  case True
  let ?p = "pages_needed n (length (vm_memory V vm))"
  have "WASM_PAGE_SIZE dvd length (vm_memory V vm)" using assms by (simp add: engine_ok_def engine_memory_ok_def)
  then show ?thesis
    using True engine_grow [OF assms, of ?p vm] pages_needed_exact [of n "length (vm_memory V vm)"]
      pages_needed_least [of n "length (vm_memory V vm)" ?p]
    by (cases "vm_grow V ?p vm") (auto simp: grow_to_def Let_def)
next
  case False
  then show ?thesis by (auto simp: grow_to_def Let_def)
qed

lemma read_memory_ok:
  assumes "engine_ok V" "n \<le> length (vm_memory V vm)" "length file = n"
  shows "read_memory V file n vm =
    (if length (vm_memory V vm) = n then Ok (vm_put_memory V file vm) else Err File_Error)"
  using assms(2,3) by (auto simp: read_memory_def Let_def)

definition assign_all :: "(string \<times> 'val) list \<Rightarrow> (string \<times> bool \<times> 'val) list \<Rightarrow> (string \<times> bool \<times> 'val) list" where
  "assign_all gs globals = fold (\<lambda>(name, v). assign name v) gs globals"

lemma exports_assign_all:
  "vm_globals V vm' = assign_all gs (vm_globals V vm) \<Longrightarrow> vm_exports_memory V vm' = vm_exports_memory V vm \<Longrightarrow>
     exports V vm' = exports V vm"
proof -
  have "map (\<lambda>(n, m, _). (n, m)) (assign_all gs G) = map (\<lambda>(n, m, _). (n, m)) G" for G
  proof (induction gs arbitrary: G)
    case (Cons g gs)
    then show ?case by (cases g) (auto simp: assign_all_def assign_def)
  qed (simp add: assign_all_def)
  then show "vm_globals V vm' = assign_all gs (vm_globals V vm) \<Longrightarrow> vm_exports_memory V vm' = vm_exports_memory V vm \<Longrightarrow>
      exports V vm' = exports V vm"
    by (simp add: exports_def)
qed

lemma restore_globals_ok:
  assumes "engine_ok V" "fst ` set gs \<subseteq> fst ` set (vm_globals V vm)"
  shows "case restore_globals V gs vm of
      Ok vm' \<Rightarrow> vm_memory V vm' = vm_memory V vm \<and> vm_globals V vm' = assign_all gs (vm_globals V vm) \<and>
        vm_exports_memory V vm' = vm_exports_memory V vm
    | Err _ \<Rightarrow> \<exists>vm''. \<exists>(name, v) \<in> set gs. exports V vm'' = exports V vm \<and> vm_set_global V name v vm'' = None
    | Panic _ \<Rightarrow> False"
  using assms(2)
proof (induction gs arbitrary: vm)
  case Nil
  then show ?case by (simp add: assign_all_def)
next
  case (Cons g gs)
  obtain name v where g: "g = (name, v)" by (cases g)
  show ?case
  proof (cases "vm_set_global V name v vm")
    case None
    then show ?thesis using Cons.prems g by auto
  next
    case (Some vm1)
    note s = engine_set_global [OF assms(1) Some]
    have e: "exports V vm1 = exports V vm" by (rule exports_assign [OF s(2,3)])
    have "fst ` set gs \<subseteq> fst ` set (vm_globals V vm1)" using Cons.prems exports_names [OF e] by auto
    from Cons.IH [OF this] show ?thesis
      using Some g Cons.prems s e by (auto simp: assign_all_def split: outcome.splits)
  qed
qed

text \<open>Restoring reads the state and leaves it alone.\<close>

definition restore_result :: "('vm, 'val) vm_ops \<Rightarrow> 'val snapshot \<Rightarrow> 'vm option \<Rightarrow> u8 list option \<Rightarrow> 'vm outcome" where
  "restore_result V sn loaded swap =
     obind (or_err loaded Module_Error) (\<lambda>vm.
     obind (get_memory V vm) (\<lambda>_.
     obind (or_err swap File_Error) (\<lambda>file.
     obind (grow_to V (sn_memory_min sn) vm) (\<lambda>vm.
     obind (read_memory V file (sn_memory_min sn) vm) (\<lambda>vm.
     restore_globals V (sn_globals sn) vm)))))"

lemma restore_instance_eq:
  "restore_instance V sn st = (restore_result V sn (vm_load V (ms_wasm_path st)) (ms_files st (ms_swap_path st)), st)"
  unfolding restore_instance_def restore_result_def load_instance_def
  by (cases "vm_load V (ms_wasm_path st)"; cases "ms_files st (ms_swap_path st)")
    (simp_all add: act_bind_def act_run get_memory_def)

definition from_module :: "('vm, 'val) vm_ops \<Rightarrow> ('vm, 'val) module_state \<Rightarrow> 'vm \<Rightarrow> bool" where
  "from_module V st vm \<longleftrightarrow> (\<exists>vm0. vm_load V (ms_wasm_path st) = Some vm0 \<and> exports V vm = exports V vm0)"

definition swapped :: "('vm, 'val) vm_ops \<Rightarrow> ('vm, 'val) module_state \<Rightarrow> 'val snapshot \<Rightarrow> bool" where
  "swapped V st sn \<longleftrightarrow>
     (\<exists>file. ms_files st (ms_swap_path st) = Some file \<and> length file = sn_memory_min sn) \<and>
     (\<forall>vm0. vm_load V (ms_wasm_path st) = Some vm0 \<longrightarrow>
        vm_exports_memory V vm0 \<and> fst ` set (sn_globals sn) \<subseteq> fst ` set (vm_globals V vm0))"

lemma restore_result_ok:
  assumes "engine_ok V" "swapped V st sn"
  shows "case restore_result V sn (vm_load V (ms_wasm_path st)) (ms_files st (ms_swap_path st)) of
      Ok vm \<Rightarrow> from_module V st vm
    | Err _ \<Rightarrow> True
    | Panic _ \<Rightarrow> False"
proof (cases "vm_load V (ms_wasm_path st)")
  case (Some vm0)
  obtain bytes where f: "ms_files st (ms_swap_path st) = Some bytes" "length bytes = sn_memory_min sn"
    and g: "vm_exports_memory V vm0" "fst ` set (sn_globals sn) \<subseteq> fst ` set (vm_globals V vm0)"
    using assms(2) Some by (auto simp: swapped_def)
  show ?thesis
  proof (cases "grow_to V (sn_memory_min sn) vm0")
    case (Ok vm1)
    then have 1: "vm_globals V vm1 = vm_globals V vm0" "sn_memory_min sn \<le> length (vm_memory V vm1)"
      "vm_exports_memory V vm1 = vm_exports_memory V vm0"
      using grow_to_ok [OF assms(1), where n = "sn_memory_min sn" and vm = vm0] by auto
    let ?vm2 = "vm_put_memory V bytes vm1"
    show ?thesis
    proof (cases "length (vm_memory V vm1) = sn_memory_min sn")
      case True
      then have "vm_globals V ?vm2 = vm_globals V vm0 \<and> vm_exports_memory V ?vm2 = vm_exports_memory V vm0"
        using engine_put_memory [OF assms(1), of bytes vm1] f(2) 1(1,3) by simp
      moreover note restore_globals_ok [OF assms(1), where gs = "sn_globals sn" and vm = ?vm2]
      ultimately show ?thesis
        using True Some f Ok g read_memory_ok [OF assms(1) 1(2) f(2)]
        by (auto simp: restore_result_def get_memory_def from_module_def split: outcome.splits intro: exports_assign_all)
    qed (use Some f g Ok read_memory_ok [OF assms(1) 1(2) f(2)] in \<open>simp add: restore_result_def get_memory_def\<close>)
  qed (use Some f g grow_to_ok [OF assms(1), where n = "sn_memory_min sn" and vm = vm0] in \<open>auto simp: restore_result_def get_memory_def\<close>)
qed (simp add: restore_result_def)

section \<open>Out and back\<close>

lemma assign_all_map:
  assumes "distinct (map fst gs)"
  shows "assign_all gs G = map (\<lambda>(n, mutable, x). (n, mutable, case map_of gs n of Some v \<Rightarrow> v | None \<Rightarrow> x)) G"
  using assms
proof (induction gs arbitrary: G)
  case (Cons g gs)
  obtain n v where g: "g = (n, v)" by (cases g)
  have "map_of gs n = None" using Cons.prems g by (simp add: map_of_eq_None_iff)
  then show ?case
    using Cons.IH [of "assign n v G"] Cons.prems g by (auto simp: assign_all_def assign_def)
qed (simp add: assign_all_def split_def)

definition mutables :: "(string \<times> bool \<times> 'val) list \<Rightarrow> (string \<times> 'val) list" where
  "mutables G = map (\<lambda>(name, _, v). (name, v)) (filter (\<lambda>(_, mutable, _). mutable) G)"

lemma mutable_globals_eq: "mutable_globals V vm = mutables (vm_globals V vm)"
  by (simp add: mutable_globals_def mutables_def)

lemma mutables_simps [simp]:
  "mutables [] = []" "mutables ((n, m, v) # G) = (if m then (n, v) # mutables G else mutables G)"
  by (simp_all add: mutables_def)

lemma mutables_names: "fst ` set (mutables G) \<subseteq> fst ` set G" "distinct (map fst G) \<Longrightarrow> distinct (map fst (mutables G))"
proof -
  show *: "fst ` set (mutables G) \<subseteq> fst ` set G" for G :: "(string \<times> bool \<times> 'a) list"
  proof (induction G)
    case (Cons g G)
    then show ?case by (cases g) auto
  qed simp
  show "distinct (map fst G) \<Longrightarrow> distinct (map fst (mutables G))"
  proof (induction G)
    case (Cons g G)
    then show ?case using * [of G] by (cases g) auto
  qed simp
qed

lemma mutables_mem: "(n, True, v) \<in> set G \<Longrightarrow> (n, v) \<in> set (mutables G)"
proof (induction G)
  case (Cons g G)
  then show ?case by (cases g) auto
qed simp

lemma mutables_map_of:
  assumes "distinct (map fst G)" "(n, True, v) \<in> set G"
  shows "map_of (mutables G) n = Some v"
  using mutables_names(2) [OF assms(1)] assms(2) by (intro map_of_is_SomeI) (auto simp: mutables_mem)

lemma mutables_restored:
  assumes "map (\<lambda>(n, m, _). (n, m)) G0 = map (\<lambda>(n, m, _). (n, m)) G" "\<And>n v. (n, True, v) \<in> set G \<Longrightarrow> f n = Some v"
  shows "mutables (map (\<lambda>(n, m, x). (n, m, case f n of Some v \<Rightarrow> v | None \<Rightarrow> x)) G0) = mutables G"
proof -
  have "length G0 = length G" using assms(1) by (metis length_map)
  then show ?thesis using assms
  proof (induction G0 G rule: list_induct2)
    case (Cons g0 G0 g G)
    obtain n m x where g: "g = (n, m, x)" by (cases g)
    have "f n = Some x" if m using Cons.prems(2) [of n x] g that by simp
    moreover have "(n, True, v) \<in> set G \<Longrightarrow> f n = Some v" for n v using Cons.prems(2) by simp
    ultimately show ?case using Cons.IH Cons.prems(1) g by (cases g0) simp
  qed simp
qed

lemma restore_snapshot:
  assumes "engine_ok V" "exports V vm = exports V vm0" "vm_exports_memory V vm" "length (vm_memory V vm0) \<le> length (vm_memory V vm)"
    "length (vm_memory V vm0) < length (vm_memory V vm) \<longrightarrow>
       vm_grow V (pages_needed (length (vm_memory V vm)) (length (vm_memory V vm0))) vm0 \<noteq> None"
  obtains vm' where "restore_result V (take_snapshot V vm) (Some vm0) (Some (vm_memory V vm)) = Ok vm'"
    "vm_memory V vm' = vm_memory V vm" "mutable_globals V vm' = mutable_globals V vm" "exports V vm' = exports V vm"
proof -
  let ?n = "length (vm_memory V vm)"
  let ?gs = "mutable_globals V vm"
  have V: "engine_memory_ok V" "engine_globals_ok V" using assms(1) by (auto simp: engine_ok_def)
  have "WASM_PAGE_SIZE dvd ?n" using V(1) by (simp add: engine_memory_ok_def)
  then obtain vm1 where 1: "grow_to V ?n vm0 = Ok vm1" "vm_globals V vm1 = vm_globals V vm0" "length (vm_memory V vm1) = ?n"
      "vm_exports_memory V vm1 = vm_exports_memory V vm0"
    using grow_to_ok [OF assms(1), where n = ?n and vm = vm0] assms(4,5) by (cases "grow_to V ?n vm0") auto
  let ?vm2 = "vm_put_memory V (vm_memory V vm) vm1"
  have 2: "vm_memory V ?vm2 = vm_memory V vm" "vm_globals V ?vm2 = vm_globals V vm0"
    "vm_exports_memory V ?vm2 = vm_exports_memory V vm0"
    using engine_put_memory [OF assms(1), of "vm_memory V vm" vm1] 1(2,3,4) by simp_all
  have d: "distinct (map fst (vm_globals V vm))" using V(2) by (simp add: engine_globals_ok_def)
  have n: "fst ` set (vm_globals V vm) = fst ` set (vm_globals V ?vm2)"
    using exports_names [OF assms(2)] 2(2) by simp
  have e2: "exports V ?vm2 = exports V vm" using exports_cong [OF 2(2,3)] assms(2) by simp
  have s: "vm_set_global V name v vm'' \<noteq> None" if "(name, v) \<in> set ?gs" "exports V vm'' = exports V ?vm2" for name v vm''
    using V(2) that e2 unfolding engine_globals_ok_def by (fastforce simp: mutable_globals_eq mutables_def)
  have "fst ` set ?gs \<subseteq> fst ` set (vm_globals V ?vm2)"
    using mutables_names(1) [of "vm_globals V vm"] n by (simp add: mutable_globals_eq)
  note r = restore_globals_ok [OF assms(1) this]
  obtain vm' where 3: "restore_globals V ?gs ?vm2 = Ok vm'" "vm_memory V vm' = vm_memory V vm"
    "vm_globals V vm' = assign_all ?gs (vm_globals V vm0)" "vm_exports_memory V vm' = vm_exports_memory V vm0"
  proof (cases "restore_globals V ?gs ?vm2")
    case (Err e)
    then obtain vm'' name v where "(name, v) \<in> set ?gs" "exports V vm'' = exports V ?vm2" "vm_set_global V name v vm'' = None"
      using r by auto
    then show thesis using s by blast
  qed (use r 2 that in auto)
  have g: "vm_globals V vm' = map (\<lambda>(n, m, x). (n, m, case map_of ?gs n of Some v \<Rightarrow> v | None \<Rightarrow> x)) (vm_globals V vm0)"
    using 3(3) assign_all_map [of ?gs] mutables_names(2) [OF d] by (simp add: mutable_globals_eq)
  have "mutable_globals V vm' = ?gs"
    unfolding mutable_globals_eq [of V vm'] g mutable_globals_eq [of V vm]
    by (rule mutables_restored) (use assms(2) mutables_map_of [OF d] in \<open>simp_all add: exports_def\<close>)
  moreover have "exports V vm' = exports V vm" using g 3(4) assms(2) by (auto simp: exports_def)
  moreover have "restore_result V (take_snapshot V vm) (Some vm0) (Some (vm_memory V vm)) = Ok vm'"
    using 1 3(1) read_memory_ok [OF assms(1), of ?n vm1 "vm_memory V vm"]
    exports_memory [OF assms(2)] assms(3)
    by (simp add: restore_result_def take_snapshot_def get_memory_def)
  ultimately show thesis using that 3(2) by blast
qed

text \<open>The two works, where nothing goes wrong.\<close>

lemma run_uninstantiate_eq:
  assumes "ms_inner st = GotInst cx vm" "vm_exports_memory V vm" "he_write_ok E (ms_tick st)"
  shows "run_uninstantiate V E st =
    (Ok (Ready ()), st\<lparr>ms_inner := UnsInst cx (take_snapshot V vm), ms_tick := Suc (ms_tick st),
       ms_files := (ms_files st)(ms_swap_path st := Some (vm_memory V vm)), ms_permits := Suc (ms_permits st)\<rparr>)"
  using assms
  by (simp add: run_uninstantiate_def take_got_def inst_take_def inst_set_def set_inner_def act_bind_def act_guard_def act_run
      get_memory_def file_write_def next_tick_def add_permit_def)

lemma run_load_eq:
  assumes "ms_inner st = UnsInst cx sn" "ms_permits st \<noteq> 0"
    "restore_result V sn (vm_load V (ms_wasm_path st)) (ms_files st (ms_swap_path st)) = Ok vm"
  shows "run_load_to_mem V st = (Ok (Ready ()), st\<lparr>ms_inner := GotInst cx vm, ms_permits := ms_permits st - 1\<rparr>)"
  using assms
  by (simp add: run_load_to_mem_def take_uns_def inst_take_def inst_set_def set_inner_def act_bind_def act_guard_def act_run
      acquire_def restore_acquired_def restore_instance_eq run_loaded_def)

section \<open>Swapping is not noticed\<close>

text \<open>What swapping leaves behind in the state, apart from the instance: the file, and one call to the surroundings.\<close>

definition after_swap :: "string \<Rightarrow> u8 list \<Rightarrow> ('vm, 'val) module_state \<Rightarrow> ('vm, 'val) module_state" where
  "after_swap path bytes st = st\<lparr>ms_tick := Suc (ms_tick st), ms_files := (ms_files st)(path := Some bytes)\<rparr>"

definition blind :: "('s \<Rightarrow> 's) \<Rightarrow> ('s, 'a) action \<Rightarrow> bool" where
  "blind f m \<longleftrightarrow> (\<forall>st. m (f st) = (fst (m st), f (snd (m st))))"

lemma blind_return: "blind f (act_return x)"
  by (simp add: blind_def act_run)

lemma blind_bind:
  assumes "blind f m" "\<And>x. blind f (k x)"
  shows "blind f (act_bind m k)"
proof -
  have "act_bind m k (f st) = (fst (act_bind m k st), f (snd (act_bind m k st)))" for st
  proof (cases "m st")
    case (Pair r st')
    then have m: "m (f st) = (r, f st')" using assms(1) by (simp add: blind_def)
    show ?thesis using assms(2) by (cases r) (simp_all add: act_bind_def m Pair blind_def)
  qed
  then show ?thesis by (simp add: blind_def)
qed

lemma after_swap_sel [simp]:
  "ms_inner (after_swap p m st) = ms_inner st" "ms_runner (after_swap p m st) = ms_runner st"
  "(after_swap p m st)\<lparr>ms_inner := i\<rparr> = after_swap p m (st\<lparr>ms_inner := i\<rparr>)"
  "(after_swap p m st)\<lparr>ms_runner := R\<rparr> = after_swap p m (st\<lparr>ms_runner := R\<rparr>)"
  by (simp_all add: after_swap_def)

lemma blind_enter_guest: "blind (after_swap p m) (enter_guest b E call)"
  unfolding blind_def enter_guest_def
  by (auto split: maybe_inst.splits option.splits outcome.splits prod.splits)

lemma blind_memory_write: "blind (after_swap p m) (memory_write V ptr bytes)"
  unfolding blind_def memory_write_def by (auto split: maybe_inst.splits outcome.splits)

lemma blind_abi_wakeup: "blind (after_swap p m) (abi_wakeup b V E i val finished)"
  unfolding abi_wakeup_def abi_allocate_def
  by (cases val) (auto intro!: blind_bind blind_return blind_enter_guest blind_memory_write split: prod.splits)

lemma run_woken_after_swap:
  "run_woken b V E i val finished (after_swap p m st) =
     (case run_woken b V E i val finished st of (r, st') \<Rightarrow> (r, after_swap p m st'))"
proof (cases "ms_inner st")
  case (GotInst cx vm)
  have "blind (after_swap p m) (act_bind (abi_wakeup b V E i val finished) (\<lambda>_. act_return (Ready ())))"
    by (intro blind_bind blind_abi_wakeup blind_return)
  then show ?thesis using GotInst by (simp add: run_woken_def act_bind_def act_run blind_def split: prod.splits)
qed (simp_all add: run_woken_def act_bind_def act_run)

lemma run_wakeup_got:
  assumes "ms_inner st = GotInst cx vm"
  shows "run_wakeup b V E i val finished st = run_woken b V E i val finished st"
proof -
  have "st\<lparr>ms_inner := GotInst cx vm\<rparr> = st" using assms by (cases st) simp
  moreover have "run_wakeup b V E i val finished st = run_woken b V E i val finished (st\<lparr>ms_inner := GotInst cx vm\<rparr>)"
    using assms by (simp add: run_wakeup_def take_uns_def set_inner_def act_bind_def act_run Let_def)
  ultimately show ?thesis by simp
qed

lemma run_wakeup_swapped:
  assumes "ms_inner st = UnsInst cx sn" "0 < ms_permits st"
    "restore_result V sn (vm_load V (ms_wasm_path st)) (ms_files st (ms_swap_path st)) = Ok vm"
  shows "run_wakeup b V E i val finished st =
    run_woken b V E i val finished (st\<lparr>ms_permits := ms_permits st - 1, ms_inner := GotInst cx vm\<rparr>)"
  using assms
  by (simp add: run_wakeup_def take_uns_def inst_take_def inst_set_def set_inner_def acquire_def restore_acquired_def
      restore_instance_eq act_guard_def act_bind_def act_run Let_def)

end
