(* ===== verification/Module_Inv.thy ===== *)
theory Module_Inv
  imports Swap
begin

text \<open>
  The invariant of a controller module: which work can be pending with which instance, that the
  permits left and the permit of the instance add up, that the runner is consistent. Every
  action keeps it, and the rules below say with which panics it may fail.
\<close>

section \<open>The invariant\<close>

definition history_ok :: "('vm, 'val) module_state \<Rightarrow> bool" where
  "history_ok st \<longleftrightarrow> 0 < length (ms_last_events st) \<and> length (ms_last_events st) \<le> BUFFER_LENGTH"

definition instances :: "('vm, 'val) module_state \<Rightarrow> nat" where
  "instances st = (case ms_inner st of GotInst _ _ \<Rightarrow> 1 | _ \<Rightarrow> 0)"

text \<open>
  What a module shares with the others, as far as it may not change it: the permits together with
  that of its own instance, and the files apart from its own swap file.
\<close>

datatype ledger = Ledger nat string string "string \<Rightarrow> u8 list option"

definition ledger :: "('vm, 'val) module_state \<Rightarrow> ledger" where
  "ledger st =
     Ledger (ms_permits st + instances st) (ms_wasm_path st) (ms_swap_path st) ((ms_files st)(ms_swap_path st := None))"

definition present :: "('vm, 'val) vm_ops \<Rightarrow> ('vm, 'val) module_state \<Rightarrow> bool" where
  "present V st \<longleftrightarrow> (\<exists>cx vm. ms_inner st = GotInst cx vm \<and> from_module V st vm)"

definition absent :: "('vm, 'val) vm_ops \<Rightarrow> ('vm, 'val) module_state \<Rightarrow> bool" where
  "absent V st \<longleftrightarrow> (\<exists>cx sn. ms_inner st = UnsInst cx sn \<and> swapped V st sn)"

fun restores :: "work \<Rightarrow> bool" where
  "restores (Wakeup i value finished) = True"
| "restores Load_To_Mem = True"
| "restores _ = False"

text \<open>What the pending work says about the instance and the flag \<open>uninstantiating\<close>.\<close>

definition phase_ok :: "('vm, 'val) vm_ops \<Rightarrow> ('vm, 'val) module_state \<Rightarrow> bool" where
  "phase_ok V st = (case ms_wasm_work st of
     None \<Rightarrow> if ms_uninstantiating st then absent V st else present V st
   | Some (Fresh Start) \<Rightarrow> \<not> ms_uninstantiating st \<and> (\<exists>cx. ms_inner st = NotInst cx)
   | Some (Fresh Uninstantiate) \<Rightarrow> ms_uninstantiating st \<and> present V st
   | Some (Fresh _) \<Rightarrow> \<not> ms_uninstantiating st \<and> (present V st \<or> absent V st)
   | Some (Start_Waits _) \<Rightarrow> \<not> ms_uninstantiating st \<and> ms_inner st = Locked
   | Some (Restore_Waits w _ sn) \<Rightarrow>
       \<not> ms_uninstantiating st \<and> ms_inner st = Locked \<and> swapped V st sn \<and> restores w)"

definition module_inv :: "('vm, 'val) vm_ops \<Rightarrow> ledger \<Rightarrow> ('vm, 'val) module_state \<Rightarrow> bool" where
  "module_inv V n st \<longleftrightarrow>
     phase_ok V st \<and> runner_inv (ms_runner st) \<and> history_ok st \<and> ledger st = n"

definition module_faults :: "build \<Rightarrow> fault set" where
  "module_faults b = insert Unreadable_Prediction (guest_faults b)"

definition shared_ok :: "ledger \<Rightarrow> ('vm, 'val) module_state \<Rightarrow> bool" where
  "shared_ok n st \<longleftrightarrow> ledger st = n"

lemmas inv_defs = module_inv_def history_ok_def shared_ok_def ledger_def instances_def add_permit_def

section \<open>Calls into the controller\<close>

text \<open>While a work runs with the instance in memory.\<close>

definition running :: "('vm, 'val) vm_ops \<Rightarrow> ledger \<Rightarrow> ('vm, 'val) module_state \<Rightarrow> bool" where
  "running V n st \<longleftrightarrow> present V st \<and> \<not> ms_uninstantiating st \<and> ms_wasm_work st \<noteq> None \<and>
     runner_inv (ms_runner st) \<and> history_ok st \<and> ledger st = n"

lemma running_done: "running V n st \<Longrightarrow> module_inv V n (st\<lparr>ms_wasm_work := None\<rparr>)"
  by (auto simp: running_def inv_defs phase_ok_def present_def from_module_def)

lemma running_permits: "running V n st \<Longrightarrow> shared_ok n st"
  by (simp add: running_def shared_ok_def)

lemma enter_guest_ok:
  assumes "\<And>i vm x vm' cs. call i vm = Some (x, vm', cs) \<Longrightarrow> keeps_module V vm vm'"
  shows "act_ok (guest_faults b) (running V n) (enter_guest b E call) (\<lambda>_. running V n) (shared_ok n)"
  unfolding act_ok_def
proof (intro allI impI)
  fix st assume r: "running V n st"
  then obtain cx vm where i: "ms_inner st = GotInst cx vm" "from_module V st vm" by (auto simp: running_def present_def)
  show "case enter_guest b E call st of (Ok x, st') \<Rightarrow> running V n st' | (Err e, st') \<Rightarrow> shared_ok n st'
    | (Panic p, st') \<Rightarrow> p \<in> guest_faults b \<and> shared_ok n st'"
  proof (cases "call (cx_request_id_counter cx) vm")
    case None
    then show ?thesis using i r running_permits by (auto simp: enter_guest_def)
  next
    case (Some y)
    obtain x vm' cs where y: "y = (x, vm', cs)" by (cases y)
    have k: "keeps_module V vm vm'" using assms Some y by blast
    have "runner_inv (snd (cx, ms_runner st))" using r by (simp add: running_def)
    note g = guest_calls_inv [OF this, of b E cs]
    show ?thesis
      using Some y i g r running_permits [OF r] k
      by (auto simp: enter_guest_def running_def present_def from_module_def keeps_module_def inv_defs
          split: outcome.splits prod.splits)
  qed
qed

lemma memory_write_ok:
  assumes "engine_ok V"
  shows "act_ok {Memory_Missing} (running V n) (memory_write V ptr bytes) (\<lambda>_. running V n) (shared_ok n)"
  unfolding act_ok_def
proof (intro allI impI)
  fix st assume r: "running V n st"
  then obtain cx vm where i: "ms_inner st = GotInst cx vm" "from_module V st vm" by (auto simp: running_def present_def)
  let ?mem = "vm_memory V vm"
  let ?new = "take (unat ptr) ?mem @ bytes @ drop (unat ptr + length bytes) ?mem"
  have "exports V (vm_put_memory V ?new vm) = exports V vm" if "unat ptr + length bytes \<le> length ?mem"
    using that engine_put_memory(2,3) [OF assms, of ?new vm] by (intro exports_cong) simp_all
  then show "case memory_write V ptr bytes st of (Ok x, st') \<Rightarrow> running V n st' | (Err e, st') \<Rightarrow> shared_ok n st'
    | (Panic p, st') \<Rightarrow> p \<in> {Memory_Missing} \<and> shared_ok n st'"
    using i r running_permits [OF r]
    by (auto simp: memory_write_def get_memory_def write_memory_def Let_def running_def present_def from_module_def inv_defs)
qed

lemma engine_calls:
  assumes "engine_ok V"
  shows "no_value (vm_start V i vm) = Some (x, vm', cs) \<Longrightarrow> keeps_module V vm vm'"
    "vm_allocate V m i vm = Some (y, vm', cs) \<Longrightarrow> keeps_module V vm vm'"
    "no_value (vm_wakeup V r f p m i vm) = Some (x, vm', cs) \<Longrightarrow> keeps_module V vm vm'"
  using assms unfolding engine_ok_def engine_calls_ok_def no_value_def by (auto, (blast+)?)

lemma abi_start_ok:
  assumes "engine_ok V"
  shows "act_ok (guest_faults b) (running V n) (abi_start_controller b V E) (\<lambda>_. running V n) (shared_ok n)"
  unfolding abi_start_controller_def by (rule enter_guest_ok) (rule engine_calls(1) [OF assms])

lemma abi_wakeup_ok:
  assumes "engine_ok V"
  shows "act_ok (guest_faults b) (running V n) (abi_wakeup b V E i v finished) (\<lambda>_. running V n) (shared_ok n)"
proof -
  have a: "act_ok (guest_faults b) (running V n) (abi_allocate b V E m) (\<lambda>_. running V n) (shared_ok n)" for m
    unfolding abi_allocate_def by (rule enter_guest_ok) (rule engine_calls(2) [OF assms])
  have w: "act_ok (guest_faults b) (running V n) (memory_write V ptr bytes) (\<lambda>_. running V n) (shared_ok n)" for ptr bytes
    by (rule act_ok_conseq [OF memory_write_ok [OF assms]]) (auto simp: guest_faults_def)
  have c: "act_ok (guest_faults b) (running V n)
      (enter_guest b E (\<lambda>k vm. no_value (vm_wakeup V i f ptr len k vm))) (\<lambda>_. running V n) (shared_ok n)" for f ptr len
    by (rule enter_guest_ok) (rule engine_calls(3) [OF assms])
  have p: "act_ok (guest_faults b) (running V n)
      (act_bind (abi_allocate b V E m) (\<lambda>ptr. act_bind (memory_write V ptr event) (\<lambda>_. act_return (g ptr))))
      (\<lambda>_. running V n) (shared_ok n)" for m event and g :: "u32 \<Rightarrow> u32 \<times> u32"
    by (intro act_ok_bind [OF a] act_ok_bind [OF w] act_ok_return)
  show ?thesis
    unfolding abi_wakeup_def case_prod_unfold
    by (rule act_ok_bind [where Q = "\<lambda>_. running V n"], cases v)
      (simp_all add: p [where g = "\<lambda>ptr. (ptr, _)"] act_ok_return c)
qed

section \<open>Work\<close>

lemma running_cong:
  assumes "running V n st" "ms_inner st' = ms_inner st" "ms_wasm_path st' = ms_wasm_path st"
    "ms_uninstantiating st' = ms_uninstantiating st" "ms_wasm_work st' \<noteq> None"
    "ms_runner st' = ms_runner st" "ms_last_events st' = ms_last_events st" "ms_permits st' = ms_permits st"
    "ms_swap_path st' = ms_swap_path st" "ms_files st' = ms_files st"
  shows "running V n st'"
  using assms by (auto simp: running_def present_def from_module_def inv_defs)

text \<open>The outcome of a work: it waits, with the invariant, or it is over, and then the invariant holds once it is dropped.\<close>

definition polled :: "('vm, 'val) vm_ops \<Rightarrow> ledger \<Rightarrow> unit poll \<Rightarrow> ('vm, 'val) module_state \<Rightarrow> bool" where
  "polled V n p st \<longleftrightarrow> ms_wasm_work st \<noteq> None \<and> shared_ok n st \<and>
     (if p = Pending then module_inv V n st else module_inv V n (st\<lparr>ms_wasm_work := None\<rparr>))"

lemma polled_ready [intro]: "running V n st \<Longrightarrow> polled V n (Ready ()) st"
  using running_done [of V n st] running_permits [of V n st] by (simp add: polled_def running_def)

lemma act_ok_present:
  assumes "act_ok F (running V n) m Q R"
  shows "act_ok F (running V n) (act_bind act_get (\<lambda>st. case ms_inner st of GotInst _ _ \<Rightarrow> m | _ \<Rightarrow> m')) Q R"
proof (rule act_ok_get)
  fix st assume r: "running V n st"
  then obtain cx vm where i: "ms_inner st = GotInst cx vm" by (auto simp: running_def present_def)
  show "act_ok F (\<lambda>s. s = st) (case ms_inner st of GotInst _ _ \<Rightarrow> m | _ \<Rightarrow> m') Q R"
    unfolding i maybe_inst.case by (rule act_ok_conseq [OF assms]) (use r in auto)
qed

lemma run_started_ok:
  assumes "engine_ok V"
  shows "act_ok (module_faults b) (running V n) (run_started b V E) (polled V n) (shared_ok n)"
proof -
  have "act_ok (module_faults b) (running V n)
      (act_bind (abi_start_controller b V E) (\<lambda>_. act_return (Ready ()))) (polled V n) (shared_ok n)"
    by (rule act_ok_conseq [OF act_ok_bind [OF abi_start_ok [OF assms] act_ok_return]])
      (auto simp: module_faults_def)
  then show ?thesis unfolding run_started_def by (rule act_ok_present)
qed

lemma run_woken_ok:
  assumes "engine_ok V"
  shows "act_ok (module_faults b) (running V n) (run_woken b V E i v finished) (polled V n) (shared_ok n)"
proof -
  have "act_ok (module_faults b) (running V n)
      (act_bind (abi_wakeup b V E i v finished) (\<lambda>_. act_return (Ready ()))) (polled V n) (shared_ok n)"
    by (rule act_ok_conseq [OF act_ok_bind [OF abi_wakeup_ok [OF assms] act_ok_return]])
      (auto simp: module_faults_def)
  then show ?thesis unfolding run_woken_def by (rule act_ok_present)
qed

lemma run_loaded_ok: "act_ok F (running V n) run_loaded (polled V n) (shared_ok n)"
  unfolding run_loaded_def by (intro act_ok_present act_ok_return polled_ready)

lemma after_restore_ok:
  assumes "engine_ok V"
  shows "act_ok (module_faults b) (running V n) (after_restore b V E w) (polled V n) (shared_ok n)"
  using run_woken_ok [OF assms] run_loaded_ok by (auto simp: after_restore_def split: work.split)

section \<open>Permits\<close>

text \<open>While a work holds no instance and is about to wait for a permit, and once it has one.\<close>

definition vacant :: "('vm, 'val) module_state \<Rightarrow> bool" where
  "vacant st \<longleftrightarrow> ms_inner st = Locked \<and> \<not> ms_uninstantiating st \<and> ms_wasm_work st \<noteq> None \<and>
     runner_inv (ms_runner st) \<and> history_ok st"

lemma vacant_run:
  assumes "vacant st" "ledger (add_permit st) = n" "from_module V st vm"
  shows "running V n (st\<lparr>ms_inner := GotInst cx vm\<rparr>)"
  using assms by (auto simp: vacant_def running_def present_def from_module_def inv_defs)

lemma vacant_add: "vacant st \<Longrightarrow> ledger (add_permit st) = n \<Longrightarrow> shared_ok n (add_permit st)"
  by (simp add: vacant_def inv_defs add_permit_def)

lemma acquire_ok:
  assumes "act_ok F (\<lambda>st. vacant st \<and> ledger (add_permit st) = n \<and> K st) m (polled V n) (shared_ok n)"
    "\<And>st. K st \<Longrightarrow> vacant st \<Longrightarrow> phase_ok V (st\<lparr>ms_wasm_work := Some w\<rparr>)"
    "\<And>st k. K st \<Longrightarrow> K (st\<lparr>ms_permits := k\<rparr>)"
  shows "act_ok F (\<lambda>st. vacant st \<and> ledger st = n \<and> K st) (acquire w m) (polled V n) (shared_ok n)"
  unfolding act_ok_def
proof (intro allI impI)
  fix st assume p: "vacant st \<and> ledger st = n \<and> K st"
  show "case acquire w m st of (Ok x, st') \<Rightarrow> polled V n x st' | (Err e, st') \<Rightarrow> shared_ok n st'
    | (Panic p, st') \<Rightarrow> p \<in> F \<and> shared_ok n st'"
  proof (cases "ms_permits st = 0")
    case True
    then show ?thesis using p assms(2) [of st] by (auto simp: acquire_def polled_def inv_defs vacant_def)
  next
    case False
    let ?st = "st\<lparr>ms_permits := ms_permits st - 1\<rparr>"
    have "vacant ?st \<and> ledger (add_permit ?st) = n \<and> K ?st"
      using p False assms(3) by (auto simp: vacant_def inv_defs)
    then have "case m ?st of (Ok x, st') \<Rightarrow> polled V n x st' | (Err e, st') \<Rightarrow> shared_ok n st'
      | (Panic p, st') \<Rightarrow> p \<in> F \<and> shared_ok n st'"
      by (rule assms(1) [unfolded act_ok_def, rule_format])
    then show ?thesis using False by (simp add: acquire_def)
  qed
qed

lemma load_instance_ok:
  "act_ok F (\<lambda>st. vacant st \<and> ledger (add_permit st) = n \<and> True) (act_guard add_permit (load_instance V))
    (\<lambda>vm st. vacant st \<and> ledger (add_permit st) = n \<and> from_module V st vm) (shared_ok n)"
proof (rule act_ok_guard)
  show "act_ok F (\<lambda>st. vacant st \<and> ledger (add_permit st) = n \<and> True) (load_instance V)
    (\<lambda>vm st. vacant st \<and> ledger (add_permit st) = n \<and> from_module V st vm) (\<lambda>st. vacant st \<and> ledger (add_permit st) = n)"
    unfolding load_instance_def by (auto simp: act_ok_def act_run or_err_def from_module_def split: option.split)
qed (auto intro: vacant_add)

lemma restore_instance_ok:
  assumes "engine_ok V"
  shows "act_ok F (\<lambda>st. vacant st \<and> ledger (add_permit st) = n \<and> swapped V st sn) (act_guard add_permit (restore_instance V sn))
    (\<lambda>vm st. vacant st \<and> ledger (add_permit st) = n \<and> from_module V st vm) (shared_ok n)"
proof (rule act_ok_guard)
  show "act_ok F (\<lambda>st. vacant st \<and> ledger (add_permit st) = n \<and> swapped V st sn) (restore_instance V sn)
    (\<lambda>vm st. vacant st \<and> ledger (add_permit st) = n \<and> from_module V st vm) (\<lambda>st. vacant st \<and> ledger (add_permit st) = n)"
    unfolding act_ok_def restore_instance_eq
  proof (intro allI impI)
    fix st assume "vacant st \<and> ledger (add_permit st) = n \<and> swapped V st sn"
    then show "case (restore_result V sn (vm_load V (ms_wasm_path st)) (ms_files st (ms_swap_path st)), st) of
        (Ok vm, st') \<Rightarrow> vacant st' \<and> ledger (add_permit st') = n \<and> from_module V st' vm
      | (Err e, st') \<Rightarrow> vacant st' \<and> ledger (add_permit st') = n
      | (Panic p, st') \<Rightarrow> p \<in> F \<and> vacant st' \<and> ledger (add_permit st') = n"
      using restore_result_ok [OF assms, of st sn] by (auto split: outcome.splits)
  qed
qed (auto intro: vacant_add)

lemma set_inner_ok:
  "act_ok F (\<lambda>st. vacant st \<and> ledger (add_permit st) = n \<and> from_module V st vm) (set_inner (GotInst cx vm))
    (\<lambda>_. running V n) (shared_ok n)"
  unfolding set_inner_def by (rule act_ok_update) (auto intro: vacant_run)

lemma start_acquired_ok:
  assumes "engine_ok V"
  shows "act_ok (module_faults b) (\<lambda>st. vacant st \<and> ledger (add_permit st) = n \<and> True) (start_acquired b V E cx)
    (polled V n) (shared_ok n)"
  unfolding start_acquired_def
  by (intro act_ok_bind [OF load_instance_ok] act_ok_bind [OF set_inner_ok] run_started_ok [OF assms])

lemma restore_acquired_ok:
  assumes "engine_ok V"
  shows "act_ok F (\<lambda>st. vacant st \<and> ledger (add_permit st) = n \<and> swapped V st sn) (restore_acquired V cx sn)
    (\<lambda>_. running V n) (shared_ok n)"
  unfolding restore_acquired_def by (intro act_ok_bind [OF restore_instance_ok [OF assms]] set_inner_ok)

text \<open>Waiting for the permit, at first and again.\<close>

lemma start_waits_ok:
  assumes "engine_ok V"
  shows "act_ok (module_faults b) (\<lambda>st. vacant st \<and> ledger st = n \<and> True)
    (acquire (Start_Waits cx) (start_acquired b V E cx)) (polled V n) (shared_ok n)"
  by (rule acquire_ok [OF start_acquired_ok [OF assms]]) (auto simp: phase_ok_def vacant_def)

lemma restore_waits_ok:
  assumes "engine_ok V" "restores w" "act_ok (module_faults b) (running V n) m (polled V n) (shared_ok n)"
  shows "act_ok (module_faults b) (\<lambda>st. vacant st \<and> ledger st = n \<and> swapped V st sn)
    (acquire (Restore_Waits w cx sn) (act_bind (restore_acquired V cx sn) (\<lambda>_. m))) (polled V n) (shared_ok n)"
proof (rule acquire_ok)
  show "act_ok (module_faults b) (\<lambda>st. vacant st \<and> ledger (add_permit st) = n \<and> swapped V st sn)
      (act_bind (restore_acquired V cx sn) (\<lambda>_. m)) (polled V n) (shared_ok n)"
    by (rule act_ok_bind [OF restore_acquired_ok [OF assms(1)] assms(3)])
qed (use assms(2) in \<open>auto simp: phase_ok_def vacant_def swapped_def\<close>)

section \<open>The runtime\<close>

definition fresh_restore :: "('vm, 'val) vm_ops \<Rightarrow> ledger \<Rightarrow> ('vm, 'val) module_state \<Rightarrow> bool" where
  "fresh_restore V n st \<longleftrightarrow> module_inv V n st \<and> (\<exists>w. ms_wasm_work st = Some (Fresh w) \<and> restores w)"

lemma fresh_restoreD:
  assumes "fresh_restore V n st"
  shows "running V n st \<or> (\<exists>cx sn. ms_inner st = UnsInst cx sn \<and> vacant (st\<lparr>ms_inner := Locked\<rparr>) \<and>
    ledger st = n \<and> swapped V st sn)"
  using assms by (auto simp: fresh_restore_def module_inv_def phase_ok_def running_def absent_def present_def vacant_def
      ledger_def instances_def history_ok_def split: work.splits)

lemma restore_ok:
  assumes "engine_ok V" "restores w"
    "act_ok (module_faults b) (running V n) m (polled V n) (shared_ok n)"
  shows "act_ok (module_faults b) (fresh_restore V n)
    (act_bind act_get (\<lambda>st.
       let (taken, rest) = take_uns (ms_inner st) in
       act_bind (set_inner rest) (\<lambda>_.
       case taken of
         UnsInst cx sn \<Rightarrow> acquire (Restore_Waits w cx sn) (act_bind (restore_acquired V cx sn) (\<lambda>_. m))
       | _ \<Rightarrow> m))) (polled V n) (shared_ok n)"
proof (rule act_ok_get)
  fix st assume f: "fresh_restore V n st"
  let ?a = "\<lambda>taken. case taken of
      UnsInst cx sn \<Rightarrow> acquire (Restore_Waits w cx sn) (act_bind (restore_acquired V cx sn) (\<lambda>_. m)) | _ \<Rightarrow> m"
  show "act_ok (module_faults b) (\<lambda>s. s = st) (let (taken, rest) = take_uns (ms_inner st) in
      act_bind (set_inner rest) (\<lambda>_. ?a taken)) (polled V n) (shared_ok n)"
    using fresh_restoreD [OF f]
  proof
    assume r: "running V n st"
    then obtain cx vm where i: "ms_inner st = GotInst cx vm" by (auto simp: running_def present_def)
    have "running V n (st\<lparr>ms_inner := GotInst cx vm\<rparr>)"
      by (rule running_cong [OF r]) (use r i in \<open>auto simp: running_def\<close>)
    then show ?thesis
      using assms(3) i by (simp add: take_uns_def set_inner_def act_ok_def)
  next
    assume "\<exists>cx sn. ms_inner st = UnsInst cx sn \<and> vacant (st\<lparr>ms_inner := Locked\<rparr>) \<and> ledger st = n \<and> swapped V st sn"
    then obtain cx sn where i: "ms_inner st = UnsInst cx sn" and v: "vacant (st\<lparr>ms_inner := Locked\<rparr>)"
      "ledger (st\<lparr>ms_inner := Locked\<rparr>) = n" "swapped V (st\<lparr>ms_inner := Locked\<rparr>) sn"
      by (auto simp: swapped_def ledger_def instances_def)
    then show ?thesis
      using restore_waits_ok [OF assms, where cx = cx and sn = sn]
      by (simp add: take_uns_def inst_take_def inst_set_def set_inner_def act_ok_def)
  qed
qed

lemma run_start_ok:
  assumes "engine_ok V"
  shows "act_ok (module_faults b) (\<lambda>st. module_inv V n st \<and> ms_wasm_work st = Some (Fresh Start))
    (run_start b V E) (polled V n) (shared_ok n)"
  unfolding run_start_def
proof (rule act_ok_get)
  fix st assume p: "module_inv V n st \<and> ms_wasm_work st = Some (Fresh Start)"
  then obtain cx where i: "ms_inner st = NotInst cx" "vacant (st\<lparr>ms_inner := Locked\<rparr>)"
    "ledger (st\<lparr>ms_inner := Locked\<rparr>) = n"
    by (auto simp: inv_defs phase_ok_def vacant_def)
  then show "act_ok (module_faults b) (\<lambda>s. s = st) (let (taken, rest) = take_not (ms_inner st) in
      act_bind (set_inner rest) (\<lambda>_.
      case taken of NotInst cx \<Rightarrow> acquire (Start_Waits cx) (start_acquired b V E cx) | _ \<Rightarrow> run_started b V E))
      (polled V n) (shared_ok n)"
    using start_waits_ok [OF assms, of b n cx E]
    by (simp add: take_not_def inst_take_def inst_set_def set_inner_def act_ok_def)
qed

lemma snapshot_swapped:
  assumes "from_module V st vm" "vm_exports_memory V vm" "ms_files st' (ms_swap_path st') = Some (vm_memory V vm)"
    "ms_wasm_path st' = ms_wasm_path st"
  shows "swapped V st' (take_snapshot V vm)"
proof -
  have "vm_exports_memory V vm0 \<and> fst ` set (sn_globals (take_snapshot V vm)) \<subseteq> fst ` set (vm_globals V vm0)"
    if "vm_load V (ms_wasm_path st') = Some vm0" for vm0
  proof -
    have e: "exports V vm = exports V vm0" using assms(1,4) that by (simp add: from_module_def)
    show ?thesis using exports_memory [OF e] exports_names [OF e] assms(2) mutables_names(1) [of "vm_globals V vm"]
      by (simp add: take_snapshot_def mutable_globals_eq)
  qed
  then show ?thesis using assms(3) by (simp add: swapped_def take_snapshot_def)
qed

lemma run_uninstantiate_ok:
  "act_ok (module_faults b) (\<lambda>st. module_inv V n st \<and> ms_wasm_work st = Some (Fresh Uninstantiate))
    (run_uninstantiate V E) (polled V n) (shared_ok n)"
  unfolding run_uninstantiate_def
proof (rule act_ok_get)
  fix st assume p: "module_inv V n st \<and> ms_wasm_work st = Some (Fresh Uninstantiate)"
  then obtain cx vm where i: "ms_inner st = GotInst cx vm" "from_module V st vm" "ms_uninstantiating st"
    by (auto simp: module_inv_def phase_ok_def present_def)
  show "act_ok (module_faults b) (\<lambda>s. s = st) (let (taken, rest) = take_got (ms_inner st) in
      act_bind (set_inner rest) (\<lambda>_.
      act_bind (case taken of
          GotInst cx vm \<Rightarrow> act_guard add_permit (
            act_bind (act_lift (get_memory V vm)) (\<lambda>mem.
            act_bind (file_write E (ms_swap_path st) mem) (\<lambda>_.
            act_bind (set_inner (UnsInst cx (take_snapshot V vm))) (\<lambda>_.
            act_update add_permit))))
        | _ \<Rightarrow> act_return ()) (\<lambda>_.
      act_return (Ready ())))) (polled V n) (shared_ok n)"
    using p i
    by (cases "vm_exports_memory V vm"; cases "he_write_ok E (ms_tick st)")
      (auto simp: get_memory_def module_faults_def guest_faults_def act_ok_def take_got_def inst_take_def inst_set_def set_inner_def act_bind_def act_guard_def act_run
        file_write_def next_tick_def polled_def inv_defs add_permit_def phase_ok_def absent_def
        intro!: snapshot_swapped)
qed

lemma waiting_vacant:
  "module_inv V n st \<Longrightarrow> ms_wasm_work st = Some (Start_Waits cx) \<Longrightarrow> vacant st \<and> ledger st = n"
  "module_inv V n st \<Longrightarrow> ms_wasm_work st = Some (Restore_Waits w cx sn) \<Longrightarrow>
     vacant st \<and> ledger st = n \<and> swapped V st sn \<and> restores w"
  by (auto simp: inv_defs phase_ok_def vacant_def)

lemma poll_work_ok:
  assumes "engine_ok V"
  shows "act_ok (module_faults b) (\<lambda>st. module_inv V n st \<and> ms_wasm_work st = Some w) (poll_work b V E w)
    (polled V n) (shared_ok n)"
proof (cases w)
  case (Fresh v)
  have f: "module_inv V n st \<and> ms_wasm_work st = Some (Fresh v) \<Longrightarrow> restores v \<Longrightarrow> fresh_restore V n st" for st v
    by (auto simp: fresh_restore_def)
  show ?thesis
  proof (cases v)
    case Uninstantiate
    then show ?thesis using Fresh run_uninstantiate_ok by (simp add: poll_work_def)
  next
    case Start
    then show ?thesis using Fresh run_start_ok [OF assms] by (simp add: poll_work_def)
  next
    case (Wakeup i x finished)
    have "act_ok (module_faults b) (fresh_restore V n) (run_wakeup b V E i x finished) (polled V n) (shared_ok n)"
      unfolding run_wakeup_def by (rule restore_ok [OF assms _ run_woken_ok [OF assms]]) simp
    from act_ok_conseq [OF this] show ?thesis using Fresh Wakeup f by (simp add: poll_work_def)
  next
    case Load_To_Mem
    have "act_ok (module_faults b) (fresh_restore V n) (run_load_to_mem V) (polled V n) (shared_ok n)"
      unfolding run_load_to_mem_def by (rule restore_ok [OF assms _ run_loaded_ok]) simp
    from act_ok_conseq [OF this] show ?thesis using Fresh Load_To_Mem f by (simp add: poll_work_def)
  qed
next
  case (Start_Waits cx)
  then show ?thesis
    using act_ok_conseq [OF start_waits_ok [OF assms, of b n cx E], of "\<lambda>st. module_inv V n st \<and> ms_wasm_work st = Some w"]
      waiting_vacant(1) [of V n _ cx]
    by (simp add: poll_work_def)
next
  case (Restore_Waits v cx sn)
  show ?thesis
  proof (cases "restores v")
    case True
    from restore_waits_ok [OF assms this after_restore_ok [OF assms]] show ?thesis
      unfolding Restore_Waits poll_work_def wasm_work.case
      by (rule act_ok_conseq) (auto dest: waiting_vacant(2))
  next
    case False
    then show ?thesis using Restore_Waits waiting_vacant(2) [of V n _ v cx sn] by (auto simp: act_ok_def)
  qed
qed

definition idle :: "('vm, 'val) vm_ops \<Rightarrow> ledger \<Rightarrow> ('vm, 'val) module_state \<Rightarrow> bool" where
  "idle V n st \<longleftrightarrow> module_inv V n st \<and> ms_wasm_work st = None"

lemma poll_unpin_ok:
  assumes "engine_ok V"
  shows "act_ok (module_faults b) (module_inv V n) (poll_unpin b V E)
    (\<lambda>p st. module_inv V n st \<and> (p = Ready () \<longrightarrow> idle V n st)) (shared_ok n)"
  unfolding poll_unpin_def
proof (rule act_ok_get)
  fix st assume m: "module_inv V n st"
  let ?Q = "\<lambda>p st. module_inv V n st \<and> (p = Ready () \<longrightarrow> idle V n st)"
  let ?f = "\<lambda>res. case res of Pending \<Rightarrow> act_return Pending
    | Ready _ \<Rightarrow> act_bind (act_update (\<lambda>st. st\<lparr>ms_wasm_work := None\<rparr>)) (\<lambda>_. act_return (Ready ()))"
  show "act_ok (module_faults b) (\<lambda>s. s = st) (case ms_wasm_work st of None \<Rightarrow> act_return (Ready ())
      | Some w \<Rightarrow> act_bind (poll_work b V E w) ?f) ?Q (shared_ok n)"
  proof (cases "ms_wasm_work st")
    case None
    then show ?thesis using m by (simp add: act_ok_def act_run idle_def)
  next
    case (Some w)
    have "act_ok (module_faults b) (polled V n res) (?f res) ?Q (shared_ok n)" for res
      by (cases res) (auto simp: act_ok_def act_run act_bind_def polled_def idle_def)
    from act_ok_bind [OF poll_work_ok [OF assms, of b n w E] this] show ?thesis
      unfolding Some option.case by (rule act_ok_conseq) (use m Some in auto)
  qed
qed

section \<open>The event loop\<close>

text \<open>The parts of the state the invariant does not mention.\<close>

lemma module_inv_cong:
  assumes "ms_inner st' = ms_inner st" "ms_wasm_work st' = ms_wasm_work st" "ms_uninstantiating st' = ms_uninstantiating st"
    "ms_wasm_path st' = ms_wasm_path st" "ms_swap_path st' = ms_swap_path st" "ms_runner st' = ms_runner st"
    "ms_last_events st' = ms_last_events st" "ms_permits st' = ms_permits st" "ms_files st' = ms_files st"
  shows "module_inv V n st' = module_inv V n st"
proof -
  have f: "from_module V st' = from_module V st" "swapped V st' = swapped V st"
    using assms by (auto simp: from_module_def swapped_def fun_eq_iff)
  have g: "present V st' = present V st" "absent V st' = absent V st"
    using assms f by (simp_all add: present_def absent_def)
  show ?thesis unfolding inv_defs phase_ok_def f g assms by (rule refl)
qed

lemma module_inv_frame [simp]:
  "module_inv V n (st\<lparr>ms_wakes := x\<rparr>) = module_inv V n st"
  "module_inv V n (st\<lparr>ms_tick := x\<rparr>) = module_inv V n st"
  "module_inv V n (st\<lparr>ms_sleep_vec := y\<rparr>) = module_inv V n st"
  "module_inv V n (st\<lparr>ms_predicted := z\<rparr>) = module_inv V n st"
  "module_inv V n (st\<lparr>ms_last_event_time := z\<rparr>) = module_inv V n st"
  "module_inv V n (st\<lparr>ms_first_event_after_shutdown := u\<rparr>) = module_inv V n st"
  by (rule module_inv_cong; simp)+

lemma idle_frame [simp]:
  "idle V n (st\<lparr>ms_wakes := x\<rparr>) = idle V n st"
  "idle V n (st\<lparr>ms_tick := x\<rparr>) = idle V n st"
  "idle V n (st\<lparr>ms_sleep_vec := y\<rparr>) = idle V n st"
  "idle V n (st\<lparr>ms_predicted := z\<rparr>) = idle V n st"
  "idle V n (st\<lparr>ms_last_event_time := z\<rparr>) = idle V n st"
  "idle V n (st\<lparr>ms_first_event_after_shutdown := u\<rparr>) = idle V n st"
  by (simp_all add: idle_def)

lemma module_inv_shared: "module_inv V n st \<Longrightarrow> shared_ok n st"
  by (simp add: module_inv_def shared_ok_def)

lemma collect_loop_inv:
  assumes "runner_inv R" "collect_loop E tick R = (r, tick', R')"
  shows "case r of Ok _ \<Rightarrow> runner_inv R' | Err _ \<Rightarrow> True | Panic _ \<Rightarrow> False"
  using collect_loop_correct [OF assms, of 0] by (auto split: outcome.splits)

text \<open>What the clock, a wake-up and a new timer leave alone.\<close>

definition framed :: "(('vm, 'val) module_state \<Rightarrow> bool) \<Rightarrow> bool" where
  "framed P \<longleftrightarrow> (\<forall>st x y. P st \<longrightarrow> P (st\<lparr>ms_tick := Suc (ms_tick st)\<rparr>) \<and> P (st\<lparr>ms_wakes := x\<rparr>) \<and> P (st\<lparr>ms_sleep_vec := y\<rparr>))"

lemma framed_inv [simp]: "framed (module_inv V n)" "framed (idle V n)"
  by (simp_all add: framed_def)

lemma framed_ok [act_rules]:
  assumes "framed P"
  shows "act_ok F P next_tick (\<lambda>_. P) R" "act_ok F P (utc_now E) (\<lambda>_. P) R" "act_ok F P wake_by_ref (\<lambda>_. P) R"
    "act_ok F P (push_sleep m) (\<lambda>_. P) R"
  using assms
  by (auto simp: framed_def act_ok_def next_tick_def utc_now_def wake_by_ref_def push_sleep_def act_bind_def act_run)

lemma add_event_time_ok: "act_ok F (idle V n) (add_event_time t) (\<lambda>_. idle V n) R"
  unfolding add_event_time_def Let_def
  by (rule act_ok_update)
    (auto simp: idle_def inv_defs phase_ok_def present_def absent_def from_module_def swapped_def BUFFER_LENGTH_def)

lemma collect_result_ok: "act_ok {} (idle V n) (collect_result E) (\<lambda>_. idle V n) (shared_ok n)"
  unfolding act_ok_def
proof (intro allI impI)
  fix st assume i: "idle V n st"
  let ?R = "(ms_runner st)\<lparr>rn_have_unpolled_ops := False\<rparr>"
  obtain r tick R' where c: "collect_loop E (ms_tick st) ?R = (r, tick, R')" by (cases "collect_loop E (ms_tick st) ?R") auto
  have "runner_inv ?R" using i by (simp add: idle_def module_inv_def)
  note collect_loop_inv [OF this c]
  then show "case collect_result E st of (Ok x, st') \<Rightarrow> idle V n st' | (Err e, st') \<Rightarrow> shared_ok n st'
    | (Panic p, st') \<Rightarrow> p \<in> {} \<and> shared_ok n st'"
    using c i by (auto simp: collect_result_def idle_def inv_defs phase_ok_def present_def absent_def from_module_def
        swapped_def split: outcome.splits)
qed

lemma set_wasm_work_ok:
  "act_ok {} (\<lambda>st. ms_wasm_work st = None \<and> P st) assert_idle (\<lambda>_ st. ms_wasm_work st = None \<and> P st) R"
  "act_ok {} (\<lambda>st. ms_wasm_work st = None \<and> P st) (set_wasm_work w) (\<lambda>_ st. ms_wasm_work st = Some (Fresh w) \<and>
     (\<exists>st'. P st' \<and> ms_wasm_work st' = None \<and> st = st'\<lparr>ms_wasm_work := Some (Fresh w)\<rparr>)) R"
  by (auto simp: act_ok_def set_wasm_work_def assert_idle_def act_bind_def act_run)

lemma wasm_work_set:
  assumes "ms_wasm_work st = None"
  shows "wasm_wakeup i v f st = (Ok (), st\<lparr>ms_wasm_work := Some (Fresh (Wakeup i v f)), ms_uninstantiating := False\<rparr>)"
    "wasm_load_to_mem st = (Ok (), st\<lparr>ms_wasm_work := Some (Fresh Load_To_Mem), ms_uninstantiating := False\<rparr>)"
    "wasm_start_controller st = (Ok (), st\<lparr>ms_wasm_work := Some (Fresh Start), ms_uninstantiating := False\<rparr>)"
    "wasm_uninstantiate st = (Ok (), st\<lparr>ms_wasm_work := Some (Fresh Uninstantiate), ms_uninstantiating := True\<rparr>)"
  using assms
  by (simp_all add: wasm_wakeup_def wasm_load_to_mem_def wasm_start_controller_def wasm_uninstantiate_def
      set_wasm_work_def assert_idle_def set_uninstantiating_def act_bind_def act_run)

lemma idle_work:
  assumes "idle V n st" "restores w"
  shows "module_inv V n (st\<lparr>ms_wasm_work := Some (Fresh w), ms_uninstantiating := False\<rparr>)"
  using assms by (cases w) (auto simp: idle_def inv_defs phase_ok_def present_def absent_def from_module_def swapped_def
      split: if_splits)

lemma idle_uninstantiate:
  assumes "idle V n st" "\<not> ms_uninstantiating st"
  shows "module_inv V n (st\<lparr>ms_wasm_work := Some (Fresh Uninstantiate), ms_uninstantiating := True\<rparr>)"
  using assms by (auto simp: idle_def inv_defs phase_ok_def present_def from_module_def)

lemma resolve_async_ops_ok:
  "act_ok {} (idle V n) (resolve_async_ops E) (\<lambda>again st. module_inv V n st \<and> (\<not> again \<longrightarrow> idle V n st)) (shared_ok n)"
proof -
  let ?Q = "\<lambda>again st. module_inv V n st \<and> (\<not> again \<longrightarrow> idle V n st)"
  have 1: "act_ok {} (idle V n) (note_event E) (\<lambda>_. idle V n) (shared_ok n)"
    unfolding note_event_def
    by (intro act_ok_get act_ok_if act_ok_conseq [OF act_ok_bind [OF act_ok_update act_ok_bind [OF framed_ok(2)
        add_event_time_ok]], of "idle V n"] act_ok_return) auto
  have 2: "act_ok {} (idle V n) (reset_failed_prediction E) (\<lambda>_. idle V n) (shared_ok n)"
    unfolding reset_failed_prediction_def
    by (intro act_ok_get act_ok_if act_ok_conseq [OF act_ok_bind [OF framed_ok(2) act_ok_update], of "idle V n"]
        act_ok_return) auto
  have 3: "act_ok {} (idle V n) (note_finished E r) (\<lambda>_. idle V n) (shared_ok n)" for r
    unfolding note_finished_def
    by (intro act_ok_if act_ok_bind [OF framed_ok(2)] act_ok_bind [OF act_ok_update [where Q = "\<lambda>_. idle V n"]]
        framed_ok(4) act_ok_return) auto
  have 4: "act_ok {} (idle V n) (wasm_wakeup i v f) (\<lambda>_. module_inv V n) (shared_ok n)" for i v f
    unfolding act_ok_def
  proof (intro allI impI)
    fix st assume "idle V n st"
    then show "case wasm_wakeup i v f st of (Ok x, st') \<Rightarrow> module_inv V n st' | (Err e, st') \<Rightarrow> shared_ok n st'
      | (Panic p, st') \<Rightarrow> p \<in> {} \<and> shared_ok n st'"
      using wasm_work_set(1) [of st i v f] idle_work [of V n st "Wakeup i v f"] by (simp add: idle_def)
  qed
  show ?thesis unfolding resolve_async_ops_def
    by (rule act_ok_bind [OF collect_result_ok])
      (auto split: option.split intro!: act_ok_bind [OF 1] act_ok_bind [OF 2] act_ok_bind [OF 3] act_ok_bind [OF 4]
        act_ok_return simp: idle_def)
qed

lemma resolve_loop_ok:
  assumes "engine_ok V" "module_inv V n st" "resolve_loop b V E m st = Some (r, st')"
  shows "case r of Ok _ \<Rightarrow> module_inv V n st' | Err _ \<Rightarrow> shared_ok n st' | Panic p \<Rightarrow> p \<in> module_faults b \<and> shared_ok n st'"
  using assms(2,3)
proof (induction m arbitrary: st)
  case (Suc m)
  let ?turn = "act_bind (poll_unpin b V E) (\<lambda>p. if p = Ready () then resolve_async_ops E else act_return False)"
  have t: "act_ok (module_faults b) (module_inv V n) ?turn (\<lambda>_. module_inv V n) (shared_ok n)"
  proof (rule act_ok_bind [OF poll_unpin_ok [OF assms(1)]])
    fix p :: "unit poll"
    show "act_ok (module_faults b) (\<lambda>st. module_inv V n st \<and> (p = Ready () \<longrightarrow> idle V n st))
        (if p = Ready () then resolve_async_ops E else act_return False) (\<lambda>_. module_inv V n) (shared_ok n)"
      by (rule act_ok_if; rule act_ok_conseq [OF resolve_async_ops_ok] act_ok_return) auto
  qed
  obtain q st1 where q: "?turn st = (q, st1)" by (cases "?turn st")
  show ?case
  proof (cases q)
    case (Ok again)
    then have "module_inv V n st1" using act_ok_Ok [OF t Suc.prems(1)] q by simp
    then show ?thesis using Suc.IH Suc.prems(2) q Ok by (auto split: if_splits)
  next
    case (Err e)
    then show ?thesis using act_ok_Err [OF t Suc.prems(1)] q Suc.prems(2) by auto
  next
    case (Panic p)
    then show ?thesis using act_ok_Panic [OF t Suc.prems(1)] q Suc.prems(2) by auto
  qed
qed simp

text \<open>Between loading and shutting down: a work is pending only if the prediction is near.\<close>

definition near :: "('vm, 'val) vm_ops \<Rightarrow> ledger \<Rightarrow> int \<Rightarrow> ('vm, 'val) module_state \<Rightarrow> bool" where
  "near V n t st \<longleftrightarrow> module_inv V n st \<and>
     (ms_wasm_work st \<noteq> None \<longrightarrow> in_time_before_prediction_period t (ms_predicted st))"

lemma framed_near [simp]: "framed (near V n t)"
  by (simp add: framed_def near_def)

lemma maybe_load_ok: "act_ok {} (idle V n) (maybe_load t) (\<lambda>_. near V n t) (shared_ok n)"
  unfolding maybe_load_def
proof (rule act_ok_get)
  fix st assume i: "idle V n st"
  let ?c = "is_uninstantiating st \<and> in_time_before_prediction_period t (ms_predicted st)"
  have l: "act_ok {} (\<lambda>s. s = st) wasm_load_to_mem (\<lambda>_. near V n t) (shared_ok n)" if ?c
    using that i idle_work [OF i, of Load_To_Mem] wasm_work_set(2) [of st] by (simp add: act_ok_def idle_def near_def)
  show "act_ok {} (\<lambda>s. s = st) (if ?c then act_bind wasm_load_to_mem (\<lambda>_. act_bind wake_by_ref (\<lambda>_.
      push_sleep (nat (GRACE_PERIOD_MS + TIME_BEFORE_PREDICTED_MS)))) else act_return ()) (\<lambda>_. near V n t) (shared_ok n)"
    by (rule act_ok_if, rule act_ok_bind [OF l act_ok_bind [OF framed_ok(3) framed_ok(4)]], simp_all)
      (use i in \<open>auto intro!: act_ok_return simp: near_def idle_def\<close>)
qed

lemma predict_keeps:
  assumes "framed P" "\<And>st x. P st \<Longrightarrow> P (st\<lparr>ms_predicted := x\<rparr>)" "\<And>st. P st \<Longrightarrow> R st"
  shows "act_ok {Unreadable_Prediction} P (predict E) (\<lambda>_. P) R"
  unfolding predict_def Let_def
proof (rule act_ok_bind [OF framed_ok(1) [OF assms(1)]])
  fix m
  show "act_ok {Unreadable_Prediction} P (case he_predict E m of None \<Rightarrow> act_return ()
      | Some resp \<Rightarrow> act_bind (act_lift (or_panic resp Unreadable_Prediction)) (\<lambda>prediction.
          act_bind (act_update (\<lambda>st. st\<lparr>ms_predicted := prediction\<rparr>)) (\<lambda>_.
          act_bind (utc_now E) (\<lambda>now. push_sleep
            (nat \<bar>num_milliseconds (prediction - now) - TIME_BEFORE_PREDICTED_MS + 5\<bar>))))) (\<lambda>_. P) R"
  proof (cases "he_predict E m")
    case (Some resp)
    have "act_ok {Unreadable_Prediction} P (act_lift (or_panic resp Unreadable_Prediction)) (\<lambda>_. P) R"
      by (rule act_ok_lift) (auto simp: or_panic_def assms(3) split: option.splits)
    moreover have "act_ok {Unreadable_Prediction} P (act_update (\<lambda>st. st\<lparr>ms_predicted := x\<rparr>)) (\<lambda>_. P) R" for x
      by (rule act_ok_update) (rule assms(2))
    ultimately show ?thesis unfolding Some option.case
      by (rule act_ok_bind [OF _ act_ok_bind [OF _ act_ok_bind [OF framed_ok(2) framed_ok(4)]]]) (rule assms(1))+
  qed (simp add: act_ok_return)
qed

lemma predict_ok: "act_ok {Unreadable_Prediction} (module_inv V n) (predict E) (\<lambda>_. module_inv V n) (shared_ok n)"
  by (rule predict_keeps) (auto intro: module_inv_shared)

text \<open>Once the work of swapping out is set, the rest of the step leaves it.\<close>

definition swapping_out :: "('vm, 'val) module_state \<Rightarrow> bool" where
  "swapping_out st \<longleftrightarrow> ms_wasm_work st = Some (Fresh Uninstantiate) \<and> ms_uninstantiating st"

lemma maybe_shut_down_work:
  assumes "ms_wasm_work st = None" "maybe_shut_down cu E t st = (r, st')" "may_shut_down cu t st"
  shows "ms_wasm_work st' = Some (Fresh Uninstantiate) \<and> ms_uninstantiating st'"
proof -
  have f: "framed swapping_out" by (simp add: framed_def swapping_out_def)
  have p: "act_ok {Unreadable_Prediction} swapping_out (predict E) (\<lambda>_. swapping_out) swapping_out"
    by (rule predict_keeps [OF f]) (auto simp: swapping_out_def)
  have c: "act_ok {Unreadable_Prediction} swapping_out (if c then predict E else act_return ()) (\<lambda>_. swapping_out) swapping_out" for c
    by (simp add: p act_ok_return)
  have u: "act_ok {Unreadable_Prediction} swapping_out (act_update (\<lambda>st. st\<lparr>ms_first_event_after_shutdown := True\<rparr>))
      (\<lambda>_. swapping_out) swapping_out"
    by (rule act_ok_update) (simp add: swapping_out_def)
  let ?st = "st\<lparr>ms_wasm_work := Some (Fresh Uninstantiate), ms_uninstantiating := True\<rparr>"
  let ?rest = "act_bind wake_by_ref (\<lambda>_.
      act_bind (if \<not> ms_first_event_after_shutdown st then predict E else act_return ()) (\<lambda>_.
      act_update (\<lambda>st. st\<lparr>ms_first_event_after_shutdown := True\<rparr>)))"
  have "maybe_shut_down cu E t st = ?rest ?st"
    by (simp only: maybe_shut_down_def act_bind_get assms(3) if_True)
      (rule act_bind_run(1), rule wasm_work_set(4), rule assms(1))
  then have "?rest ?st = (r, st')" using assms(2) by simp
  moreover have "act_ok {Unreadable_Prediction} swapping_out ?rest (\<lambda>_. swapping_out) swapping_out"
    by (rule act_ok_bind [OF framed_ok(3) [OF f] act_ok_bind [OF c u]])
  moreover have "swapping_out ?st" by (simp add: swapping_out_def)
  ultimately have "case r of Ok _ \<Rightarrow> swapping_out st' | Err _ \<Rightarrow> swapping_out st' | Panic p \<Rightarrow> p \<in> {Unreadable_Prediction} \<and> swapping_out st'"
    using act_ok_result [of "{Unreadable_Prediction}" swapping_out ?rest "\<lambda>_. swapping_out" swapping_out ?st r st'] by blast
  then show ?thesis by (cases r) (simp_all add: swapping_out_def)
qed

lemma maybe_shut_down_ok:
  "act_ok {Unreadable_Prediction} (near V n t) (maybe_shut_down cu E t) (\<lambda>_. module_inv V n) (shared_ok n)"
  unfolding maybe_shut_down_def
proof (rule act_ok_get)
  fix st assume i: "near V n t st"
  have u: "act_ok {Unreadable_Prediction} (\<lambda>s. s = st) wasm_uninstantiate (\<lambda>_. module_inv V n) (shared_ok n)"
    if "may_shut_down cu t st"
  proof -
    have "idle V n st" "\<not> ms_uninstantiating st"
      using that i by (auto simp: may_shut_down_def near_def idle_def is_uninstantiating_def)
    then show ?thesis using idle_uninstantiate [of V n st] wasm_work_set(4) [of st] by (simp add: act_ok_def idle_def)
  qed
  have p: "act_ok {Unreadable_Prediction} (module_inv V n) (if c then predict E else act_return ()) (\<lambda>_. module_inv V n) (shared_ok n)"
    for c by (simp add: act_ok_return predict_ok)
  have f: "act_ok {Unreadable_Prediction} (module_inv V n) (act_update (\<lambda>st. st\<lparr>ms_first_event_after_shutdown := True\<rparr>))
      (\<lambda>_. module_inv V n) (shared_ok n)"
    by (rule act_ok_update) simp
  show "act_ok {Unreadable_Prediction} (\<lambda>s. s = st) (if may_shut_down cu t st then
        act_bind wasm_uninstantiate (\<lambda>_. act_bind wake_by_ref (\<lambda>_.
        act_bind (if \<not> ms_first_event_after_shutdown st then predict E else act_return ()) (\<lambda>_.
        act_update (\<lambda>st. st\<lparr>ms_first_event_after_shutdown := True\<rparr>)))) else act_return ())
      (\<lambda>_. module_inv V n) (shared_ok n)"
    by (rule act_ok_if, rule act_ok_bind [OF u act_ok_bind [OF framed_ok(3) act_ok_bind [OF p f]]], simp_all)
      (use i in \<open>auto intro!: act_ok_return simp: near_def\<close>)
qed

section \<open>One poll of a module\<close>

lemma after_resolve_ok:
  assumes "engine_ok V"
  shows "act_ok (module_faults b) (module_inv V n) (after_resolve cu b V E) (\<lambda>_. module_inv V n) (shared_ok n)"
  unfolding after_resolve_def
proof (rule act_ok_bind [OF poll_unpin_ok [OF assms]])
  fix p :: "unit poll"
  have w: "act_ok F (idle V n) wake_unpolled (\<lambda>_. idle V n) R" for F R
    unfolding wake_unpolled_def
    by (intro act_ok_get act_ok_if act_ok_conseq [OF framed_ok(3)] act_ok_return) auto
  have m: "act_ok F (idle V n) (reset_missed_prediction t) (\<lambda>_. idle V n) R" for F R t
    unfolding reset_missed_prediction_def
    by (intro act_ok_get act_ok_if act_ok_bind [OF act_ok_update [where Q = "\<lambda>_. idle V n"]] framed_ok(3) act_ok_return) auto
  have d: "act_ok F (module_inv V n) (act_bind (drop_old_sleeps E) (\<lambda>_. act_return Pending)) (\<lambda>_. module_inv V n) R" for F R
    unfolding drop_old_sleeps_def
    by (auto simp: act_ok_def act_bind_def next_tick_def act_run)
  have a: "act_ok (module_faults b) (idle V n)
      (act_bind wake_unpolled (\<lambda>_. act_bind (utc_now E) (\<lambda>t. act_bind (reset_missed_prediction t) (\<lambda>_.
       act_bind (maybe_load t) (\<lambda>_. act_bind (maybe_shut_down cu E t) (\<lambda>_.
       act_bind (drop_old_sleeps E) (\<lambda>_. act_return Pending))))))) (\<lambda>_. module_inv V n) (shared_ok n)"
    by (rule act_ok_bind [OF w act_ok_bind [OF framed_ok(2) act_ok_bind [OF m act_ok_bind
        [OF act_ok_conseq [OF maybe_load_ok] act_ok_bind [OF act_ok_conseq [OF maybe_shut_down_ok] d]]]]])
      (auto simp: module_faults_def)
  show "act_ok (module_faults b) (\<lambda>st. module_inv V n st \<and> (p = Ready () \<longrightarrow> idle V n st))
      (if p = Pending then act_return Pending else act_bind act_get (\<lambda>st.
        if rn_pending_ops (ms_runner st) = [] then act_return (Ready ())
        else act_bind wake_unpolled (\<lambda>_. act_bind (utc_now E) (\<lambda>t. act_bind (reset_missed_prediction t) (\<lambda>_.
          act_bind (maybe_load t) (\<lambda>_. act_bind (maybe_shut_down cu E t) (\<lambda>_.
          act_bind (drop_old_sleeps E) (\<lambda>_. act_return Pending)))))))) (\<lambda>_. module_inv V n) (shared_ok n)"
    by (intro act_ok_if act_ok_get act_ok_return act_ok_conseq [OF a]) (cases p; simp)+
qed

lemma poll_event_loop_ok:
  assumes "engine_ok V" "module_inv V n st" "poll_event_loop m cu b V E st = Some (r, st')"
  shows "case r of Ok _ \<Rightarrow> module_inv V n st' | Err _ \<Rightarrow> shared_ok n st' | Panic p \<Rightarrow> p \<in> module_faults b \<and> shared_ok n st'"
proof -
  obtain q st1 where q: "resolve_loop b V E m st = Some (q, st1)"
    using assms(3) by (auto simp: poll_event_loop_def split: option.splits prod.splits)
  note l = resolve_loop_ok [OF assms(1,2) q]
  show ?thesis
  proof (cases q)
    case (Ok u)
    then have "module_inv V n st1" using l by simp
    moreover have "after_resolve cu b V E st1 = (r, st')" using assms(3) q Ok by (simp add: poll_event_loop_def)
    ultimately show ?thesis by (rule act_ok_result [OF after_resolve_ok [OF assms(1)]])
  qed (use assms(3) q l in \<open>auto simp: poll_event_loop_def\<close>)
qed

lemma run_event_loop_ok:
  assumes "engine_ok V" "module_inv V n st" "run_event_loop k m cu b V E st = Some (r, st')"
  shows "(case r of Panic p \<Rightarrow> p \<in> module_faults b | _ \<Rightarrow> True) \<and> shared_ok n st'"
  using assms(2,3)
proof (induction k arbitrary: st)
  case (Suc k)
  then obtain q st1 where q: "poll_event_loop m cu b V E st = Some (q, st1)" by (auto split: option.splits prod.splits)
  note l = poll_event_loop_ok [OF assms(1) Suc.prems(1) q]
  show ?case
  proof (cases "q = Ok Pending")
    case True
    then show ?thesis using Suc.IH [of st1] Suc.prems(2) q l by simp
  next
    case False
    then show ?thesis using Suc.prems(2) q l module_inv_shared [of V n st1]
      by (auto split: outcome.splits poll.splits)
  qed
qed simp

end
