(* ===== verification/Host.thy ===== *)
theory Host
  imports Environment Module_Inv
begin

text \<open>
  The host as a whole (\<open>runtime/mod.rs\<close>): modules are started one by one and then polled in any
  order; they share the permits of the instance pool and the file system. A module that ends,
  in whatever way, is dropped, and with it the permit of its instance.
\<close>

definition POOL_SIZE :: "bool \<Rightarrow> nat" where
  "POOL_SIZE COMPILE_WITH_UNINSTANTIATE = (if COMPILE_WITH_UNINSTANTIATE then 100 else 1000)"

record ('vm, 'val) host =
  ho_modules :: "('vm, 'val) module_state list"
  ho_client_id :: u64
  ho_permits :: nat
  ho_files :: files

definition host_new :: "bool \<Rightarrow> files \<Rightarrow> ('vm, 'val) host" where
  "host_new cu files = \<lparr>ho_modules = [], ho_client_id = 0, ho_permits = POOL_SIZE cu, ho_files = files\<rparr>"

text \<open>What a host is given: the hash, the compiler, which files can be written and what is in a file when writing it
  fails, which contexts are accepted, whether the client of the prediction server can be made, and two directories.\<close>

record host_setup =
  su_hash :: "u8 list \<Rightarrow> string"
  su_precompile :: "u8 list \<Rightarrow> u8 list option"
  su_write_ok :: "string \<Rightarrow> bool"
  su_torn :: "string \<Rightarrow> u8 list option"
  su_client_ok :: bool
  su_wasi_ok :: "(string \<times> string) list \<Rightarrow> string list \<Rightarrow> bool"
  su_cache_path :: string
  su_swap_path :: string

text \<open>
  \<open>expect\<close>: an error of either step is a panic of the task that starts the modules. The modules that were
  started before are tasks of their own, and go on.
\<close>

definition start_module ::
  "'req host_env \<Rightarrow> host_setup \<Rightarrow> metadata \<Rightarrow> (('vm, 'val) host, unit) action" where
  "start_module E su meta H =
     (let (cached, files) = cache_precompile (su_hash su) (su_precompile su) (su_write_ok su) (su_torn su)
            (md_wasm meta) (su_cache_path su) (ho_files H);
          H = H\<lparr>ho_files := files\<rparr> in
      case cached of
        Ok serialized_wasm_path \<Rightarrow>
          let async_client_id = ho_client_id H;
              H = H\<lparr>ho_client_id := async_client_id + 1\<rparr>;
              client_swap_path = swap_file (su_swap_path su) async_client_id in
          (case new_controller_module E (su_wasi_ok su) (su_client_ok su) meta serialized_wasm_path client_swap_path async_client_id
                  (ho_permits H) files of
             Ok module \<Rightarrow> (case module_start module of
                 (Ok _, module) \<Rightarrow> (Ok (), H\<lparr>ho_modules := ho_modules H @ [module]\<rparr>)
               | _ \<Rightarrow> (Panic Expect_Failed, H))
           | Err e \<Rightarrow> (Panic Expect_Failed, H)
           | Panic p \<Rightarrow> (Panic p, H))
      | _ \<Rightarrow> (Panic Expect_Failed, H))"

text \<open>The task of module \<open>k\<close> is polled; \<open>None\<close> is a poll that does not end within the bound.\<close>

definition share :: "('vm, 'val) host \<Rightarrow> ('vm, 'val) module_state \<Rightarrow> ('vm, 'val) module_state" where
  "share H st = st\<lparr>ms_permits := ho_permits H, ms_files := ho_files H\<rparr>"

definition poll_module ::
  "nat \<Rightarrow> bool \<Rightarrow> build \<Rightarrow> ('vm, 'val) vm_ops \<Rightarrow> 'req host_env \<Rightarrow> nat \<Rightarrow> ('vm, 'val) host \<Rightarrow> ('vm, 'val) host option" where
  "poll_module n cu b V E k H = (case poll_event_loop n cu b V E (share H (ho_modules H ! k)) of
     None \<Rightarrow> None
   | Some (Ok Pending, st) \<Rightarrow> Some (H\<lparr>ho_modules := (ho_modules H)[k := st],
       ho_permits := ms_permits st, ho_files := ms_files st\<rparr>)
   | Some (_, st) \<Rightarrow> Some (H\<lparr>ho_modules := drop_nth k (ho_modules H),
       ho_permits := ms_permits st + instances st, ho_files := ms_files st\<rparr>))"

inductive host_run :: "bool \<Rightarrow> build \<Rightarrow> ('vm, 'val) vm_ops \<Rightarrow> 'req host_env \<Rightarrow> host_setup \<Rightarrow> ('vm, 'val) host \<Rightarrow> bool"
  for cu b V E su where
  host_fresh: "host_run cu b V E su (host_new cu files)"
| host_start: "host_run cu b V E su H \<Longrightarrow> unat (ho_client_id H) + 1 < 2 ^ 64 \<Longrightarrow> start_module E su meta H = (r, H') \<Longrightarrow>
    host_run cu b V E su H'"
| host_poll: "host_run cu b V E su H \<Longrightarrow> k < length (ho_modules H) \<Longrightarrow> poll_module n cu b V E k H = Some H' \<Longrightarrow>
    host_run cu b V E su H'"

section \<open>The invariant\<close>

definition all_instances :: "('vm, 'val) host \<Rightarrow> nat" where
  "all_instances H = sum_list (map instances (ho_modules H))"

definition module_ok :: "('vm, 'val) vm_ops \<Rightarrow> ('vm, 'val) module_state \<Rightarrow> bool" where
  "module_ok V st \<longleftrightarrow> module_inv V (ledger st) st"

definition host_inv :: "bool \<Rightarrow> ('vm, 'val) vm_ops \<Rightarrow> host_setup \<Rightarrow> ('vm, 'val) host \<Rightarrow> bool" where
  "host_inv cu V su H \<longleftrightarrow>
     ho_permits H + all_instances H = POOL_SIZE cu \<and>
     (\<forall>st \<in> set (ho_modules H). module_ok V (share H st)) \<and>
     distinct (map ms_swap_path (ho_modules H)) \<and>
     (\<forall>st \<in> set (ho_modules H). \<exists>i < ho_client_id H. ms_swap_path st = swap_file (su_swap_path su) i)"

lemma module_ok_iff: "module_ok V st \<longleftrightarrow> phase_ok V st \<and> runner_inv (ms_runner st) \<and> history_ok st"
  by (simp add: module_ok_def module_inv_def)

text \<open>A module does not notice what others do with permits and with files it has no part in.\<close>

lemma module_ok_shared:
  assumes "module_ok V st" "files (ms_swap_path st) = ms_files st (ms_swap_path st)"
  shows "module_ok V (st\<lparr>ms_permits := q, ms_files := files\<rparr>)"
proof -
  let ?st = "st\<lparr>ms_permits := q, ms_files := files\<rparr>"
  have f: "from_module V ?st = from_module V st" "swapped V ?st = swapped V st"
    using assms(2) by (auto simp: from_module_def swapped_def fun_eq_iff)
  have g: "present V ?st = present V st" "absent V ?st = absent V st" "ms_inner ?st = ms_inner st"
    "ms_wasm_work ?st = ms_wasm_work st" "ms_uninstantiating ?st = ms_uninstantiating st"
    using f by (simp_all add: present_def absent_def)
  have "phase_ok V ?st = phase_ok V st" unfolding phase_ok_def f g by (rule refl)
  then show ?thesis using assms(1) by (simp add: module_ok_iff history_ok_def)
qed

lemma share_sel [simp]:
  "ms_swap_path (share H st) = ms_swap_path st" "instances (share H st) = instances st"
  "ms_permits (share H st) = ho_permits H" "ms_files (share H st) = ho_files H"
  by (simp_all add: share_def instances_def)

lemma share_share: "share H' (share H st) = share H' st"
  by (simp add: share_def)

lemma ledger_same:
  assumes "ledger st' = ledger st"
  shows "ms_permits st' + instances st' = ms_permits st + instances st" "ms_swap_path st' = ms_swap_path st"
    "p \<noteq> ms_swap_path st \<Longrightarrow> ms_files st' p = ms_files st p"
  using assms unfolding ledger_def by (auto simp: fun_eq_iff dest: fun_cong [of _ _ p] split: if_splits)

text \<open>What a poll leaves, however it ends.\<close>

lemma poll_shared:
  assumes "engine_ok V" "module_ok V st" "poll_event_loop n cu b V E st = Some (r, st')"
  shows "ledger st' = ledger st" "r = Ok p \<Longrightarrow> module_ok V st'" "r = Panic f \<Longrightarrow> f \<in> module_faults b"
proof -
  note l = poll_event_loop_ok [OF assms(1) assms(2) [unfolded module_ok_def] assms(3)]
  show "ledger st' = ledger st" using l by (cases r) (auto simp: module_inv_def shared_ok_def)
  then show "r = Ok p \<Longrightarrow> module_ok V st'" using l by (simp add: module_ok_def)
  show "r = Panic f \<Longrightarrow> f \<in> module_faults b" using l by simp
qed

lemma sum_list_drop_nth: "k < length xs \<Longrightarrow> sum_list xs = sum_list (drop_nth k xs) + (xs ! k :: nat)"
  unfolding drop_nth_def using arg_cong [OF id_take_nth_drop, of k xs sum_list] by simp

lemma map_drop_nth: "map f (drop_nth k xs) = drop_nth k (map f xs)"
  by (simp add: drop_nth_def take_map drop_map)

lemma in_drop_nth:
  assumes "x \<in> set (drop_nth k xs)"
  obtains j where "j < length xs" "j \<noteq> k" "x = xs ! j"
proof -
  from assms consider "x \<in> set (take k xs)" | "x \<in> set (drop (Suc k) xs)" by (auto simp: drop_nth_def)
  then show thesis
  proof cases
    case 1
    then show thesis using that by (auto simp: in_set_conv_nth)
  next
    case 2
    then obtain i where "i < length (drop (Suc k) xs)" "x = drop (Suc k) xs ! i" by (auto simp: in_set_conv_nth)
    then show thesis using that [of "Suc k + i"] by simp
  qed
qed

lemma distinct_drop_nth: "distinct xs \<Longrightarrow> distinct (drop_nth k xs)"
  unfolding drop_nth_def using set_take_disj_set_drop_if_distinct [of xs k "Suc k"] by simp

lemma module_new_started:
  "module_start (module_new E cx wasm_path swap_path q files) =
     (Ok (), (module_new E cx wasm_path swap_path q files)\<lparr>ms_wasm_work := Some (Fresh Start), ms_uninstantiating := False\<rparr>)"
  unfolding module_start_def by (rule wasm_work_set) (simp add: module_new_eq)

lemma module_new_ok:
  "module_ok V ((module_new E cx wasm_path swap_path q files)\<lparr>ms_wasm_work := Some (Fresh Start), ms_uninstantiating := False\<rparr>)"
  using runner_inv_new by (simp add: module_ok_iff module_new_eq phase_ok_def history_ok_def BUFFER_LENGTH_def)

lemma start_module_cases:
  fixes H H' :: "('vm, 'val) host"
  assumes "start_module E su meta H = (r, H')"
  obtains (added) path files where
    "cache_precompile (su_hash su) (su_precompile su) (su_write_ok su) (su_torn su) (md_wasm meta) (su_cache_path su) (ho_files H) = (Ok path, files)"
    "r = Ok ()"
    "H' = H\<lparr>ho_modules := ho_modules H @ [(module_new E (controller_ctx_new (ho_client_id H)) path
        (swap_file (su_swap_path su) (ho_client_id H)) (ho_permits H) files)\<lparr>ms_wasm_work := Some (Fresh Start), ms_uninstantiating := False\<rparr>],
      ho_client_id := ho_client_id H + 1, ho_files := files\<rparr>"
  | (uncached) e files where
    "cache_precompile (su_hash su) (su_precompile su) (su_write_ok su) (su_torn su) (md_wasm meta) (su_cache_path su) (ho_files H) = (Err e, files)"
    "r = Panic Expect_Failed" "H' = H\<lparr>ho_files := files\<rparr>"
  | (refused) path files where
    "cache_precompile (su_hash su) (su_precompile su) (su_write_ok su) (su_torn su) (md_wasm meta) (su_cache_path su) (ho_files H) = (Ok path, files)"
    "r = Panic Expect_Failed \<and> \<not> su_wasi_ok su (map (\<lambda>e. (ev_name e, ev_value e)) (md_env meta)) (md_args meta) \<or>
     r = Panic Http_Client_Panic \<and> \<not> su_client_ok su"
    "H' = H\<lparr>ho_client_id := ho_client_id H + 1, ho_files := files\<rparr>"
proof -
  obtain c files where c: "cache_precompile (su_hash su) (su_precompile su) (su_write_ok su) (su_torn su) (md_wasm meta)
      (su_cache_path su) (ho_files H) = (c, files)"
    by (rule prod.exhaust)
  show thesis
  proof (cases c)
    case (Ok path)
    show thesis
    proof (cases "su_wasi_ok su (map (\<lambda>e. (ev_name e, ev_value e)) (md_env meta)) (md_args meta) \<and> su_client_ok su")
      case True
      let ?m = "(module_new E (controller_ctx_new (ho_client_id H)) path (swap_file (su_swap_path su) (ho_client_id H)) (ho_permits H) files)
        \<lparr>ms_wasm_work := Some (Fresh Start), ms_uninstantiating := False\<rparr>"
      have "r = Ok ()" "H' = H\<lparr>ho_files := files, ho_client_id := ho_client_id H + 1, ho_modules := ho_modules H @ [?m]\<rparr>"
        using True assms Ok c
        by (simp_all add: start_module_def new_controller_module_def controller_module_new_def Let_def module_new_started)
      then show thesis using added [OF c [unfolded Ok]] by (cases H) simp
    next
      case False
      then show thesis using refused [OF c [unfolded Ok]] assms Ok c
        by (auto simp: start_module_def new_controller_module_def controller_module_new_def Let_def split: if_splits)
    qed
  next
    case (Err e)
    then show thesis using uncached [OF c [unfolded Err]] assms c by (simp add: start_module_def Let_def)
  next
    case (Panic p)
    show thesis using c [unfolded Panic] by (rule cache_precompile_cases) simp_all
  qed
qed

lemma start_module_files:
  assumes "start_module E su meta H = (r, H')"
  shows "ho_files H' (swap_file dir i) = ho_files H (swap_file dir i)" "ho_permits H' = ho_permits H"
proof -
  have *: "files' (swap_file dir i) = files (swap_file dir i)" if "cache_precompile hash pc ok torn path dir' files = (c, files')"
    for hash pc ok torn path dir' files c files'
    using that by (rule cache_precompile_cases) (simp_all add: swap_not_cache)
  from assms show "ho_files H' (swap_file dir i) = ho_files H (swap_file dir i)" "ho_permits H' = ho_permits H"
    by (cases rule: start_module_cases; simp add: *)+
qed

section \<open>What holds of every module\<close>

text \<open>
  A property of a module that holds when it is started, that does not depend on what the other
  modules do, and that a poll keeps: it holds of every module of the host, at any time.
\<close>

locale module_law =
  fixes I :: "('vm, 'val) module_state \<Rightarrow> bool" and cu :: bool and b :: build and V :: "('vm, 'val) vm_ops" and E :: "'req host_env"
  assumes started: "I ((module_new E (controller_ctx_new i) path swap q files)\<lparr>ms_wasm_work := Some (Fresh Start), ms_uninstantiating := False\<rparr>)"
    and shared: "I st \<Longrightarrow> files (ms_swap_path st) = ms_files st (ms_swap_path st) \<Longrightarrow> I (st\<lparr>ms_permits := q, ms_files := files\<rparr>)"
    and polled: "engine_ok V \<Longrightarrow> module_ok V st \<Longrightarrow> I st \<Longrightarrow> poll_event_loop n cu b V E st = Some (Ok Pending, st') \<Longrightarrow> I st'"
begin

lemma share_kept:
  assumes "I (share H st)" "ho_files H' (ms_swap_path st) = ho_files H (ms_swap_path st)"
  shows "I (share H' st)"
proof -
  have "share H' st = (share H st)\<lparr>ms_permits := ho_permits H', ms_files := ho_files H'\<rparr>"
    by (simp add: share_def)
  then show ?thesis using shared [OF assms(1), of "ho_files H'"] assms(2) by simp
qed

lemma poll_each:
  assumes "engine_ok V" "distinct (map ms_swap_path (ho_modules H))" "k < length (ho_modules H)"
    "module_ok V (share H (ho_modules H ! k))" "\<And>st. st \<in> set (ho_modules H) \<Longrightarrow> I (share H st)"
    "poll_module n cu b V E k H = Some H'" "st \<in> set (ho_modules H')"
  shows "I (share H' st)"
proof -
  let ?ms = "ho_modules H"
  obtain r st' where p: "poll_event_loop n cu b V E (share H (?ms ! k)) = Some (r, st')"
    using assms(6) by (auto simp: poll_module_def split: option.splits)
  have files: "ho_files H' = ms_files st'" using assms(6) p by (auto simp: poll_module_def split: outcome.splits poll.splits)
  have other: "I (share H' (?ms ! j))" if "j < length ?ms" "j \<noteq> k" for j
  proof (rule share_kept [of H])
    show "I (share H (?ms ! j))" using assms(5) that(1) by simp
    have "ms_swap_path (?ms ! j) \<noteq> ms_swap_path (?ms ! k)"
      using that assms(2,3) by (simp add: distinct_conv_nth)
    then show "ho_files H' (ms_swap_path (?ms ! j)) = ho_files H (ms_swap_path (?ms ! j))"
      using ledger_same(3) [OF poll_shared(1) [OF assms(1,4) p]] files by simp
  qed
  show ?thesis
  proof (cases "r = Ok Pending")
    case True
    then have H': "ho_modules H' = ?ms[k := st']" "share H' st' = st'"
      using assms(6) p by (auto simp: poll_module_def share_def)
    obtain j where j: "j < length ?ms" "st = ?ms[k := st'] ! j" using assms(7) H'(1) by (auto simp: in_set_conv_nth)
    show ?thesis
    proof (cases "j = k")
      case True
      then show ?thesis using polled [OF assms(1,4) _ p [unfolded \<open>r = Ok Pending\<close>]] assms(3,5) H'(2) j by simp
    next
      case False
      then show ?thesis using other [of j] j by simp
    qed
  next
    case False
    then have "ho_modules H' = drop_nth k ?ms"
      using assms(6) p by (auto simp: poll_module_def split: outcome.splits poll.splits)
    then show ?thesis using assms(7) other by (auto elim!: in_drop_nth)
  qed
qed

lemma start_each:
  assumes "\<And>st. st \<in> set (ho_modules H) \<Longrightarrow> \<exists>i. ms_swap_path st = swap_file (su_swap_path su) i"
    "\<And>st. st \<in> set (ho_modules H) \<Longrightarrow> I (share H st)" "start_module E su meta H = (r, H')" "st \<in> set (ho_modules H')"
  shows "I (share H' st)"
proof -
  have old: "I (share H' st)" if m: "st \<in> set (ho_modules H)"
  proof -
    obtain i where "ms_swap_path st = swap_file (su_swap_path su) i" using assms(1) m by blast
    then show ?thesis using share_kept [OF assms(2) [OF m], of H'] start_module_files(1) [OF assms(3)] by simp
  qed
  from assms(3) show ?thesis
  proof (cases rule: start_module_cases)
    case (added path files)
    show ?thesis
    proof (cases "st \<in> set (ho_modules H)")
      case False
      then have st: "st = (module_new E (controller_ctx_new (ho_client_id H)) path (swap_file (su_swap_path su) (ho_client_id H))
          (ho_permits H) files)\<lparr>ms_wasm_work := Some (Fresh Start), ms_uninstantiating := False\<rparr>"
        using assms(4) by (simp add: added(3))
      have "share H' st = st" by (simp add: st added(3) share_def module_new_eq)
      then show ?thesis unfolding st by (simp only: started)
    qed (rule old)
  qed (use old assms(4) in simp_all)
qed

end

interpretation each: module_law "module_ok V" cu b V E for V cu b E
  by unfold_locales (blast intro: module_new_ok module_ok_shared poll_shared(2))+

section \<open>The invariant holds throughout\<close>

lemma host_inv_new: "host_inv cu V su (host_new cu files)"
  by (simp add: host_inv_def host_new_def all_instances_def)

lemma sum_list_update_nat: "k < length xs \<Longrightarrow> sum_list (xs[k := x]) + xs ! k = sum_list xs + (x :: nat)"
  using arg_cong [OF id_take_nth_drop, of k xs sum_list] by (simp add: upd_conv_take_nth_drop)

lemma poll_module_inv:
  assumes "engine_ok V" "host_inv cu V su H" "k < length (ho_modules H)" "poll_module n cu b V E k H = Some H'"
  shows "host_inv cu V su H'"
proof -
  let ?ms = "ho_modules H"
  have inv: "ho_permits H + all_instances H = POOL_SIZE cu" "\<And>st. st \<in> set ?ms \<Longrightarrow> module_ok V (share H st)"
    "distinct (map ms_swap_path ?ms)"
    "\<And>st. st \<in> set ?ms \<Longrightarrow> \<exists>i < ho_client_id H. ms_swap_path st = swap_file (su_swap_path su) i"
    using assms(2) by (auto simp: host_inv_def)
  obtain r st' where p: "poll_event_loop n cu b V E (share H (?ms ! k)) = Some (r, st')"
    using assms(4) by (auto simp: poll_module_def split: option.splits)
  have ok: "module_ok V (share H (?ms ! k))" using inv(2) assms(3) by simp
  have l: "ms_permits st' + instances st' = ho_permits H + instances (?ms ! k)" "ms_swap_path st' = ms_swap_path (?ms ! k)"
    using ledger_same(1,2) [OF poll_shared(1) [OF assms(1) ok p]] by simp_all
  have each: "module_ok V (share H' st)" if "st \<in> set (ho_modules H')" for st
    by (rule each.poll_each [OF assms(1) inv(3) assms(3) ok inv(2) assms(4) that])
  have k: "instances (?ms ! k) + sum_list (map instances (drop_nth k ?ms)) = all_instances H"
    using sum_list_drop_nth [of k "map instances ?ms"] assms(3) by (simp add: all_instances_def map_drop_nth)
  show ?thesis
  proof (cases "r = Ok Pending")
    case True
    have H': "H' = H\<lparr>ho_modules := ?ms[k := st'], ho_permits := ms_permits st', ho_files := ms_files st'\<rparr>"
      using assms(4) p True by (simp add: poll_module_def)
    have "map ms_swap_path (?ms[k := st']) = map ms_swap_path ?ms"
      using l(2) by (simp add: map_update list_update_same_conv assms(3))
    then have "distinct (map ms_swap_path (?ms[k := st']))" "\<forall>st \<in> set (?ms[k := st']). \<exists>i < ho_client_id H.
        ms_swap_path st = swap_file (su_swap_path su) i"
      using inv(3,4) l(2) assms(3) set_update_subset_insert [of ?ms k st'] by (simp, fastforce)
    moreover have "ms_permits st' + sum_list (map instances (?ms[k := st'])) = POOL_SIZE cu"
      using sum_list_update_nat [of k "map instances ?ms" "instances st'"] l(1) inv(1) assms(3)
      by (simp add: map_update all_instances_def)
    ultimately show ?thesis using each by (simp add: host_inv_def H' all_instances_def)
  next
    case False
    then have H': "H' = H\<lparr>ho_modules := drop_nth k ?ms, ho_permits := ms_permits st' + instances st', ho_files := ms_files st'\<rparr>"
      using assms(4) p by (auto simp: poll_module_def split: outcome.splits poll.splits)
    have "distinct (map ms_swap_path (drop_nth k ?ms))" using inv(3) distinct_drop_nth by (simp add: map_drop_nth)
    moreover have "ms_permits st' + instances st' + sum_list (map instances (drop_nth k ?ms)) = POOL_SIZE cu"
      using k l(1) inv(1) by simp
    ultimately show ?thesis using inv(4) set_drop_nth [of k ?ms] each by (auto simp: host_inv_def H' all_instances_def)
  qed
qed

lemma start_module_inv:
  fixes H H' :: "('vm, 'val) host"
  assumes "host_inv cu V su H" "unat (ho_client_id H) + 1 < 2 ^ 64" "start_module E su meta H = (r, H')"
  shows "host_inv cu V su H'"
proof -
  let ?swap = "swap_file (su_swap_path su) (ho_client_id H)"
  have up: "i < ho_client_id H + 1" if "i < ho_client_id H \<or> i = ho_client_id H" for i
  proof -
    have "unat (ho_client_id H + 1) = unat (ho_client_id H) + 1" using assms(2) unat_add_lem [of "ho_client_id H" 1] by simp
    then show ?thesis using that by (auto simp: word_less_nat_alt)
  qed
  have inv: "ho_permits H + all_instances H = POOL_SIZE cu" "\<And>st. st \<in> set (ho_modules H) \<Longrightarrow> module_ok V (share H st)"
    "distinct (map ms_swap_path (ho_modules H))"
    "\<And>st. st \<in> set (ho_modules H) \<Longrightarrow> \<exists>i < ho_client_id H. ms_swap_path st = swap_file (su_swap_path su) i"
    using assms(1) by (auto simp: host_inv_def)
  have new: "?swap \<notin> ms_swap_path ` set (ho_modules H)" using inv(4) by fastforce
  have each: "\<forall>st \<in> set (ho_modules H'). module_ok V (share H' st)"
    using each.start_each [OF _ inv(2) assms(3)] inv(4) by blast
  from assms(3) show ?thesis
  proof (cases rule: start_module_cases)
    case (added path files)
    have "instances ((module_new E cx path swap p files)\<lparr>ms_wasm_work := Some (Fresh Start), ms_uninstantiating := False\<rparr> :: ('vm, 'val) module_state) = 0"
      for cx swap p by (simp add: instances_def module_new_eq)
    moreover have "ho_permits H' = ho_permits H" "ho_client_id H' = ho_client_id H + 1" by (simp_all add: added(3))
    moreover have "\<exists>i < ho_client_id H + 1. ms_swap_path st = swap_file (su_swap_path su) i"
      if "st \<in> set (ho_modules H) \<or> ms_swap_path st = ?swap" for st
      using that inv(4) [of st] up by auto
    ultimately show ?thesis using each inv(1,3) new up [of "ho_client_id H"] unfolding host_inv_def all_instances_def
      by (auto simp: added(3) module_new_eq)
  next
    case (uncached e files)
    then show ?thesis using each inv by (auto simp: host_inv_def all_instances_def)
  next
    case (refused path files)
    have "\<forall>st \<in> set (ho_modules H). \<exists>i < ho_client_id H + 1. ms_swap_path st = swap_file (su_swap_path su) i"
      using inv(4) up by blast
    then show ?thesis using each inv(1,3) refused(3) by (simp add: host_inv_def all_instances_def)
  qed
qed

lemma host_run_inv: "host_run cu b V E su H \<Longrightarrow> engine_ok V \<Longrightarrow> host_inv cu V su H"
  by (induction rule: host_run.induct) (auto intro: host_inv_new start_module_inv poll_module_inv)

context module_law
begin

lemma every_module:
  assumes "host_run cu b V E su H" "engine_ok V"
  shows "st \<in> set (ho_modules H) \<Longrightarrow> I (share H st)"
  using assms(1)
proof (induction arbitrary: st rule: host_run.induct)
  case (host_fresh files)
  then show ?case by (simp add: host_new_def)
next
  case (host_start H meta r H')
  have "host_inv cu V su H" by (rule host_run_inv [OF host_start.hyps(1) assms(2)])
  then show ?case by (intro start_each [OF _ host_start.IH host_start.hyps(3) host_start.prems]) (auto simp: host_inv_def)
next
  case (host_poll H k n H')
  have "host_inv cu V su H" by (rule host_run_inv [OF host_poll.hyps(1) assms(2)])
  then have "distinct (map ms_swap_path (ho_modules H))" "module_ok V (share H (ho_modules H ! k))"
    using host_poll.hyps(2) by (auto simp: host_inv_def)
  then show ?case by (intro poll_each [OF assms(2) _ host_poll.hyps(2) _ host_poll.IH host_poll.hyps(3) host_poll.prems])
qed

end

end
