(* ===== verification/Host_Example.thy ===== *)
theory Host_Example
  imports Host
begin

text \<open>
  A small engine, the surroundings of a host and a module started in them, on which the
  properties of the host are run.
\<close>

text \<open>An instance is its memory and one exported global, which counts the times it was woken.\<close>

type_synonym demo_vm = "u8 list \<times> nat"

definition demo_memory :: "demo_vm \<Rightarrow> u8 list" where
  "demo_memory vm = (if WASM_PAGE_SIZE dvd length (fst vm) then fst vm else [])"

definition demo_engine :: "(demo_vm, nat) vm_ops" where
  "demo_engine = \<lparr>
     vm_load = (\<lambda>_. Some ([], 0)),
     vm_exports_memory = (\<lambda>_. True),
     vm_memory = demo_memory,
     vm_put_memory = (\<lambda>mem vm. (mem, snd vm)),
     vm_grow = (\<lambda>n vm. Some (demo_memory vm @ replicate (n * WASM_PAGE_SIZE) 0, snd vm)),
     vm_globals = (\<lambda>vm. [(''woken'', True, snd vm)]),
     vm_set_global = (\<lambda>name v vm. if name = ''woken'' then Some (fst vm, v) else None),
     vm_start = (\<lambda>i vm. Some (vm, [Call_Delay 5])),
     vm_allocate = (\<lambda>n i vm. Some (0, vm, [])),
     vm_wakeup = (\<lambda>r f p n i vm. Some ((fst vm, Suc (snd vm)), []))\<rparr>"

lemma demo_engine_ok: "engine_ok demo_engine"
  unfolding engine_ok_def
proof (intro conjI)
  show "engine_memory_ok demo_engine"
    by (auto simp: engine_memory_ok_def demo_engine_def demo_memory_def)
  show "engine_globals_ok demo_engine"
    by (auto simp: engine_globals_ok_def demo_engine_def demo_memory_def assign_def)
  show "engine_calls_ok demo_engine"
    by (auto simp: engine_calls_ok_def keeps_module_def exports_def demo_engine_def demo_memory_def)
qed

text \<open>Every operation waits once; the service answers with a head and two chunks.\<close>

definition demo_host_env :: "unit host_env" where
  "demo_host_env = \<lparr>
     he_now = (\<lambda>n. int n),
     he_net = (\<lambda>i q. Some (Some [1], [Some [2], Some [3]])),
     he_eager = (\<lambda>i. 0),
     he_sched = (\<lambda>n. [(0, 1)]),
     he_write_ok = (\<lambda>n. True),
     he_torn = (\<lambda>n. None),
     he_predict = (\<lambda>n. None),
     he_elapsed = (\<lambda>n e. False),
     he_decode = (\<lambda>bytes. Some ()),
     he_url_ok = (\<lambda>q. True)\<rparr>"

definition demo_module :: "(demo_vm, nat) module_state" where
  "demo_module = snd (module_start (module_new demo_host_env (controller_ctx_new 0) ''m.wasm'' ''m.bin'' 1 (\<lambda>_. None)))"

lemma demo_module_eq:
  "demo_module = (module_new demo_host_env (controller_ctx_new 0) ''m.wasm'' ''m.bin'' 1 (\<lambda>_. None))
     \<lparr>ms_wasm_work := Some (Fresh Start), ms_uninstantiating := False\<rparr>"
  by (simp add: demo_module_def module_new_started)

lemma demo_module_ok: "module_ok demo_engine demo_module"
  unfolding demo_module_eq by (rule module_new_ok)

lemmas demo_defs = demo_module_eq module_new_eq demo_host_env_def demo_engine_def demo_memory_def controller_ctx_new_def
  runner_new_def

text \<open>Running the model by simplification.\<close>

lemmas run_defs = act_run act_bind_def act_guard_def poll_unpin_def poll_work_def run_start_def take_not_def inst_take_def
  inst_set_def set_inner_def acquire_def start_acquired_def load_instance_def run_started_def abi_start_controller_def
  enter_guest_def no_value_def abi_delay_def fetch_add_def handle_request_def request_op_def delay_op_def opcall_eager_def
  maybe_done_poll_def handle_opcall_def

lemma demo_started:
  "poll_unpin Debug demo_engine demo_host_env demo_module =
     (Ok (Ready ()), demo_module\<lparr>ms_wasm_work := None, ms_permits := 0,
        ms_inner := GotInst \<lparr>cx_async_client_id = 0, cx_request_id_counter = 1\<rparr> ([], 0),
        ms_runner := \<lparr>rn_pending_ops = [Fut (delay_op 0) False], rn_have_unpolled_ops = True,
          rn_nr_web_calls = 0, rn_channel = []\<rparr>\<rparr>)"
  by (simp add: run_defs demo_defs)

definition demo_woken :: "(demo_vm, nat) module_state" where
  "demo_woken = demo_module\<lparr>ms_wasm_work := Some (Fresh (Wakeup 0 None True)), ms_permits := 0,
     ms_inner := GotInst \<lparr>cx_async_client_id = 0, cx_request_id_counter = 1\<rparr> ([], 0),
     ms_runner := runner_new, ms_first_event_after_shutdown := False, ms_last_events := [1, 4],
     ms_last_event_time := 5, ms_sleep_vec := [(6, 1010)], ms_tick := 7\<rparr>"

lemmas loop_defs = collect_result_def collect_loop.simps collect_turn_def poll_next_unpin_def poll_next_op_def
  opcall_poll_def take_output_def after_poll_def take_web_call_def poll_recv_def drop_nth_def resolve_async_ops_def
  note_event_def utc_now_def next_tick_def add_event_time_def BUFFER_LENGTH_def reset_failed_prediction_def
  is_uninstantiating_def note_finished_def push_sleep_def SHUTDOWN_INACTIVE_INTERVAL_MS_def wasm_wakeup_def
  assert_idle_def set_wasm_work_def set_uninstantiating_def CHANNEL_CAPACITY_def

lemma demo_turn:
  "act_bind (poll_unpin Debug demo_engine demo_host_env) (\<lambda>p. if p = Ready () then resolve_async_ops demo_host_env else act_return False)
     demo_module = (Ok True, demo_woken)"
  by (rule trans [OF act_bind_run(1)], rule demo_started) (simp add: loop_defs run_defs demo_defs demo_woken_def)

definition demo_done :: "(demo_vm, nat) module_state" where
  "demo_done = demo_woken\<lparr>ms_wasm_work := None, ms_inner := GotInst \<lparr>cx_async_client_id = 0, cx_request_id_counter = 1\<rparr> ([], 1),
     ms_tick := 8\<rparr>"

lemma demo_turn_2:
  "act_bind (poll_unpin Debug demo_engine demo_host_env) (\<lambda>p. if p = Ready () then resolve_async_ops demo_host_env else act_return False)
     demo_woken = (Ok False, demo_done)"
  by (simp add: loop_defs run_defs demo_defs demo_woken_def demo_done_def run_wakeup_def take_uns_def run_woken_def abi_wakeup_def)

lemma demo_poll:
  "poll_event_loop 2 cu Debug demo_engine demo_host_env demo_module = Some (Ok (Ready ()), demo_done)"
proof -
  have "resolve_loop Debug demo_engine demo_host_env (Suc (Suc 0)) demo_module = Some (Ok (), demo_done)"
    by (simp add: demo_turn demo_turn_2)
  moreover have "after_resolve cu Debug demo_engine demo_host_env demo_done = (Ok (Ready ()), demo_done)"
    by (simp add: after_resolve_def run_defs demo_done_def demo_woken_def runner_new_def)
  ultimately show ?thesis by (simp add: poll_event_loop_def numeral_2_eq_2)
qed

text \<open>A host with one module.\<close>

definition demo_setup :: host_setup where
  "demo_setup = \<lparr>su_hash = (\<lambda>b. ''key''), su_precompile = (\<lambda>b. Some b), su_write_ok = (\<lambda>p. True),
     su_torn = (\<lambda>p. None), su_client_ok = True, su_wasi_ok = (\<lambda>envs args. True), su_cache_path = ''/cache'', su_swap_path = ''/swap''\<rparr>"

definition demo_meta :: metadata where
  "demo_meta = \<lparr>md_name = ''ring'', md_wasm = ''ring.wasm'', md_env = [], md_args = []\<rparr>"

definition demo_host :: "(demo_vm, nat) host" where
  "demo_host = host_new True [''ring.wasm'' \<mapsto> [0, 97]]"

lemma demo_host_run:
  fixes E :: "'req host_env" and V :: "(demo_vm, nat) vm_ops"
  obtains H where "start_module E demo_setup demo_meta demo_host = (Ok (), H)" "length (ho_modules H) = 1"
    "host_run True Debug V E demo_setup H"
proof -
  have "\<exists>H. start_module E demo_setup demo_meta demo_host = (Ok (), H) \<and> length (ho_modules H) = 1"
    by (simp add: start_module_def demo_host_def host_new_def demo_setup_def demo_meta_def cache_precompile_def
        cache_file_def path_join_def act_bind_def act_run new_controller_module_def controller_module_new_def module_new_started Let_def)
  then obtain H where H: "start_module E demo_setup demo_meta demo_host = (Ok (), H)" "length (ho_modules H) = 1" by blast
  moreover have "host_run True Debug V E demo_setup H"
    by (rule host_start [OF host_fresh _ H(1) [unfolded demo_host_def]]) (simp add: host_new_def)
  ultimately show thesis using that by blast
qed

text \<open>An engine whose instances have an empty memory and one global, which a wakeup counts up.\<close>

definition counter_engine :: "(nat, nat) vm_ops" where
  "counter_engine = \<lparr>
     vm_load = (\<lambda>_. Some 0),
     vm_exports_memory = (\<lambda>_. True),
     vm_memory = (\<lambda>vm. []),
     vm_put_memory = (\<lambda>mem vm. vm),
     vm_grow = (\<lambda>n vm. if n = 0 then Some vm else None),
     vm_globals = (\<lambda>vm. [(''woken'', True, vm)]),
     vm_set_global = (\<lambda>name v vm. if name = ''woken'' then Some v else None),
     vm_start = (\<lambda>i vm. Some (vm, [Call_Delay 5])),
     vm_allocate = (\<lambda>n i vm. Some (0, vm, [])),
     vm_wakeup = (\<lambda>r f p n i vm. Some (Suc vm, [Call_Delay 7]))\<rparr>"

lemma counter_engine_ok: "engine_ok counter_engine"
  unfolding engine_ok_def
proof (intro conjI)
  show "engine_memory_ok counter_engine" by (auto simp: engine_memory_ok_def counter_engine_def split: if_splits)
  show "engine_globals_ok counter_engine" by (auto simp: engine_globals_ok_def counter_engine_def assign_def)
  show "engine_calls_ok counter_engine"
    by (auto simp: engine_calls_ok_def keeps_module_def exports_def counter_engine_def)
qed

definition counter_module :: "(nat, nat) module_state" where
  "counter_module = (module_new demo_host_env (controller_ctx_new 0) ''m.wasm'' ''m.bin'' 1 (\<lambda>_. None))
     \<lparr>ms_inner := GotInst (controller_ctx_new 0) 3, ms_uninstantiating := False\<rparr>"

end
