(* ===== verification/Controller_Spec.thy ===== *)
theory Controller_Spec
  imports Host_Example
begin

text \<open>What the controllers' host promises, stated over the model.\<close>

section \<open>Asynchronous operations\<close>

text \<open>C8: However requests and collections of results are interleaved, and in whatever order the
  operations make progress, the results of a request reach the controller in the order in
  which the request produces them: those handed over so far, followed by those still in the
  channel or in the operation, are exactly the request's results. None is lost, repeated or
  attributed to another request; when nothing is pending, all of them have been handed over.\<close>

theorem results_in_order:
  assumes "runner_run E reqs out R" "(i, q) \<in> set reqs"
  shows "stream_of i out @ left_of i R = op_posts (fst (request_op i (he_net E) q)) \<and>
    (rn_pending_ops R = [] \<and> rn_channel R = [] \<longrightarrow> stream_of i out = op_posts (fst (request_op i (he_net E) q)))"
proof -
  have "run_ok (he_net E) reqs out R" using assms(1) by (rule runner_run_ok)
  then have "stream_of i out @ left_of i R = op_posts (fst (request_op i (he_net E) q))"
    using assms(2) by (auto simp: run_ok_def)
  then show ?thesis by (auto simp: left_of_def pending_of_def)
qed

lemma demo_request_run:
  obtains R where "runner_run demo_host_env [(7, Http ())] [] R" "rn_pending_ops R \<noteq> []"
proof -
  obtain R where R: "handle_request 0 (he_net demo_host_env) 7 (Http ()) runner_new = Ok R" "rn_pending_ops R \<noteq> []"
    by (auto simp: run_defs demo_host_env_def http_op_def post_meta_def runner_new_def)
  show thesis
    using run_request [OF run_new, of "7" 0 demo_host_env "Http ()" R] R that by auto
qed

theorem results_in_order_witness:
  "\<exists>R :: runner. stream_of 7 [] @ left_of 7 R =
     [\<lparr>ar_id = 7, ar_value = Some [1], ar_finished = False\<rparr>, \<lparr>ar_id = 7, ar_value = Some [2, 3], ar_finished = True\<rparr>]"
proof -
  obtain R where "runner_run demo_host_env [(7, Http ())] [] R" by (rule demo_request_run)
  from results_in_order [OF this, of 7 "Http ()"] show ?thesis
    by (intro exI [of _ R]) (simp add: request_op_def http_op_def post_meta_def demo_host_env_def)
qed

text \<open>C32: What a request produces. A delay has one result, without a value, which ends it. A plain
  request that is answered has two: the head, and the whole body, which ends it. A streamed
  request has the head, each chunk of the body as it comes, and an end without a value. These operations end without an
  error. A service that fails ends the operation with an error of the service and no result, a head
  that cannot be serialized with an error of the serialization and no result, and a chunk that fails with
  an error of the body: then a plain request has had its head and nothing else, and a streamed one its
  head and the chunks before the one that failed. So a result that ends a request is sent exactly when the operation has no
  error, and it is the last.\<close>

theorem request_results:
  "op_posts (fst (request_op i net (Delay d))) = [\<lparr>ar_id = i, ar_value = None, ar_finished = True\<rparr>] \<and>
   op_error (fst (request_op i net (Delay d))) = None \<and>
   (\<forall>q \<in> {Http v, HttpStream v}. let op = fst (request_op i net q); meta = \<lambda>head. \<lparr>ar_id = i, ar_value = Some head, ar_finished = False\<rparr> in
      (net i v = None \<longrightarrow> op_posts op = [] \<and> op_error op = Some Service_Error) \<and>
      (net i v = Some (None, body) \<longrightarrow> op_posts op = [] \<and> op_error op = Some Serialize_Error) \<and>
      (net i v = Some (Some head, map Some chunks @ None # rest) \<longrightarrow>
         op_posts op = meta head # (if q = Http v then [] else map meta chunks) \<and> op_error op = Some Body_Error) \<and>
      (net i v = Some (Some head, map Some chunks) \<longrightarrow>
         op_posts op = meta head # (if q = Http v then [\<lparr>ar_id = i, ar_value = Some (concat chunks), ar_finished = True\<rparr>]
           else map meta chunks @ [\<lparr>ar_id = i, ar_value = None, ar_finished = True\<rparr>]) \<and> op_error op = None)) \<and>
   (let posts = op_posts (fst (request_op i net q)) in
      if op_error (fst (request_op i net q)) = None
      then posts \<noteq> [] \<and> ar_finished (last posts) \<and> (\<forall>r \<in> set (butlast posts). \<not> ar_finished r)
      else (\<forall>r \<in> set posts. \<not> ar_finished r))"
proof -
  have "to_bytes (map Some chunks @ None # rest) = None" by (induction chunks) simp_all
  moreover have "op_posts (stream_chunks i (map Some chunks @ None # rest)) =
      map (\<lambda>c. \<lparr>ar_id = i, ar_value = Some c, ar_finished = False\<rparr>) chunks \<and>
    op_error (stream_chunks i (map Some chunks @ None # rest)) = Some Body_Error" by (induction chunks) simp_all
  moreover have "op_error (stream_chunks i (map Some chunks)) = None" by (induction chunks) simp_all
  ultimately show ?thesis using request_op_ended [of i net q]
    by (auto simp: request_op_def delay_op_def http_op_def http_stream_op_def post_meta_def to_bytes_some stream_chunks_some well_ended_def Let_def)
qed

theorem request_results_witness:
  "op_posts (fst (request_op 7 (he_net demo_host_env) (HttpStream ()))) =
     [\<lparr>ar_id = 7, ar_value = Some [1], ar_finished = False\<rparr>, \<lparr>ar_id = 7, ar_value = Some [2], ar_finished = False\<rparr>,
      \<lparr>ar_id = 7, ar_value = Some [3], ar_finished = False\<rparr>, \<lparr>ar_id = 7, ar_value = None, ar_finished = True\<rparr>]"
proof -
  have "he_net demo_host_env 7 () = Some (Some [1], map Some [[2], [3]])" by (simp add: demo_host_env_def)
  then show ?thesis
    using request_results [where i = 7 and net = "he_net demo_host_env" and d = "from_millis 0" and v = "()" and head = "[1]" and
        chunks = "[[2], [3]]" and q = "Delay (from_millis 0)"] by (simp add: Let_def)
qed

text \<open>C21: Collecting results, from any state of the runner that can be reached: it returns, and never
  by a panic, so the count of web calls never goes below zero and no operation is polled
  after its end; it fails only with the error of an operation that failed; no result means that
  the channel is empty; the channel holds ten results at most; and when the count of web
  calls is zero, no plain web request is in flight.\<close>

theorem collect_outcomes:
  assumes "runner_run E reqs out R"
  shows "(case collect_loop E tick R of
       (Ok None, _, R') \<Rightarrow> rn_channel R' = []
     | (Ok (Some r), _, _) \<Rightarrow> True
     | (Err e, _, _) \<Rightarrow> e \<in> errors (rn_pending_ops R)
     | (Panic _, _, _) \<Rightarrow> False) \<and>
    length (rn_channel R) \<le> CHANNEL_CAPACITY \<and>
    (rn_nr_web_calls R = 0 \<longrightarrow> (\<forall>c \<in> set (rn_pending_ops R). \<not> is_web c))"
proof -
  have r: "runner_inv R" using runner_run_ok [OF assms] by (simp add: run_ok_def)
  obtain q tick' R' where c: "collect_loop E tick R = (q, tick', R')" by (cases "collect_loop E tick R") auto
  note collect_loop_correct [OF r c, of 0]
  moreover have "webs (rn_pending_ops R) = 0 \<longrightarrow> (\<forall>c \<in> set (rn_pending_ops R). \<not> is_web c)"
    by (auto simp: webs_def filter_empty_conv)
  ultimately show ?thesis using c r by (auto simp: runner_inv_def split: outcome.splits option.splits)
qed

theorem collect_outcomes_witness:
  "\<exists>R :: runner. rn_pending_ops R \<noteq> [] \<and> length (rn_channel R) \<le> CHANNEL_CAPACITY"
proof -
  obtain R where R: "runner_run demo_host_env [(7, Http ())] [] R" "rn_pending_ops R \<noteq> []" by (rule demo_request_run)
  from collect_outcomes [OF R(1), of 0] show ?thesis using R(2) by (intro exI [of _ R]) simp
qed

text \<open>The host functions a controller calls during one run get consecutive identifiers, starting
  from the counter of its context; every one makes one request under its identifier, which no
  earlier request has, as long as the 64-bit counter does not wrap around.\<close>

theorem guest_ids_consecutive:
  assumes "guest_calls b E cs (cx, R) = Ok (cx', R')" "runner_run E reqs out R"
    "\<forall>j \<in> fst ` set reqs. j < cx_request_id_counter cx" "unat (cx_request_id_counter cx) + length cs < 2 ^ 64"
  shows "\<exists>new. map fst new = map (\<lambda>k. cx_request_id_counter cx + of_nat k) [0..<length cs] \<and>
    cx_request_id_counter cx' = cx_request_id_counter cx + of_nat (length cs) \<and>
    runner_run E (reqs @ new) out R' \<and> (\<forall>j \<in> fst ` set (reqs @ new). j < cx_request_id_counter cx')"
  using guest_calls_run [OF assms(1,2) _ assms(4)] assms(3) unfolding ids_below_def by blast

theorem guest_ids_consecutive_witness:
  "\<exists>new (R :: runner). map fst new = [0, 1 :: u64] \<and> runner_run demo_host_env new [] R"
proof -
  have "guest_calls Debug demo_host_env [Call_Delay 5, Call_Delay 6] (controller_ctx_new 0, runner_new) =
      Ok ((controller_ctx_new 0)\<lparr>cx_request_id_counter := 2\<rparr>,
        runner_new\<lparr>rn_pending_ops := [Fut (delay_op 0) False, Fut (delay_op 1) False], rn_have_unpolled_ops := True\<rparr>)"
    by (simp add: run_defs demo_defs)
  from guest_ids_consecutive [OF this run_new] obtain p q where "runner_run demo_host_env [(0, p), (1, q)] [] (runner_new\<lparr>rn_pending_ops := [Fut (delay_op 0) False, Fut (delay_op 1) False],
      rn_have_unpolled_ops := True\<rparr>)"
    by (auto simp: controller_ctx_new_def upt_rec)
  then show ?thesis by (intro exI [of _ "[(0, p), (1, q)]"]) auto
qed

text \<open>The bytes a host function reads from the memory of the controller. They are the asked-for slice
  when it lies within the memory and ends before 4 GiB; otherwise the host panics: because the
  32-bit sum of the two overflows, in a debug build, or because the slice is out of range. The
  last byte of a memory of 4 GiB can therefore not be passed.\<close>

theorem memory_slice_correct:
  "memory_slice b mem ptr len =
     (if unat ptr + unat len < 2 ^ 32 \<and> unat ptr + unat len \<le> length mem
      then Ok (take (unat len) (drop (unat ptr) mem))
      else Panic (if b = Debug \<and> 2 ^ 32 \<le> unat ptr + unat len then Overflow else Index_Out_Of_Bounds))"
  by (rule memory_slice_eq)

section \<open>Swapping\<close>

text \<open>When an instance is brought back into a smaller memory, the number of pages the memory grows by
  is the least number with which the saved memory fits.\<close>

theorem pages_needed_minimal:
  "pages_needed memory_min mem_size \<le> n \<longleftrightarrow> memory_min \<le> mem_size + n * WASM_PAGE_SIZE"
  by (rule pages_needed_least)

text \<open>C15: Swapping an instance out and loading it back gives an instance with the same memory and the same
  values of the exported mutable globals, and takes back the permit that swapping out had given
  up. The hypotheses are that the engine keeps its promises, that the controller exports its memory, that the module still loads, that
  its initial memory is no larger than the saved one, that growing it succeeds, and that
  the swap file can be written.\<close>

theorem swap_roundtrip:
  assumes "engine_ok V" "ms_inner st = GotInst cx vm" "vm_exports_memory V vm" "he_write_ok E (ms_tick st)"
    "vm_load V (ms_wasm_path st) = Some vm0" "exports V vm = exports V vm0"
    "length (vm_memory V vm0) \<le> length (vm_memory V vm)"
    "length (vm_memory V vm0) < length (vm_memory V vm) \<longrightarrow>
       vm_grow V (pages_needed (length (vm_memory V vm)) (length (vm_memory V vm0))) vm0 \<noteq> None"
  shows "\<exists>st1 st2 vm'. run_uninstantiate V E st = (Ok (Ready ()), st1) \<and>
    (\<exists>sn. ms_inner st1 = UnsInst cx sn) \<and> ms_permits st1 = Suc (ms_permits st) \<and>
    run_load_to_mem V st1 = (Ok (Ready ()), st2) \<and>
    ms_inner st2 = GotInst cx vm' \<and> ms_permits st2 = ms_permits st \<and>
    vm_memory V vm' = vm_memory V vm \<and> mutable_globals V vm' = mutable_globals V vm"
proof -
  obtain vm' where r: "restore_result V (take_snapshot V vm) (Some vm0) (Some (vm_memory V vm)) = Ok vm'"
    and vm': "vm_memory V vm' = vm_memory V vm" "mutable_globals V vm' = mutable_globals V vm"
    by (rule restore_snapshot [OF assms(1,6,3,7,8)])
  let ?st1 = "st\<lparr>ms_inner := UnsInst cx (take_snapshot V vm), ms_tick := Suc (ms_tick st),
    ms_files := (ms_files st)(ms_swap_path st := Some (vm_memory V vm)), ms_permits := Suc (ms_permits st)\<rparr>"
  let ?st2 = "?st1\<lparr>ms_inner := GotInst cx vm', ms_permits := ms_permits st\<rparr>"
  have "run_uninstantiate V E st = (Ok (Ready ()), ?st1)" by (rule run_uninstantiate_eq [OF assms(2,3,4)])
  moreover have "run_load_to_mem V ?st1 = (Ok (Ready ()), ?st2)"
    using run_load_eq [of ?st1 cx "take_snapshot V vm" V vm'] r assms(5) by simp
  ultimately show ?thesis using vm' by (intro exI [of _ ?st1] exI [of _ ?st2] exI [of _ vm']) simp
qed

theorem swap_roundtrip_witness:
  "\<exists>st1 st2 vm'. run_uninstantiate demo_engine demo_host_env demo_done = (Ok (Ready ()), st1) \<and>
    run_load_to_mem demo_engine st1 = (Ok (Ready ()), st2) \<and>
    ms_inner st2 = GotInst \<lparr>cx_async_client_id = 0, cx_request_id_counter = 1\<rparr> vm' \<and>
    mutable_globals demo_engine vm' = [(''woken'', 1)]"
proof -
  have "ms_inner demo_done = GotInst \<lparr>cx_async_client_id = 0, cx_request_id_counter = 1\<rparr> ([], 1)"
    "vm_exports_memory demo_engine ([], 1)" "he_write_ok demo_host_env (ms_tick demo_done)" "vm_load demo_engine (ms_wasm_path demo_done) = Some ([], 0)"
    "exports demo_engine ([], 1) = exports demo_engine ([], 0)"
    by (simp_all add: demo_done_def demo_host_env_def demo_engine_def exports_def)
  from swap_roundtrip [OF demo_engine_ok this] show ?thesis
    by (simp add: demo_engine_def demo_memory_def mutable_globals_def) blast
qed

text \<open>C16: Swapping an instance out is not noticed by the controller. If all its state is in its memory and in
  the exported mutable globals, then a wakeup that first has to bring the instance back ends with
  the same result, the same instance, context and operations, and the same permits as the wakeup of
  the instance that stayed in memory; only the swap file and the count of calls differ. The other
  hypotheses are those of bringing it back.\<close>

theorem swap_transparent:
  assumes "engine_ok V" "ms_inner st = GotInst cx vm" "vm_exports_memory V vm" "he_write_ok E (ms_tick st)"
    "vm_load V (ms_wasm_path st) = Some vm0" "exports V vm = exports V vm0"
    "length (vm_memory V vm0) \<le> length (vm_memory V vm)"
    "length (vm_memory V vm0) < length (vm_memory V vm) \<longrightarrow>
       vm_grow V (pages_needed (length (vm_memory V vm)) (length (vm_memory V vm0))) vm0 \<noteq> None"
    "\<And>vm'. vm_memory V vm' = vm_memory V vm \<Longrightarrow> mutable_globals V vm' = mutable_globals V vm \<Longrightarrow>
       exports V vm' = exports V vm \<Longrightarrow> vm' = vm"
  shows "\<exists>st1. run_uninstantiate V E st = (Ok (Ready ()), st1) \<and>
    (case run_wakeup b V E i val finished st of (r, st2) \<Rightarrow>
       run_wakeup b V E i val finished st1 =
         (r, st2\<lparr>ms_tick := Suc (ms_tick st2), ms_files := (ms_files st2)(ms_swap_path st := Some (vm_memory V vm))\<rparr>))"
proof -
  obtain vm' where r: "restore_result V (take_snapshot V vm) (Some vm0) (Some (vm_memory V vm)) = Ok vm'"
    and "vm_memory V vm' = vm_memory V vm" "mutable_globals V vm' = mutable_globals V vm" "exports V vm' = exports V vm"
    by (rule restore_snapshot [OF assms(1,6,3,7,8)])
  then have "vm' = vm" by (intro assms(9))
  let ?st1 = "st\<lparr>ms_inner := UnsInst cx (take_snapshot V vm), ms_tick := Suc (ms_tick st),
    ms_files := (ms_files st)(ms_swap_path st := Some (vm_memory V vm)), ms_permits := Suc (ms_permits st)\<rparr>"
  let ?st2 = "?st1\<lparr>ms_permits := ms_permits ?st1 - 1, ms_inner := GotInst cx vm\<rparr>"
  have "run_uninstantiate V E st = (Ok (Ready ()), ?st1)" by (rule run_uninstantiate_eq [OF assms(2,3,4)])
  moreover have "?st2 = after_swap (ms_swap_path st) (vm_memory V vm) st"
    using assms(2) by (cases st) (simp add: after_swap_def)
  then have "run_wakeup b V E i val finished ?st1 =
      run_woken b V E i val finished (after_swap (ms_swap_path st) (vm_memory V vm) st)"
    using run_wakeup_swapped [of ?st1 cx "take_snapshot V vm" V vm b E i val finished] r \<open>vm' = vm\<close> assms(5) by simp
  ultimately show ?thesis
    unfolding run_wakeup_got [OF assms(2)] run_woken_after_swap
    by (intro exI [of _ ?st1]) (simp add: after_swap_def split: prod.splits)
qed

theorem swap_transparent_witness:
  "\<exists>st1 st2. run_uninstantiate counter_engine demo_host_env counter_module = (Ok (Ready ()), st1) \<and>
    run_wakeup Debug counter_engine demo_host_env 7 None True st1 = (Ok (Ready ()), st2) \<and>
    ms_inner st2 = GotInst \<lparr>cx_async_client_id = 0, cx_request_id_counter = 1\<rparr> 4"
proof -
  have h: "ms_inner counter_module = GotInst (controller_ctx_new 0) 3" "vm_exports_memory counter_engine 3" "he_write_ok demo_host_env (ms_tick counter_module)"
    "vm_load counter_engine (ms_wasm_path counter_module) = Some 0" "exports counter_engine 3 = exports counter_engine 0"
    "length (vm_memory counter_engine 0) \<le> length (vm_memory counter_engine 3)"
    "length (vm_memory counter_engine 0) < length (vm_memory counter_engine 3) \<longrightarrow>
       vm_grow counter_engine (pages_needed (length (vm_memory counter_engine 3)) (length (vm_memory counter_engine 0))) 0 \<noteq> None"
    "mutable_globals counter_engine vm' = mutable_globals counter_engine 3 \<Longrightarrow> vm' = 3" for vm'
    by (simp_all add: counter_module_def demo_host_env_def counter_engine_def exports_def mutable_globals_def)
  obtain st2 where "run_wakeup Debug counter_engine demo_host_env 7 None True counter_module = (Ok (Ready ()), st2)"
    "ms_inner st2 = GotInst \<lparr>cx_async_client_id = 0, cx_request_id_counter = 1\<rparr> 4"
    using run_wakeup_got [OF h(1), of Debug counter_engine demo_host_env 7 None True]
    by (simp add: counter_module_def run_defs demo_defs counter_engine_def run_woken_def abi_wakeup_def)
  with swap_transparent [OF counter_engine_ok h(1-7) h(8), of Debug 7 None True] show ?thesis by fastforce
qed

section \<open>A module\<close>

text \<open>C18: The step that hands results over, when no work is pending. With a result, the next work is to wake
  the controller with exactly this result, whether its instance is in memory or swapped out; the
  instance, the permits and the files are not touched. The first result after swapping out
  is added to the history of events, which forgets its oldest entry when it is full; a prediction
  that did not foresee it is put off by 999 days; a result that ends its request sets the time of the
  last event and a timer. Without a result, only the runner changes; an error of an operation is
  passed on.\<close>

theorem resolve_async_ops_correct:
  assumes "ms_wasm_work st = None"
  shows "case collect_loop E (ms_tick st) ((ms_runner st)\<lparr>rn_have_unpolled_ops := False\<rparr>) of
      (Ok None, tick, R) \<Rightarrow> resolve_async_ops E st = (Ok False, st\<lparr>ms_runner := R, ms_tick := tick\<rparr>)
    | (Ok (Some result), tick, R) \<Rightarrow>
        \<exists>st'. resolve_async_ops E st = (Ok True, st') \<and>
          ms_wasm_work st' = Some (Fresh (Wakeup (ar_id result) (ar_value result) (ar_finished result))) \<and>
          \<not> ms_uninstantiating st' \<and> \<not> ms_first_event_after_shutdown st' \<and>
          ms_runner st' = R \<and> ms_inner st' = ms_inner st \<and> ms_permits st' = ms_permits st \<and> ms_files st' = ms_files st \<and>
          (\<exists>n. ms_last_events st' = (if \<not> ms_first_event_after_shutdown st then ms_last_events st
             else (if length (ms_last_events st) < BUFFER_LENGTH then ms_last_events st else tl (ms_last_events st)) @ [he_now E n])) \<and>
          (\<exists>n. ms_predicted st' = (if ms_uninstantiating st then he_now E n + days 999 else ms_predicted st)) \<and>
          (\<exists>n k. ms_last_event_time st' = (if ar_finished result then he_now E n else ms_last_event_time st) \<and>
             ms_sleep_vec st' = ms_sleep_vec st @
               (if ar_finished result then [(k, nat (SHUTDOWN_INACTIVE_INTERVAL_MS + 10))] else []))
    | (Err e, tick, R) \<Rightarrow> resolve_async_ops E st = (Err e, st\<lparr>ms_runner := R, ms_tick := tick\<rparr>)
    | (Panic p, tick, R) \<Rightarrow> resolve_async_ops E st = (Panic p, st\<lparr>ms_runner := R, ms_tick := tick\<rparr>)"
proof -
  obtain r tick R where c: "collect_loop E (ms_tick st) ((ms_runner st)\<lparr>rn_have_unpolled_ops := False\<rparr>) = (r, tick, R)"
    by (rule prod_cases3)
  let ?st = "st\<lparr>ms_runner := R, ms_tick := tick\<rparr>"
  have co: "collect_result E st = (r, ?st)" using c by (simp add: collect_result_def)
  show ?thesis
  proof (cases r)
    case (Ok m)
    show ?thesis
    proof (cases m)
      case None
      then show ?thesis using c co Ok by (simp add: resolve_async_ops_def act_bind_def act_run)
    next
      case (Some result)
      define st1 where "st1 = snd (note_event E ?st)"
      define st2 where "st2 = snd (reset_failed_prediction E st1)"
      define st3 where "st3 = snd (note_finished E result st2)"
      have s: "note_event E ?st = (Ok (), st1)" "reset_failed_prediction E st1 = (Ok (), st2)"
        "note_finished E result st2 = (Ok (), st3)"
        by (simp_all add: st1_def st2_def st3_def note_event_eq reset_failed_prediction_eq note_finished_eq)
      have idle: "ms_wasm_work st3 = None"
        using assms by (simp add: st1_def st2_def st3_def note_event_eq reset_failed_prediction_eq note_finished_eq)
      note st3 = st3_def [unfolded st2_def st1_def note_event_eq reset_failed_prediction_eq note_finished_eq]
      have "resolve_async_ops E st = (Ok True, st3\<lparr>ms_wasm_work := Some (Fresh (Wakeup (ar_id result) (ar_value result) (ar_finished result))),
          ms_uninstantiating := False\<rparr>)"
        using co Ok Some s wasm_wakeup_eq [OF idle] by (simp add: resolve_async_ops_def act_bind_def act_run)
      moreover have "\<exists>n k. ms_last_event_time st3 = (if ar_finished result then he_now E n else ms_last_event_time st) \<and>
             ms_sleep_vec st3 = ms_sleep_vec st @ (if ar_finished result then [(k, nat (SHUTDOWN_INACTIVE_INTERVAL_MS + 10))] else [])"
        unfolding st3 by auto
      ultimately show ?thesis using c Ok Some by (auto simp: st3 not_less)
    qed
  qed (use c co in \<open>simp_all add: resolve_async_ops_def act_bind_def act_run\<close>)
qed

theorem resolve_async_ops_correct_witness:
  "\<exists>st st'. ms_inner st = GotInst \<lparr>cx_async_client_id = 0, cx_request_id_counter = 1\<rparr> ([], 0) \<and>
     resolve_async_ops demo_host_env (st :: (demo_vm, nat) module_state) = (Ok True, st') \<and>
     ms_wasm_work st' = Some (Fresh (Wakeup 0 None True))"
proof -
  define st :: "(demo_vm, nat) module_state" where "st = demo_module\<lparr>ms_wasm_work := None, ms_permits := 0,
        ms_inner := GotInst \<lparr>cx_async_client_id = 0, cx_request_id_counter = 1\<rparr> ([], 0),
        ms_runner := \<lparr>rn_pending_ops = [Fut (delay_op 0) False], rn_have_unpolled_ops = True,
          rn_nr_web_calls = 0, rn_channel = []\<rparr>\<rparr>"
  have idle: "ms_wasm_work st = None" by (simp add: st_def)
  obtain tick R where c: "collect_loop demo_host_env (ms_tick st) ((ms_runner st)\<lparr>rn_have_unpolled_ops := False\<rparr>) =
      (Ok (Some \<lparr>ar_id = 0, ar_value = None, ar_finished = True\<rparr>), tick, R)"
    by (simp add: st_def loop_defs run_defs demo_defs)
  have "ms_inner st = GotInst \<lparr>cx_async_client_id = 0, cx_request_id_counter = 1\<rparr> ([], 0)" by (simp add: st_def)
  then show ?thesis using resolve_async_ops_correct [OF idle, of demo_host_env] c by auto
qed


text \<open>C3: One poll of the event loop of a module, from any state that satisfies the invariant: unless it
  fails, the invariant holds again; and the only panics it can end with come from outside: the controller
  exports no memory, or passes a host function a piece of memory that is out of range (in a debug
  build, one whose end overflows), that is no request, or is one whose URI cannot be rewritten to the cluster, or the prediction
  server answers what cannot be read. So a
  work is never set while another one is pending (the assertions on
  \<open>wasm_work\<close>), a work never finds the instance missing (the \<open>unreachable!\<close>), the saved memory
  always fits (the assertion on its size), each saved global is found again (the lookup of a global), a result is always
  sent (the \<open>expect\<close> on its channel), and whatever the
  outcome, the permits add up and no file but the module's swap file is touched.\<close>

theorem module_poll_safe:
  assumes "engine_ok V" "module_ok V st" "poll_event_loop n cu b V E st = Some (r, st')"
  shows "(case r of
      Ok _ \<Rightarrow> module_ok V st'
    | Err _ \<Rightarrow> True
    | Panic p \<Rightarrow> p \<in> {Memory_Missing, Index_Out_Of_Bounds, Undecodable_Request, Unaddressable_Request, Unreadable_Prediction} \<or>
        b = Debug \<and> p = Overflow) \<and>
    ms_permits st' + instances st' = ms_permits st + instances st \<and>
    (\<forall>p. p \<noteq> ms_swap_path st \<longrightarrow> ms_files st' p = ms_files st p)"
proof -
  note p = poll_shared [OF assms]
  note l = ledger_same [OF p(1)]
  show ?thesis using p(2,3) l by (cases r) (auto simp: module_faults_def guest_faults_def split: if_splits)
qed

theorem module_poll_safe_witness:
  "\<exists>st'. poll_event_loop 2 True Debug demo_engine demo_host_env demo_module = Some (Ok (Ready ()), st') \<and>
    module_ok demo_engine st' \<and> ms_permits st' + instances st' = 1"
  using module_poll_safe [OF demo_engine_ok demo_module_ok demo_poll [of True]] demo_poll [of True]
  by (simp add: demo_module_eq module_new_eq instances_def)

text \<open>C23: When a module is swapped out. With no work pending, the step sets the work of swapping out exactly
  when the code is compiled with it, the instance is in memory, no web request is counted, more
  than a second has passed since the last finished request (the difference is counted in whole milliseconds), and the
  predicted event is neither ahead by at least a millisecond and less than a second, nor past by at least
  a millisecond and less than a second; a consistent runner then has no web request in
  flight. In all other cases the step changes nothing.\<close>

theorem shut_down_conditions:
  assumes "runner_inv (ms_runner st)" "ms_wasm_work st = None" "maybe_shut_down cu E now st = (r, st')"
  shows "if cu \<and> \<not> ms_uninstantiating st \<and> rn_nr_web_calls (ms_runner st) = 0 \<and>
      1001 * 1000000 \<le> now - ms_last_event_time st \<and>
      \<not> (1000000 \<le> ms_predicted st - now \<and> ms_predicted st - now < 1000 * 1000000) \<and>
      \<not> (1000000 \<le> now - ms_predicted st \<and> now - ms_predicted st < 1000 * 1000000)
    then ms_wasm_work st' = Some (Fresh Uninstantiate) \<and> ms_uninstantiating st' \<and>
      (\<forall>c \<in> set (rn_pending_ops (ms_runner st)). \<not> is_web c)
    else r = Ok () \<and> st' = st"
proof -
  have iff: "may_shut_down cu now st \<longleftrightarrow> cu \<and> \<not> ms_uninstantiating st \<and> rn_nr_web_calls (ms_runner st) = 0 \<and>
      1001 * 1000000 \<le> now - ms_last_event_time st \<and>
      \<not> (1000000 \<le> ms_predicted st - now \<and> ms_predicted st - now < 1000 * 1000000) \<and>
      \<not> (1000000 \<le> now - ms_predicted st \<and> now - ms_predicted st < 1000 * 1000000)"
    unfolding may_shut_down_def is_uninstantiating_def in_time_before_iff in_time_grace_iff is_inactive_iff by blast
  show ?thesis unfolding iff [symmetric]
  proof (cases "may_shut_down cu now st")
    case True
    then have "\<forall>c \<in> set (rn_pending_ops (ms_runner st)). \<not> is_web c"
      using assms(1) by (auto simp: may_shut_down_def runner_inv_def webs_def filter_empty_conv)
    then show "if may_shut_down cu now st
      then ms_wasm_work st' = Some (Fresh Uninstantiate) \<and> ms_uninstantiating st' \<and>
        (\<forall>c \<in> set (rn_pending_ops (ms_runner st)). \<not> is_web c)
      else r = Ok () \<and> st' = st" using True maybe_shut_down_work [OF assms(2,3) True] by simp
  next
    case False
    then show "if may_shut_down cu now st
      then ms_wasm_work st' = Some (Fresh Uninstantiate) \<and> ms_uninstantiating st' \<and>
        (\<forall>c \<in> set (rn_pending_ops (ms_runner st)). \<not> is_web c)
      else r = Ok () \<and> st' = st" using assms(3) by (simp add: maybe_shut_down_def act_run)
  qed
qed

definition demo_idle :: "(demo_vm, nat) module_state" where
  "demo_idle = demo_done\<lparr>ms_predicted := 9000000000000\<rparr>"

theorem shut_down_conditions_witness:
  "ms_wasm_work (snd (maybe_shut_down True demo_host_env 2000000000 demo_idle)) = Some (Fresh Uninstantiate)"
proof -
  have h: "runner_inv (ms_runner demo_idle)" "ms_wasm_work demo_idle = None"
    using runner_inv_new by (simp_all add: demo_idle_def demo_done_def demo_woken_def)
  have c: "\<not> ms_uninstantiating demo_idle" "rn_nr_web_calls (ms_runner demo_idle) = 0"
    "1001 * 1000000 \<le> 2000000000 - ms_last_event_time demo_idle" "ms_predicted demo_idle = 9000000000000"
    by (simp_all add: demo_idle_def demo_done_def demo_woken_def demo_defs)
  obtain r st' where m: "maybe_shut_down True demo_host_env 2000000000 demo_idle = (r, st')" by (rule prod.exhaust)
  from shut_down_conditions [OF h m] c m show ?thesis by simp
qed

text \<open>The periods around a predicted time, in nanoseconds. Both the period before and the period of
  grace leave out the millisecond next to the predicted time itself, since a difference is
  counted in whole milliseconds and has to be positive: during the two milliseconds around
  the predicted time an idle instance counts as if no event were expected.\<close>

theorem prediction_periods:
  "(in_time_before_prediction_period now predicted \<longleftrightarrow> 1000000 \<le> predicted - now \<and> predicted - now < 1000 * 1000000) \<and>
   (in_time_grace_period now predicted \<longleftrightarrow> 1000000 \<le> now - predicted \<and> now - predicted < 1000 * 1000000) \<and>
   (is_inactive_period now last_event \<longleftrightarrow> 1001 * 1000000 \<le> now - last_event) \<and>
   (\<not> in_time_before_prediction_period now predicted \<and> \<not> in_time_grace_period now predicted \<longleftrightarrow>
      \<bar>now - predicted\<bar> < 1000000 \<or> 1000 * 1000000 \<le> \<bar>now - predicted\<bar>)"
  using in_time_before_iff [of now predicted] in_time_grace_iff [of now predicted] is_inactive_iff [of now last_event]
  by (simp only: abs_if) auto

section \<open>The host\<close>

text \<open>C4: In every state of the host that can be reached by starting modules and polling them in any
  order, the permits left and the instances in memory add up to the size of the pool, so there
  are never more instances than that; the modules have different swap files; and every module
  satisfies the invariant of its event loop.\<close>

theorem pool_bounded:
  assumes "host_run cu b V E su H" "engine_ok V"
  shows "ho_permits H + all_instances H = POOL_SIZE cu \<and> all_instances H \<le> POOL_SIZE cu \<and>
    distinct (map ms_swap_path (ho_modules H)) \<and> (\<forall>st \<in> set (ho_modules H). module_ok V (share H st))"
  using host_run_inv [OF assms] by (auto simp: host_inv_def)

theorem pool_bounded_witness:
  "\<exists>H :: (demo_vm, nat) host. length (ho_modules H) = 1 \<and> ho_permits H + all_instances H = 100"
proof -
  obtain H where H: "length (ho_modules H) = 1" "host_run True Debug demo_engine demo_host_env demo_setup H"
    by (rule demo_host_run)
  from pool_bounded [OF H(2) demo_engine_ok] H(1) show ?thesis
    by (intro exI [of _ H]) (simp add: POOL_SIZE_def)
qed

text \<open>The cache of compiled modules, for a hash without collisions. If the cache holds compiled code
  under the names it should, then on success the file named is there and
  holds the compiled form of the module's bytes; a file that is there already is not written
  again; no other file changes; and the cache still holds what it should, unless the write of a file that was not there
  failed: what that leaves in the file is taken for compiled code from then on.\<close>

theorem cache_precompile_correct:
  assumes "inj hash" "cache_ok hash pc dir files" "cache_precompile hash pc write_ok torn wasm_path dir files = (r, files')"
  shows "case r of
       Ok file \<Rightarrow> cache_ok hash pc dir files' \<and> (\<exists>bytes compiled. files wasm_path = Some bytes \<and> file = cache_file hash dir bytes \<and>
         pc bytes = Some compiled \<and> files' file = Some compiled \<and> (files file \<noteq> None \<longrightarrow> files' = files) \<and>
         (\<forall>p. p \<noteq> file \<longrightarrow> files' p = files p))
     | Err _ \<Rightarrow> files' = files \<or> (\<exists>bytes. files wasm_path = Some bytes \<and> files (cache_file hash dir bytes) = None \<and>
         \<not> write_ok (cache_file hash dir bytes) \<and> files' = files(cache_file hash dir bytes := torn (cache_file hash dir bytes)))
     | Panic _ \<Rightarrow> False"
  using assms(3)
proof (cases rule: cache_precompile_cases)
  case (compiled bytes compiled)
  then show ?thesis using assms(1,2) by (auto simp: cache_ok_def cache_file_inj)
qed (use assms(1,2) in \<open>auto simp: cache_ok_def\<close>)

definition demo_hash :: "u8 list \<Rightarrow> string" where
  "demo_hash = map (\<lambda>b. char_of (unat b))"

lemma demo_hash_inj: "inj demo_hash"
proof -
  have "inj (\<lambda>b :: u8. char_of (unat b) :: char)"
  proof (rule injI)
    fix x y :: u8 assume "(char_of (unat x) :: char) = char_of (unat y)"
    then have "unat x mod 256 = unat y mod 256" by (metis of_char_of)
    moreover have "unat z < 256" for z :: u8 using unsigned_less [of z, where 'a = nat] by simp
    ultimately show "x = y" by (simp add: word_unat_eq_iff)
  qed
  then show ?thesis unfolding demo_hash_def by (rule inj_mapI)
qed

theorem cache_precompile_correct_witness:
  "\<exists>files'. cache_precompile demo_hash Some (\<lambda>p. True) (\<lambda>p. None) ''m'' ''c'' [''m'' \<mapsto> [7]] =
     (Ok (cache_file demo_hash ''c'' [7]), files') \<and> files' (cache_file demo_hash ''c'' [7]) = Some [7]"
proof -
  have n: "cache_file demo_hash ''c'' b \<noteq> ''m''" for b by (simp add: cache_file_def path_join_def)
  have "cache_precompile demo_hash Some (\<lambda>p. True) (\<lambda>p. None) ''m'' ''c'' [''m'' \<mapsto> [7]] =
     (Ok (cache_file demo_hash ''c'' [7]), [''m'' \<mapsto> [7], cache_file demo_hash ''c'' [7] \<mapsto> [7]])"
    using n by (simp add: cache_precompile_def act_bind_def act_run Let_def)
  from cache_precompile_correct [OF demo_hash_inj _ this] this show ?thesis
    using n by (auto simp: cache_ok_def)
qed

text \<open>C34: Loading the list of modules splits the configuration at the lines that start a new document: the
  pieces, joined again by the separator, are the whole text, and no piece contains the
  separator. The modules are those of the documents that the parser accepts, in their order; a
  document that the parser finds empty is passed over, and any other that it does not accept
  makes the whole an error, as does a missing file.\<close>

theorem load_modules_correct:
  "case read_to_string (path_join dir ''wasm_config.yaml'') of
     None \<Rightarrow> load_modules_from_dir from_str read_to_string dir = Err File_Error
   | Some config \<Rightarrow>
       \<exists>docs. join_with (CHR 0x0A # ''---'') docs = config \<and> (\<forall>doc \<in> set docs. \<not> contains (CHR 0x0A # ''---'') doc) \<and>
         load_modules_from_dir from_str read_to_string dir =
           (if \<exists>doc \<in> set docs. \<exists>err. from_str doc = Inl err \<and> \<not> contains ''EOF while parsing a value'' err
            then Err Yaml_Error
            else Ok (map projr (filter (\<lambda>p. \<not> isl p) (map from_str docs))))"
proof (cases "read_to_string (path_join dir ''wasm_config.yaml'')")
  case None
  then show ?thesis by (simp add: load_modules_from_dir_def)
next
  case (Some config)
  let ?docs = "split_on (CHR 0x0A # ''---'') [] config"
  have "join_with (CHR 0x0A # ''---'') ?docs = config" "\<forall>doc \<in> set ?docs. \<not> contains (CHR 0x0A # ''---'') doc"
    using split_on_join [of "CHR 0x0A # ''---''" "[]" config] split_on_free [of "CHR 0x0A # ''---''" "[]" config] by auto
  moreover have "load_modules_from_dir from_str read_to_string dir = collect_results (List.map_filter (yaml_doc from_str) ?docs)"
    using Some by (simp add: load_modules_from_dir_def)
  ultimately show ?thesis using Some unfolding collect_docs by auto
qed

definition demo_yaml :: yaml where
  "demo_yaml doc = (if doc = ''ring'' then Inr demo_meta else Inl ''EOF while parsing a value at line 1'')"

theorem load_modules_correct_witness:
  "\<exists>docs. join_with (CHR 0x0A # ''---'') docs = ''ring'' @ CHR 0x0A # ''---'' \<and>
     load_modules_from_dir demo_yaml (\<lambda>p. Some (''ring'' @ CHR 0x0A # ''---'')) ''.'' =
       Ok (map projr (filter (\<lambda>p. \<not> isl p) (map demo_yaml docs)))"
proof -
  have "contains ''EOF while parsing a value'' ''EOF while parsing a value at line 1''" by code_simp
  then show ?thesis
    using load_modules_correct [where read_to_string = "\<lambda>p. Some (''ring'' @ CHR 0x0A # ''---'')" and dir = "''.''" and from_str = demo_yaml]
    by (auto simp: demo_yaml_def split: if_splits)
qed

end
