(* ===== verification/Http_Data.thy ===== *)
theory Http_Data
  imports Ops_Runner
begin

text \<open>
  The two ends of a request: the data that crosses the boundary between a controller and the
  host (\<open>http_data.rs\<close>, which both have), and the executor that sends a request to the cluster
  (\<open>request_executor.rs\<close>). A header map is the list of its pairs in the order of iteration, and
  adding a header appends one. Methods, texts and header values are strings; building a URI from
  its parts, the service and the serialization are parameters.
\<close>

type_synonym headers = "(string \<times> string) list"

record uri =
  uri_scheme :: "string option"
  uri_authority :: "string option"
  uri_path_and_query :: "string option"

text \<open>\<open>http::Request\<close> and \<open>http::Response\<close>.\<close>

record 'body request =
  rq_method :: string
  rq_uri :: uri
  rq_version :: string
  rq_headers :: headers
  rq_body :: 'body

record 'body http_response =
  rs_status :: nat
  rs_headers :: headers
  rs_body :: 'body

text \<open>The data that are serialized.\<close>

record 'body http_request =
  hr_method :: string
  hr_uri :: uri
  hr_headers :: headers
  hr_body :: 'body

record response_meta =
  rm_status_code :: nat
  rm_headers :: headers

section \<open>Conversions\<close>

definition add_headers :: "headers \<Rightarrow> headers \<Rightarrow> headers" where
  "add_headers hs = foldl (\<lambda>builder (h, v). builder @ [(h, v)])  hs"

definition http_request_from :: "'body request \<Rightarrow> 'body http_request" where
  "http_request_from req =
     \<lparr>hr_method = rq_method req, hr_uri = rq_uri req, hr_headers = rq_headers req, hr_body = rq_body req\<rparr>"

text \<open>A new builder has the version HTTP/1.1 and no headers.\<close>

definition request_from :: "'body http_request \<Rightarrow> 'body request" where
  "request_from req =
     \<lparr>rq_method = hr_method req, rq_uri = hr_uri req, rq_version = ''HTTP/1.1'',
      rq_headers = add_headers [] (hr_headers req), rq_body = hr_body req\<rparr>"

definition meta_into :: "response_meta \<Rightarrow> 'body \<Rightarrow> 'body http_response" where
  "meta_into meta body =
     \<lparr>rs_status = rm_status_code meta, rs_headers = add_headers [] (rm_headers meta), rs_body = body\<rparr>"

text \<open>
  Each side has its own copy of the file, and so the conversion that only the other one uses: the host's from a
  request and into a response, the controller's into a request.
\<close>

definition host_http_request_from :: "'body request \<Rightarrow> 'body http_request" where
  "host_http_request_from req =
     \<lparr>hr_method = rq_method req, hr_uri = rq_uri req, hr_headers = rq_headers req, hr_body = rq_body req\<rparr>"

definition host_meta_into :: "response_meta \<Rightarrow> 'body \<Rightarrow> 'body http_response" where
  "host_meta_into meta body =
     \<lparr>rs_status = rm_status_code meta, rs_headers = add_headers [] (rm_headers meta), rs_body = body\<rparr>"

definition guest_request_from :: "'body http_request \<Rightarrow> 'body request" where
  "guest_request_from req =
     \<lparr>rq_method = hr_method req, rq_uri = hr_uri req, rq_version = ''HTTP/1.1'',
      rq_headers = add_headers [] (hr_headers req), rq_body = hr_body req\<rparr>"

lemma copies_agree:
  "host_http_request_from = http_request_from" "host_meta_into = meta_into" "guest_request_from = request_from"
  by (simp_all add: fun_eq_iff host_http_request_from_def http_request_from_def host_meta_into_def meta_into_def
      guest_request_from_def request_from_def)

section \<open>The executor\<close>

definition generate_url :: "(uri \<Rightarrow> uri option) \<Rightarrow> uri \<Rightarrow> string \<Rightarrow> uri outcome" where
  "generate_url from_parts cluster_url request_p_and_q =
     or_panic (from_parts (cluster_url\<lparr>uri_path_and_query := Some request_p_and_q\<rparr>)) Expect_Failed"

text \<open>The service yields the head of its response and the chunks of the body.\<close>

type_synonym service = "u8 list request \<Rightarrow> u8 list option list http_response option"

definition start_request_executor ::
  "(uri \<Rightarrow> uri option) \<Rightarrow> uri \<Rightarrow> service \<Rightarrow> u8 list request \<Rightarrow> (response_meta \<times> u8 list option list) outcome" where
  "start_request_executor from_parts cluster_url service request =
     obind (or_panic (uri_path_and_query (rq_uri request)) Unwrap_None) (\<lambda>p_and_q.
     obind (generate_url from_parts cluster_url p_and_q) (\<lambda>url.
     obind (or_err (service (request\<lparr>rq_uri := url\<rparr>)) Service_Error) (\<lambda>response.
     Ok (\<lparr>rm_status_code = rs_status response, rm_headers = add_headers [] (rs_headers response)\<rparr>, rs_body response))))"

text \<open>What an operation of the runner sees of it.\<close>

definition net_answer ::
  "(response_meta \<Rightarrow> u8 list option) \<Rightarrow> (uri \<Rightarrow> uri option) \<Rightarrow> uri \<Rightarrow> service \<Rightarrow> u8 list http_request \<Rightarrow> response outcome" where
  "net_answer serialize from_parts cluster_url service req =
     (case start_request_executor from_parts cluster_url service (request_from req) of
        Ok (meta, chunks) \<Rightarrow> Ok (Some (serialize meta, chunks))
      | Err e \<Rightarrow> Ok None
      | Panic p \<Rightarrow> Panic p)"

section \<open>Nothing is lost\<close>

lemma add_headers_append [simp]: "add_headers hs xs = hs @ xs"
  by (induction xs arbitrary: hs) (auto simp: add_headers_def)

lemma request_roundtrip:
  "http_request_from (request_from req) = req" "rq_version r = ''HTTP/1.1'' \<Longrightarrow> request_from (http_request_from r) = r"
  by (simp_all add: http_request_from_def request_from_def)

lemma net_answer_ok:
  assumes "uri_path_and_query (hr_uri req) = Some p" "from_parts (cluster_url\<lparr>uri_path_and_query := Some p\<rparr>) = Some url"
    "service ((request_from req)\<lparr>rq_uri := url\<rparr>) = Some resp"
  shows "net_answer serialize from_parts cluster_url service req =
    Ok (Some (serialize \<lparr>rm_status_code = rs_status resp, rm_headers = rs_headers resp\<rparr>, rs_body resp))"
  using assms by (simp add: net_answer_def start_request_executor_def generate_url_def request_from_def)

end
