(* ===== verification/Guest.thy ===== *)
theory Guest
  imports Http_Data
begin

text \<open>
  The controller's side (\<open>kube-runtime-abi\<close>): the table of results that are awaited, the cell each
  of them shares with the future that awaits it, and the functions that make a request
  (\<open>executor.rs\<close>, \<open>requestor.rs\<close>). Cells are shared, so they are kept in a store; a waker is that of
  a task of the executor, or one that does nothing. The tasks are the controller's own code: a
  poll of the executor is a parameter.
\<close>

datatype waker = Noop_Waker | Task_Waker nat

record async_state =
  as_has_value :: bool
  as_value :: "u8 list option"
  as_waker :: waker

record guest =
  gu_cells :: "async_state list"
  gu_pending :: "u64 \<Rightarrow> nat option"
  gu_woken :: "nat list"
  gu_spawner :: bool

datatype spawner_error = Spawner_Not_Initialized

definition guest_new :: guest where
  "guest_new = \<lparr>gu_cells = [], gu_pending = Map.empty, gu_woken = [], gu_spawner = False\<rparr>"

definition get_mut_executor :: "guest \<Rightarrow> guest" where
  "get_mut_executor G = G\<lparr>gu_spawner := True\<rparr>"

definition get_spawner :: "guest \<Rightarrow> spawner_error + unit" where
  "get_spawner G = (if gu_spawner G then Inr () else Inl Spawner_Not_Initialized)"

definition spawner_error_display :: "spawner_error \<Rightarrow> string" where
  "spawner_error_display e = (case e of Spawner_Not_Initialized \<Rightarrow> ''The spawner is not initialized.'')"

section \<open>Cells\<close>

definition start_async :: "u64 \<Rightarrow> guest \<Rightarrow> nat \<times> guest" where
  "start_async future_id G =
     (length (gu_cells G),
      G\<lparr>gu_cells := gu_cells G @ [\<lparr>as_has_value = False, as_value = None, as_waker = Noop_Waker\<rparr>],
        gu_pending := (gu_pending G)(future_id := Some (length (gu_cells G)))\<rparr>)"

definition wake_task :: "waker \<Rightarrow> nat list \<Rightarrow> nat list" where
  "wake_task w woken = (case w of Noop_Waker \<Rightarrow> woken | Task_Waker t \<Rightarrow> woken @ [t])"

text \<open>A null pointer is no value.\<close>

definition deliver :: "u64 \<Rightarrow> u32 \<Rightarrow> u8 list option \<Rightarrow> guest \<Rightarrow> guest outcome" where
  "deliver stream_id finished val G =
     obind (or_panic (gu_pending G stream_id) Unwrap_None) (\<lambda>a.
     let state = gu_cells G ! a;
         state = (if val \<noteq> None then state\<lparr>as_value := val\<rparr> else state);
         state = state\<lparr>as_has_value := True\<rparr>;
         G = G\<lparr>gu_cells := (gu_cells G)[a := state], gu_woken := wake_task (as_waker state) (gu_woken G)\<rparr>
     in Ok (if finished = 1 then G\<lparr>gu_pending := (gu_pending G)(stream_id := None)\<rparr> else G))"

text \<open>The run of the tasks yields what the caller needs of it.\<close>

definition guest_wakeup :: "(guest \<Rightarrow> 'a outcome) \<Rightarrow> u64 \<Rightarrow> u32 \<Rightarrow> u8 list option \<Rightarrow> guest \<Rightarrow> 'a outcome" where
  "guest_wakeup run_until_stalled stream_id finished val G =
     obind (deliver stream_id finished val G) (\<lambda>G. run_until_stalled (get_mut_executor G))"

text \<open>\<open>poll\<close> and \<open>poll_next\<close> of a cell do the same; \<open>AbiAsync\<close> passes them on.\<close>

definition async_poll :: "waker \<Rightarrow> async_state \<Rightarrow> u8 list option poll \<times> async_state" where
  "async_poll cx state =
     (if as_has_value state then (Ready (as_value state), state\<lparr>as_has_value := False, as_value := None\<rparr>)
      else (Pending, state\<lparr>as_waker := cx\<rparr>))"

definition async_poll_next :: "waker \<Rightarrow> async_state \<Rightarrow> u8 list option poll \<times> async_state" where
  "async_poll_next cx state =
     (if as_has_value state then (Ready (as_value state), state\<lparr>as_has_value := False, as_value := None\<rparr>)
      else (Pending, state\<lparr>as_waker := cx\<rparr>))"

definition abi_poll :: "nat \<Rightarrow> waker \<Rightarrow> guest \<Rightarrow> u8 list option poll \<times> guest" where
  "abi_poll a cx G = (let (p, state) = async_poll cx (gu_cells G ! a) in (p, G\<lparr>gu_cells := (gu_cells G)[a := state]\<rparr>))"

definition abi_poll_next :: "nat \<Rightarrow> waker \<Rightarrow> guest \<Rightarrow> u8 list option poll \<times> guest" where
  "abi_poll_next a cx G = (let (p, state) = async_poll_next cx (gu_cells G ! a) in (p, G\<lparr>gu_cells := (gu_cells G)[a := state]\<rparr>))"

section \<open>Requests\<close>

text \<open>
  The futures of \<open>execute_request\<close> and \<open>execute_request_stream\<close> from the moment the request has
  been passed to the host: they wait for the head, then the first one waits for the body.
\<close>

datatype fetch = Await_Head nat | Await_Body nat response_meta

text \<open>Both begin alike: the request is handed over under the identifier the host gives.\<close>

definition send_request :: "(u8 list http_request \<Rightarrow> u8 list) \<Rightarrow> (u8 list \<Rightarrow> bool \<Rightarrow> u64) \<Rightarrow> bool \<Rightarrow> u8 list request \<Rightarrow> guest \<Rightarrow> fetch \<times> guest" where
  "send_request serialize request stream req G =
     (let async_request_id = request (serialize (http_request_from req)) stream;
          (a, G) = start_async async_request_id G
      in (Await_Head a, G))"

definition take_head :: "(u8 list \<Rightarrow> response_meta option) \<Rightarrow> u8 list option \<Rightarrow> response_meta outcome" where
  "take_head deserialize val = obind (or_panic val Unwrap_None) (\<lambda>response_raw. or_panic (deserialize response_raw) Unwrap_None)"

definition poll_body :: "waker \<Rightarrow> nat \<Rightarrow> response_meta \<Rightarrow> guest \<Rightarrow> ((u8 list http_response + fetch) \<times> guest) outcome" where
  "poll_body cx a response G = (case abi_poll a cx G of
     (Pending, G) \<Rightarrow> Ok (Inr (Await_Body a response), G)
   | (Ready val, G) \<Rightarrow> obind (or_panic val Unwrap_None) (\<lambda>body. Ok (Inl (meta_into response body), G)))"

definition execute_request :: "(u8 list \<Rightarrow> response_meta option) \<Rightarrow> waker \<Rightarrow> fetch \<Rightarrow> guest \<Rightarrow>
    ((u8 list http_response + fetch) \<times> guest) outcome" where
  "execute_request deserialize cx stage G = (case stage of
     Await_Head a \<Rightarrow> (case abi_poll a cx G of
         (Pending, G) \<Rightarrow> Ok (Inr (Await_Head a), G)
       | (Ready val, G) \<Rightarrow> obind (take_head deserialize val) (\<lambda>response. poll_body cx a response G))
   | Await_Body a response \<Rightarrow> poll_body cx a response G)"

text \<open>The body of a streamed response is the cell itself, which is polled for chunks.\<close>

definition execute_request_stream :: "(u8 list \<Rightarrow> response_meta option) \<Rightarrow> waker \<Rightarrow> fetch \<Rightarrow> guest \<Rightarrow>
    ((nat http_response + fetch) \<times> guest) outcome" where
  "execute_request_stream deserialize cx stage G = (case stage of
     Await_Head a \<Rightarrow> (case abi_poll a cx G of
         (Pending, G) \<Rightarrow> Ok (Inr (Await_Head a), G)
       | (Ready val, G) \<Rightarrow> obind (take_head deserialize val) (\<lambda>response. Ok (Inl (meta_into response a), G)))
   | Await_Body a response \<Rightarrow> Ok (Inr stage, G))"

section \<open>A cell in use\<close>

definition cell_of :: "guest \<Rightarrow> u64 \<Rightarrow> nat \<Rightarrow> async_state \<Rightarrow> bool" where
  "cell_of G i a state \<longleftrightarrow> gu_pending G i = Some a \<and> a < length (gu_cells G) \<and> gu_cells G ! a = state"

lemma start_async_cell:
  assumes "start_async i G = (a, G')"
  shows "cell_of G' i a \<lparr>as_has_value = False, as_value = None, as_waker = Noop_Waker\<rparr>"
  using assms by (auto simp: start_async_def cell_of_def)

lemma deliver_cell:
  assumes "cell_of G i a state" "finished \<noteq> 1"
  obtains G' where "deliver i finished val G = Ok G'"
    "cell_of G' i a (state\<lparr>as_has_value := True, as_value := if val = None then as_value state else val\<rparr>)"
    "gu_woken G' = wake_task (as_waker state) (gu_woken G)"
  using assms that by (auto simp: deliver_def cell_of_def Let_def)

lemma deliver_last:
  assumes "cell_of G i a state"
  obtains G' where "deliver i 1 val G = Ok G'" "gu_pending G' i = None" "a < length (gu_cells G')"
    "gu_cells G' ! a = state\<lparr>as_has_value := True, as_value := if val = None then as_value state else val\<rparr>"
    "gu_woken G' = wake_task (as_waker state) (gu_woken G)"
  using assms that by (auto simp: deliver_def cell_of_def Let_def)

end
