(* ===== verification/Guest_Spec.thy ===== *)
theory Guest_Spec
  imports Guest Runner_Correct
begin

text \<open>What a controller sees of its requests, from the host's operation to its own future.\<close>

text \<open>The task that awaits is polled after each delivery, as its waker asks.\<close>

fun drive_request :: "(u8 list \<Rightarrow> response_meta option) \<Rightarrow> waker \<Rightarrow> async_result list \<Rightarrow> fetch \<Rightarrow> guest \<Rightarrow>
    ((u8 list http_response + fetch) \<times> guest) outcome" where
  "drive_request deserialize cx [] stage G = Ok (Inr stage, G)"
| "drive_request deserialize cx (r # rs) stage G =
     obind (deliver (ar_id r) (if ar_finished r then 1 else 0) (ar_value r) G) (\<lambda>G.
     obind (execute_request deserialize cx stage G) (\<lambda>(p, G).
     case p of Inl response \<Rightarrow> Ok (Inl response, G) | Inr stage \<Rightarrow> drive_request deserialize cx rs stage G))"

fun drive_stream :: "waker \<Rightarrow> nat \<Rightarrow> async_result list \<Rightarrow> guest \<Rightarrow> (u8 list option poll list \<times> guest) outcome" where
  "drive_stream cx a [] G = Ok ([], G)"
| "drive_stream cx a (r # rs) G =
     obind (deliver (ar_id r) (if ar_finished r then 1 else 0) (ar_value r) G) (\<lambda>G.
     let (p, G) = abi_poll_next a cx G in
     obind (drive_stream cx a rs G) (\<lambda>(ps, G). Ok (p # ps, G)))"

lemma abi_poll_full:
  assumes "a < length (gu_cells G)" "gu_cells G ! a = state" "as_has_value state"
  shows "abi_poll a cx G = (Ready (as_value state), G\<lparr>gu_cells := (gu_cells G)[a := state\<lparr>as_has_value := False, as_value := None\<rparr>]\<rparr>)"
  using assms by (simp add: abi_poll_def async_poll_def)

lemma abi_poll_empty:
  assumes "a < length (gu_cells G)" "gu_cells G ! a = state" "\<not> as_has_value state"
  shows "abi_poll a cx G = (Pending, G\<lparr>gu_cells := (gu_cells G)[a := state\<lparr>as_waker := cx\<rparr>]\<rparr>)"
  using assms by (simp add: abi_poll_def async_poll_def)

lemma poll_next_same: "abi_poll_next = abi_poll"
  by (simp add: fun_eq_iff abi_poll_def abi_poll_next_def async_poll_def async_poll_next_def)

definition empty_cell :: "guest \<Rightarrow> u64 \<Rightarrow> nat \<Rightarrow> bool" where
  "empty_cell G i a \<longleftrightarrow> (\<exists>state. cell_of G i a state \<and> \<not> as_has_value state \<and> as_value state = None)"

text \<open>One delivery to an empty cell, and the poll that follows.\<close>

lemma deliver_poll:
  assumes "empty_cell G i a"
  obtains G1 G2 where "deliver i 0 val G = Ok G1" "abi_poll a cx G1 = (Ready val, G2)" "empty_cell G2 i a"
proof -
  obtain state where s: "cell_of G i a state" "\<not> as_has_value state" "as_value state = None"
    using assms by (auto simp: empty_cell_def)
  let ?full = "state\<lparr>as_has_value := True, as_value := if val = None then as_value state else val\<rparr>"
  have "(0 :: u32) \<noteq> 1" by simp
  from deliver_cell [OF s(1) this, of val] obtain G1 where d: "deliver i 0 val G = Ok G1" and c: "cell_of G1 i a ?full"
    by metis
  have v: "as_value ?full = val" using s(3) by simp
  let ?G2 = "G1\<lparr>gu_cells := (gu_cells G1)[a := ?full\<lparr>as_has_value := False, as_value := None\<rparr>]\<rparr>"
  have "abi_poll a cx G1 = (Ready val, ?G2)" using abi_poll_full [of a G1 ?full cx] c v by (simp add: cell_of_def)
  moreover have "empty_cell ?G2 i a" using c by (auto simp: empty_cell_def cell_of_def)
  ultimately show thesis using that d by blast
qed

lemma deliver_poll_last:
  assumes "empty_cell G i a"
  obtains G1 G2 where "deliver i 1 val G = Ok G1" "abi_poll a cx G1 = (Ready val, G2)" "gu_pending G2 i = None"
proof -
  obtain state where s: "cell_of G i a state" "\<not> as_has_value state" "as_value state = None"
    using assms by (auto simp: empty_cell_def)
  let ?full = "state\<lparr>as_has_value := True, as_value := if val = None then as_value state else val\<rparr>"
  from deliver_last [OF s(1), of val] obtain G1 where d: "deliver i 1 val G = Ok G1" "gu_pending G1 i = None"
    "a < length (gu_cells G1)" "gu_cells G1 ! a = ?full"
    by metis
  then show thesis using that [OF d(1)] abi_poll_full [OF d(3,4), of cx] s(3) by simp
qed

lemma poll_again:
  assumes "abi_poll a cx G = (Ready val, G')" "a < length (gu_cells G)"
  shows "abi_poll a cx G' = (Pending, G'\<lparr>gu_cells := (gu_cells G')[a := (gu_cells G' ! a)\<lparr>as_waker := cx\<rparr>]\<rparr>)"
  using assms by (auto simp: abi_poll_def async_poll_def Let_def split: if_splits)

lemma drive_stream_all:
  assumes "empty_cell G i a"
  shows "\<exists>G'. drive_stream cx a (map (\<lambda>c. \<lparr>ar_id = i, ar_value = Some c, ar_finished = False\<rparr>) chunks @
      [\<lparr>ar_id = i, ar_value = None, ar_finished = True\<rparr>]) G = Ok (map (\<lambda>c. Ready (Some c)) chunks @ [Ready None], G')"
  using assms
proof (induction chunks arbitrary: G)
  case Nil
  obtain G1 G2 where "deliver i 1 None G = Ok G1" "abi_poll a cx G1 = (Ready None, G2)" "gu_pending G2 i = None"
    by (rule deliver_poll_last [OF Nil])
  then show ?case by (simp add: poll_next_same)
next
  case (Cons c chunks)
  obtain G1 G2 where 1: "deliver i 0 (Some c) G = Ok G1" "abi_poll a cx G1 = (Ready (Some c), G2)" "empty_cell G2 i a"
    by (rule deliver_poll [OF Cons.prems])
  then show ?case using Cons.IH [OF 1(3)] by (auto simp: poll_next_same)
qed

text \<open>Two deliveries without a poll in between.\<close>

lemma overwritten_chunk:
  assumes "empty_cell G i a"
  shows "\<exists>G1 G2 G3 G4. deliver i 0 (Some c1) G = Ok G1 \<and> deliver i 0 (Some c2) G1 = Ok G2 \<and>
    abi_poll_next a cx G2 = (Ready (Some c2), G3) \<and> abi_poll_next a cx G3 = (Pending, G4)"
proof -
  have ne: "(0 :: u32) \<noteq> 1" by simp
  obtain state where s: "cell_of G i a state" using assms by (auto simp: empty_cell_def)
  obtain G1 where 1: "deliver i 0 (Some c1) G = Ok G1" "cell_of G1 i a (state\<lparr>as_has_value := True, as_value := Some c1\<rparr>)"
    using deliver_cell [OF s ne, of "Some c1"] by auto
  obtain G2 where 2: "deliver i 0 (Some c2) G1 = Ok G2" "cell_of G2 i a (state\<lparr>as_has_value := True, as_value := Some c2\<rparr>)"
    using deliver_cell [OF 1(2) ne, of "Some c2"] by auto
  have l: "a < length (gu_cells G2)" using 2(2) by (simp add: cell_of_def)
  obtain G3 where "abi_poll a cx G2 = (Ready (Some c2), G3)"
    using abi_poll_full [OF l, of _ cx] 2(2) by (auto simp: cell_of_def)
  then show ?thesis using 1(1) 2(1) poll_again [of a cx G2 "Some c2" G3] l by (auto simp: poll_next_same)
qed

lemma overwritten_end:
  assumes "empty_cell G i a"
  shows "\<exists>G1 G2 G3 G4. deliver i 0 (Some c1) G = Ok G1 \<and> deliver i 1 None G1 = Ok G2 \<and>
    abi_poll_next a cx G2 = (Ready (Some c1), G3) \<and> abi_poll_next a cx G3 = (Pending, G4) \<and> gu_pending G4 i = None"
proof -
  have ne: "(0 :: u32) \<noteq> 1" by simp
  obtain state where s: "cell_of G i a state" using assms by (auto simp: empty_cell_def)
  obtain G1 where 1: "deliver i 0 (Some c1) G = Ok G1" "cell_of G1 i a (state\<lparr>as_has_value := True, as_value := Some c1\<rparr>)"
    using deliver_cell [OF s ne, of "Some c1"] by auto
  obtain G2 where 2: "deliver i 1 None G1 = Ok G2" "gu_pending G2 i = None" "a < length (gu_cells G2)"
    "gu_cells G2 ! a = state\<lparr>as_has_value := True, as_value := Some c1\<rparr>"
    using deliver_last [OF 1(2), of None] by auto
  obtain G3 where 3: "abi_poll a cx G2 = (Ready (Some c1), G3)" "gu_pending G3 i = None"
    using abi_poll_full [OF 2(3,4), of cx] 2(2) by auto
  then show ?thesis using 1(1) 2(1) poll_again [of a cx G2 "Some c1" G3] 2(3) by (auto simp: poll_next_same)
qed

section \<open>Requests\<close>

text \<open>C13: A plain request, end to end: if the cluster answers it, and the head survives serialization,
  then the host's operation, the results it sends, and the controller's future that is polled
  after each of them yield a response with the status, the headers and the whole body of the
  cluster's answer; and the request is no longer awaited.\<close>

theorem request_end_to_end:
  assumes "uri_path_and_query (hr_uri req) = Some p" "from_parts (cluster_url\<lparr>uri_path_and_query := Some p\<rparr>) = Some url"
    "service ((request_from req)\<lparr>rq_uri := url\<rparr>) = Some \<lparr>rs_status = status, rs_headers = hs, rs_body = map Some chunks\<rparr>"
    "serialize \<lparr>rm_status_code = status, rm_headers = hs\<rparr> = Some raw"
    "deserialize raw = Some \<lparr>rm_status_code = status, rm_headers = hs\<rparr>"
    "empty_cell G i a"
  shows "\<exists>answer G'. net_answer serialize from_parts cluster_url service req = Ok answer \<and>
    drive_request deserialize cx (op_posts (fst (request_op i (\<lambda>_ _. answer) (Http req)))) (Await_Head a) G =
      Ok (Inl \<lparr>rs_status = status, rs_headers = hs, rs_body = concat chunks\<rparr>, G') \<and>
    gu_pending G' i = None"
proof -
  let ?answer = "Some (Some raw, map Some chunks)"
  let ?meta = "\<lparr>rm_status_code = status, rm_headers = hs\<rparr>"
  have n: "net_answer serialize from_parts cluster_url service req = Ok ?answer"
    using net_answer_ok [where req = req and p = p and from_parts = from_parts and cluster_url = cluster_url and
        url = url and service = service and serialize = serialize] assms(1-4) by simp
  have posts: "op_posts (fst (request_op i (\<lambda>_ _. ?answer) (Http req))) =
      [\<lparr>ar_id = i, ar_value = Some raw, ar_finished = False\<rparr>, \<lparr>ar_id = i, ar_value = Some (concat chunks), ar_finished = True\<rparr>]"
    by (simp add: request_op_def http_op_def post_meta_def to_bytes_some)
  obtain G1 G2 where 1: "deliver i 0 (Some raw) G = Ok G1" "abi_poll a cx G1 = (Ready (Some raw), G2)" "empty_cell G2 i a"
    by (rule deliver_poll [OF assms(6)])
  obtain state where s: "cell_of G2 i a state" "\<not> as_has_value state" "as_value state = None"
    using 1(3) by (auto simp: empty_cell_def)
  let ?G3 = "G2\<lparr>gu_cells := (gu_cells G2)[a := state\<lparr>as_waker := cx\<rparr>]\<rparr>"
  have 2: "abi_poll a cx G2 = (Pending, ?G3)" using abi_poll_empty [of a G2 state cx] s by (simp add: cell_of_def)
  have "empty_cell ?G3 i a" using s by (auto simp: empty_cell_def cell_of_def)
  then obtain G4 G5 where 3: "deliver i 1 (Some (concat chunks)) ?G3 = Ok G4"
    "abi_poll a cx G4 = (Ready (Some (concat chunks)), G5)" "gu_pending G5 i = None"
    by (rule deliver_poll_last)
  have "drive_request deserialize cx (op_posts (fst (request_op i (\<lambda>_ _. ?answer) (Http req)))) (Await_Head a) G =
      Ok (Inl \<lparr>rs_status = status, rs_headers = hs, rs_body = concat chunks\<rparr>, G5)"
    using 1 2 3 assms(5) by (simp add: posts execute_request_def poll_body_def take_head_def meta_into_def)
  then show ?thesis using n 3(3) by blast
qed

text \<open>C29: A streamed body, seen by the controller. If the stream is polled after every delivery, it yields
  the chunks, in order, and then its end. But a cell holds one value: a chunk that arrives
  before the previous one was taken replaces it, which is then lost; and an end that arrives
  before the last chunk was taken is itself lost: the stream yields the chunk and then waits
  forever, since the request is not awaited any more.\<close>

theorem stream_delivery:
  assumes "empty_cell G i a"
  shows "(\<exists>G'. drive_stream cx a (map (\<lambda>c. \<lparr>ar_id = i, ar_value = Some c, ar_finished = False\<rparr>) chunks @
        [\<lparr>ar_id = i, ar_value = None, ar_finished = True\<rparr>]) G =
      Ok (map (\<lambda>c. Ready (Some c)) chunks @ [Ready None], G')) \<and>
    (\<exists>G1 G2 G3 G4. deliver i 0 (Some c1) G = Ok G1 \<and> deliver i 0 (Some c2) G1 = Ok G2 \<and>
      abi_poll_next a cx G2 = (Ready (Some c2), G3) \<and> abi_poll_next a cx G3 = (Pending, G4)) \<and>
    (\<exists>G1 G2 G3 G4. deliver i 0 (Some c1) G = Ok G1 \<and> deliver i 1 None G1 = Ok G2 \<and>
      abi_poll_next a cx G2 = (Ready (Some c1), G3) \<and> abi_poll_next a cx G3 = (Pending, G4) \<and> gu_pending G4 i = None)"
proof (intro conjI)
  show "\<exists>G'. drive_stream cx a (map (\<lambda>c. \<lparr>ar_id = i, ar_value = Some c, ar_finished = False\<rparr>) chunks @
      [\<lparr>ar_id = i, ar_value = None, ar_finished = True\<rparr>]) G = Ok (map (\<lambda>c. Ready (Some c)) chunks @ [Ready None], G')"
    using assms by (rule drive_stream_all)
qed (rule overwritten_chunk [OF assms], rule overwritten_end [OF assms])

definition demo_guest :: guest where
  "demo_guest = snd (start_async 7 guest_new)"

lemma demo_guest_cell: "empty_cell demo_guest 7 0"
  by (auto simp: demo_guest_def start_async_def guest_new_def empty_cell_def cell_of_def)

theorem stream_delivery_witness:
  "\<exists>G'. drive_stream (Task_Waker 1) 0 [\<lparr>ar_id = 7, ar_value = Some [2], ar_finished = False\<rparr>,
     \<lparr>ar_id = 7, ar_value = None, ar_finished = True\<rparr>] demo_guest = Ok ([Ready (Some [2]), Ready None], G')"
  using stream_delivery [OF demo_guest_cell, of "Task_Waker 1" "[[2]]" "[]" "[]"] by simp

definition demo_request :: "u8 list http_request" where
  "demo_request = \<lparr>hr_method = ''GET'', hr_uri = \<lparr>uri_scheme = None, uri_authority = None, uri_path_and_query = Some ''/api''\<rparr>,
     hr_headers = [], hr_body = []\<rparr>"

definition demo_service :: service where
  "demo_service r = Some \<lparr>rs_status = 200, rs_headers = [(''a'', ''1''), (''a'', ''2'')], rs_body = [Some [5], Some [6]]\<rparr>"

theorem request_end_to_end_witness:
  "\<exists>answer G'. drive_request (\<lambda>b. Some \<lparr>rm_status_code = 200, rm_headers = [(''a'', ''1''), (''a'', ''2'')]\<rparr>) (Task_Waker 1)
     (op_posts (fst (request_op 7 (\<lambda>_ _. answer) (Http demo_request)))) (Await_Head 0) demo_guest =
     Ok (Inl \<lparr>rs_status = 200, rs_headers = [(''a'', ''1''), (''a'', ''2'')], rs_body = [5, 6]\<rparr>, G')"
proof -
  let ?base = "\<lparr>uri_scheme = Some ''https'', uri_authority = Some ''k8s'', uri_path_and_query = None\<rparr> :: uri"
  let ?hs = "[(''a'', ''1''), (''a'', ''2'')]"
  have r: "uri_path_and_query (hr_uri demo_request) = Some ''/api''"
    "demo_service ((request_from demo_request)\<lparr>rq_uri := ?base\<lparr>uri_path_and_query := Some ''/api''\<rparr>\<rparr>) =
      Some \<lparr>rs_status = 200, rs_headers = ?hs, rs_body = map Some [[5], [6]]\<rparr>"
    by (simp_all add: demo_request_def demo_service_def)
  show ?thesis
    using request_end_to_end [where req = demo_request and p = "''/api''" and from_parts = Some and cluster_url = ?base
        and url = "?base\<lparr>uri_path_and_query := Some ''/api''\<rparr>" and service = demo_service and status = 200 and hs = ?hs
        and chunks = "[[5], [6]]" and serialize = "\<lambda>m. Some [1]" and raw = "[1]"
        and deserialize = "\<lambda>b. Some \<lparr>rm_status_code = 200, rm_headers = ?hs\<rparr>" and G = demo_guest and i = 7 and a = 0
        and cx = "Task_Waker 1"] r demo_guest_cell
    by auto
qed

end
