(* ===== verification/Reconcile.thy ===== *)
theory Reconcile
  imports Environment
begin

text \<open>
  The controllers that the measurements run (\<open>controllers/\<close>): each reacts to a change of a resource by
  writing another one. The API server is a parameter, a record of its operations on a state of
  the cluster; a nonce is a signed word of 64 bits, and a time a number.
\<close>

type_synonym i64 = "64 word"

record test_resource =
  tr_name :: string
  tr_nonce :: i64
  tr_updated_at :: "int option"

datatype kube_error = Api_Error nat | Other_Error

record 's api =
  api_get :: "string \<Rightarrow> string \<Rightarrow> 's \<Rightarrow> kube_error + test_resource"
  api_replace :: "string \<Rightarrow> string \<Rightarrow> test_resource \<Rightarrow> 's \<Rightarrow> (kube_error + unit) \<times> 's"
  api_create :: "string \<Rightarrow> test_resource \<Rightarrow> 's \<Rightarrow> (kube_error + unit) \<times> 's"

datatype controller_action = Await_Change | Requeue nat

text \<open>What a reconciliation or a change ends with; a panic ends the controller.\<close>

datatype 'a reply = Reply 'a | Kube_Error kube_error | Reply_Panic fault

definition answer :: "'a \<Rightarrow> (kube_error + unit) \<times> 's \<Rightarrow> 'a reply \<times> 's" where
  "answer x = (\<lambda>(r, s). (case r of Inr _ \<Rightarrow> Reply x | Inl e \<Rightarrow> Kube_Error e, s))"

definition error_policy :: "kube_error \<Rightarrow> controller_action" where
  "error_policy e = Requeue 1"

definition test_resource_new :: "string \<Rightarrow> i64 \<Rightarrow> int \<Rightarrow> test_resource" where
  "test_resource_new name nonce start_timestamp = \<lparr>tr_name = name, tr_nonce = nonce, tr_updated_at = Some start_timestamp\<rparr>"

text \<open>The memory that a controller holds on to, to be of a certain size.\<close>

definition huge_mem_alloc :: "nat \<Rightarrow> u8 list" where
  "huge_mem_alloc heap_mem_size = map (\<lambda>i. of_nat (i + 9)) [0..<heap_mem_size]"

definition i64_add :: "build \<Rightarrow> i64 \<Rightarrow> i64 \<Rightarrow> i64 option" where
  "i64_add b x y = (if b = Debug \<and> sint (x + y) \<noteq> sint x + sint y then None else Some (x + y))"

section \<open>Ring and comb\<close>

text \<open>\<open>ring-rust-controller\<close>: the resource in the output namespace follows the one that changed.\<close>

definition ring_reconcile :: "'s api \<Rightarrow> string \<Rightarrow> int \<Rightarrow> test_resource \<Rightarrow> 's \<Rightarrow> controller_action reply \<times> 's" where
  "ring_reconcile A out_namespace now_timestamp in_test_resource s =
     (let name = tr_name in_test_resource; nonce = tr_nonce in_test_resource in
      case api_get A out_namespace name s of
        Inr existing \<Rightarrow>
          if sint (tr_nonce existing) < sint nonce
          then answer Await_Change (api_replace A out_namespace (tr_name existing)
                 (existing\<lparr>tr_nonce := nonce, tr_updated_at := Some now_timestamp\<rparr>) s)
          else (Reply Await_Change, s)
      | Inl (Api_Error code) \<Rightarrow>
          if code = 404 then answer Await_Change (api_create A out_namespace (test_resource_new name nonce now_timestamp) s)
          else (Kube_Error (Api_Error code), s)
      | Inl e \<Rightarrow> (Kube_Error e, s))"

text \<open>
  \<open>comb-rust-controller\<close> runs several of them in one process, the output of each the input of the next.
  It has a policy and a constructor of its own.
\<close>

definition comb_error_policy :: "kube_error \<Rightarrow> controller_action" where
  "comb_error_policy e = Requeue 1"

definition comb_test_resource :: "string \<Rightarrow> i64 \<Rightarrow> int \<Rightarrow> test_resource" where
  "comb_test_resource name nonce start_timestamp = \<lparr>tr_name = name, tr_nonce = nonce, tr_updated_at = Some start_timestamp\<rparr>"

text \<open>
  A reconciliation asks the API server twice, and waits for each answer: it reads the resource in the output
  namespace, and then, unless that ends it, writes it. What other controllers do can come in between.
\<close>

datatype comb_put = Replace_With test_resource | Create_With test_resource

definition comb_read :: "'s api \<Rightarrow> string \<Rightarrow> int \<Rightarrow> test_resource \<Rightarrow> 's \<Rightarrow> controller_action reply + comb_put" where
  "comb_read A out_namespace now_timestamp in_test_resource s =
     (let name = tr_name in_test_resource; nonce = tr_nonce in_test_resource in
      case api_get A out_namespace name s of
        Inr existing \<Rightarrow>
          if sint (tr_nonce existing) < sint nonce
          then Inr (Replace_With (existing\<lparr>tr_nonce := nonce, tr_updated_at := Some now_timestamp\<rparr>))
          else Inl (Reply Await_Change)
      | Inl (Api_Error code) \<Rightarrow>
          if code = 404 then Inr (Create_With (comb_test_resource name nonce now_timestamp))
          else Inl (Kube_Error (Api_Error code))
      | Inl e \<Rightarrow> Inl (Kube_Error e))"

definition comb_write :: "'s api \<Rightarrow> string \<Rightarrow> comb_put \<Rightarrow> 's \<Rightarrow> controller_action reply \<times> 's" where
  "comb_write A out_namespace put s = (case put of
     Replace_With existing \<Rightarrow> answer Await_Change (api_replace A out_namespace (tr_name existing) existing s)
   | Create_With new \<Rightarrow> answer Await_Change (api_create A out_namespace new s))"

definition comb_reconcile :: "'s api \<Rightarrow> string \<Rightarrow> int \<Rightarrow> test_resource \<Rightarrow> 's \<Rightarrow> controller_action reply \<times> 's" where
  "comb_reconcile A out_namespace now_timestamp in_test_resource s =
     (case comb_read A out_namespace now_timestamp in_test_resource s of
        Inl reply \<Rightarrow> (reply, s)
      | Inr put \<Rightarrow> comb_write A out_namespace put s)"

definition comb_namespace :: "nat \<Rightarrow> string" where
  "comb_namespace i = ''native-rust-comb'' @ decimal i"

definition comb_controllers :: "nat \<Rightarrow> (string \<times> string) list" where
  "comb_controllers nr_operators = map (\<lambda>i. (comb_namespace i, comb_namespace (i + 1))) [0..<nr_operators]"

section \<open>Simple\<close>

definition CLUSTER_RESOURCE :: string where
  "CLUSTER_RESOURCE = ''cluster''"

text \<open>
  \<open>simple-rust-controller\<close> counts the other resources it sees in one of its own. An error of
  reading that one, other than that it is missing, is only printed.
\<close>

definition simple_error_policy :: "kube_error \<Rightarrow> controller_action" where
  "simple_error_policy e = Requeue 1"

definition simple_test_resource :: "string \<Rightarrow> i64 \<Rightarrow> int \<Rightarrow> test_resource" where
  "simple_test_resource name nonce start_timestamp = \<lparr>tr_name = name, tr_nonce = nonce, tr_updated_at = Some start_timestamp\<rparr>"

definition simple_reconcile :: "build \<Rightarrow> 's api \<Rightarrow> int \<Rightarrow> test_resource \<Rightarrow> 's \<Rightarrow> controller_action reply \<times> 's" where
  "simple_reconcile b A now_timestamp in_test_resource s =
     (if tr_name in_test_resource = CLUSTER_RESOURCE then (Reply Await_Change, s)
      else case api_get A ''default'' CLUSTER_RESOURCE s of
        Inr existing \<Rightarrow> (case i64_add b (tr_nonce existing) 1 of
            None \<Rightarrow> (Reply_Panic Overflow, s)
          | Some nonce \<Rightarrow> answer Await_Change (api_replace A ''default'' CLUSTER_RESOURCE
              (existing\<lparr>tr_nonce := nonce, tr_updated_at := Some now_timestamp\<rparr>) s))
      | Inl e \<Rightarrow>
          if e = Api_Error 404
          then answer Await_Change (api_create A ''default'' (simple_test_resource CLUSTER_RESOURCE 1 now_timestamp) s)
          else (Reply Await_Change, s))"

section \<open>The value changer\<close>

definition KUBESECRET :: string where
  "KUBESECRET = ''varsecret''"

definition secret_resource :: "string \<Rightarrow> i64 \<Rightarrow> int \<Rightarrow> test_resource" where
  "secret_resource name nonce start_timestamp = \<lparr>tr_name = name, tr_nonce = nonce, tr_updated_at = Some start_timestamp\<rparr>"

definition change_secret :: "build \<Rightarrow> 's api \<Rightarrow> int \<Rightarrow> 's \<Rightarrow> string reply \<times> 's" where
  "change_secret b A now_timestamp s = (case api_get A ''default'' KUBESECRET s of
     Inr existing \<Rightarrow> (case i64_add b (tr_nonce existing) 1 of
         None \<Rightarrow> (Reply_Panic Overflow, s)
       | Some nonce \<Rightarrow> answer ''ok'' (api_replace A ''default'' KUBESECRET (existing\<lparr>tr_nonce := nonce\<rparr>) s))
   | Inl e \<Rightarrow>
       if e = Api_Error 404
       then answer ''ok'' (api_create A ''default'' (secret_resource KUBESECRET 1 now_timestamp) s)
       else (Reply_Panic Expect_Failed, s))"

text \<open>The waiting times between the dates of a trace; the dates are parsed elsewhere.\<close>

fun interval_loop :: "int \<Rightarrow> int list \<Rightarrow> int list" where
  "interval_loop previous_duration [] = []"
| "interval_loop previous_duration (i # differences) = (i - previous_duration) # interval_loop i differences"

definition read_traces :: "(string \<Rightarrow> int option) \<Rightarrow> string list \<Rightarrow> int list outcome" where
  "read_traces parse_from_str records =
     (let parsed_dates = map parse_from_str records in
      if None \<in> set parsed_dates then Panic Expect_Failed
      else obind (ensure (1 < length parsed_dates) Assert_Failed) (\<lambda>_.
        let dates = map the parsed_dates;
            begin_date = hd dates;
            differences = map (\<lambda>x. x - begin_date) dates
        in Ok (interval_loop (hd differences) differences)))"

text \<open>
  The loop over the waiting times, with the readings of the clock that the changes make: a negative
  time cannot be slept, an error of the server is only printed.
\<close>

fun change_loop :: "build \<Rightarrow> 's api \<Rightarrow> (nat \<Rightarrow> int) \<Rightarrow> nat \<Rightarrow> int list \<Rightarrow> 's \<Rightarrow> unit reply \<times> 's" where
  "change_loop b A clock n [] s = (Reply (), s)"
| "change_loop b A clock n (duration # wait_intervals) s =
     (if duration < 0 then (Reply_Panic Expect_Failed, s)
      else case change_secret b A (clock n) s of
        (Reply_Panic p, s) \<Rightarrow> (Reply_Panic p, s)
      | (_, s) \<Rightarrow> change_loop b A clock (Suc n) wait_intervals s)"

section \<open>What the API server promises\<close>

text \<open>
  There is a view of the cluster, the resources by namespace and name: reading finds exactly
  what is there, a resource has the name it is found under, a write that succeeds puts its
  resource there and nothing else, and a write that fails has either changed nothing or been done all the
  same, as when its answer is lost.
\<close>

definition api_ok :: "'s api \<Rightarrow> ('s \<Rightarrow> string \<times> string \<Rightarrow> test_resource option) \<Rightarrow> bool" where
  "api_ok A view \<longleftrightarrow>
     (\<forall>ns name s r. view s (ns, name) = Some r \<longrightarrow> tr_name r = name) \<and>
     (\<forall>ns name s r. api_get A ns name s = Inr r \<longrightarrow> view s (ns, name) = Some r) \<and>
     (\<forall>ns name s. api_get A ns name s = Inl (Api_Error 404) \<longrightarrow> view s (ns, name) = None) \<and>
     (\<forall>ns name r s s'. api_replace A ns name r s = (Inr (), s') \<longrightarrow> view s' = (view s)((ns, name) \<mapsto> r)) \<and>
     (\<forall>ns name r s e s'. api_replace A ns name r s = (Inl e, s') \<longrightarrow> view s' = view s \<or> view s' = (view s)((ns, name) \<mapsto> r)) \<and>
     (\<forall>ns r s s'. api_create A ns r s = (Inr (), s') \<longrightarrow> view s' = (view s)((ns, tr_name r) \<mapsto> r)) \<and>
     (\<forall>ns r s e s'. api_create A ns r s = (Inl e, s') \<longrightarrow> view s' = view s \<or> view s' = (view s)((ns, tr_name r) \<mapsto> r))"

text \<open>The nonce of a resource, if it exists.\<close>

definition nonce_of :: "(string \<times> string \<Rightarrow> test_resource option) \<Rightarrow> string \<Rightarrow> string \<Rightarrow> int option" where
  "nonce_of v ns name = map_option (\<lambda>r. sint (tr_nonce r)) (v (ns, name))"

definition raised :: "int option \<Rightarrow> int \<Rightarrow> int option" where
  "raised v k = Some (case v of None \<Rightarrow> k | Some n \<Rightarrow> max n k)"

definition same_but :: "string \<times> string \<Rightarrow> (string \<times> string \<Rightarrow> test_resource option) \<Rightarrow>
    (string \<times> string \<Rightarrow> test_resource option) \<Rightarrow> bool" where
  "same_but k v v' \<longleftrightarrow> (\<forall>k'. k' \<noteq> k \<longrightarrow> v' k' = v k')"

lemma api_okD:
  assumes "api_ok A view"
  shows "api_get A ns name s = Inr r \<Longrightarrow> view s (ns, name) = Some r \<and> tr_name r = name"
    and "view s (ns, name) = Some r \<Longrightarrow> tr_name r = name"
    and "api_get A ns name s = Inl (Api_Error 404) \<Longrightarrow> view s (ns, name) = None"
    and "api_replace A ns name r s = (Inr (), s') \<Longrightarrow> view s' = (view s)((ns, name) \<mapsto> r)"
    and "api_replace A ns name r s = (Inl e, s') \<Longrightarrow> view s' = view s \<or> view s' = (view s)((ns, name) \<mapsto> r)"
    and "api_create A ns r s = (Inr (), s') \<Longrightarrow> view s' = (view s)((ns, tr_name r) \<mapsto> r)"
    and "api_create A ns r s = (Inl e, s') \<Longrightarrow> view s' = view s \<or> view s' = (view s)((ns, tr_name r) \<mapsto> r)"
  using assms unfolding api_ok_def by (fast, fast, fast, metis, metis, metis, metis)

lemma answer_Reply: "answer x (r, s) = (Reply y, s') \<longleftrightarrow> r = Inr () \<and> y = x \<and> s' = s"
  by (cases r) (auto simp: answer_def)

lemma answer_cases: "answer x p = (r, s') \<Longrightarrow> (p = (Inr (), s') \<and> r = Reply x) \<or> (\<exists>e. p = (Inl e, s') \<and> r = Kube_Error e)"
  by (cases p; cases "fst p") (auto simp: answer_def)

text \<open>A write that was answered, or failed, and where its resource was.\<close>

lemma answered_put:
  assumes "answer x p = (q, s')" "\<And>s'. p = (Inr (), s') \<Longrightarrow> w s' = w0(k \<mapsto> r)"
    "\<And>e s'. p = (Inl e, s') \<Longrightarrow> w s' = w0 \<or> w s' = w0(k \<mapsto> r)"
  shows "q = Reply x \<and> w s' = w0(k \<mapsto> r) \<or> (\<exists>e. q = Kube_Error e) \<and> (w s' = w0 \<or> w s' = w0(k \<mapsto> r))"
  using answer_cases [OF assms(1)] assms(2,3) by blast

lemma ring_reconcile_ok:
  assumes "api_ok A view" "ring_reconcile A ns t r s = (q, s')"
  shows "same_but (ns, tr_name r) (view s) (view s') \<and>
    (q = Reply Await_Change \<and> nonce_of (view s') ns (tr_name r) = raised (nonce_of (view s) ns (tr_name r)) (sint (tr_nonce r)) \<or>
     (\<exists>e. q = Kube_Error e) \<and> (view s' = view s \<or>
       nonce_of (view s') ns (tr_name r) = raised (nonce_of (view s) ns (tr_name r)) (sint (tr_nonce r))))"
proof (cases "api_get A ns (tr_name r) s")
  case (Inr existing)
  have "view s (ns, tr_name r) = Some existing \<and> tr_name existing = tr_name r"
    using api_okD(1) [OF assms(1) Inr] .
  then have v: "view s (ns, tr_name r) = Some existing" "tr_name existing = tr_name r" by auto
  show ?thesis
  proof (cases "sint (tr_nonce existing) < sint (tr_nonce r)")
    case True
    let ?new = "existing\<lparr>tr_nonce := tr_nonce r, tr_updated_at := Some t\<rparr>"
    have "answer Await_Change (api_replace A ns (tr_name r) ?new s) = (q, s')"
      using assms(2) Inr True v(2) by (simp add: ring_reconcile_def)
    from answered_put [OF this, of view "view s" "(ns, tr_name r)" ?new] api_okD(4,5) [OF assms(1)]
    have "q = Reply Await_Change \<and> view s' = (view s)((ns, tr_name r) \<mapsto> ?new) \<or>
      (\<exists>e. q = Kube_Error e) \<and> (view s' = view s \<or> view s' = (view s)((ns, tr_name r) \<mapsto> ?new))" by blast
    then show ?thesis using v True by (auto simp: same_but_def nonce_of_def raised_def)
  next
    case False
    then show ?thesis using assms(2) Inr v by (auto simp: ring_reconcile_def same_but_def nonce_of_def raised_def)
  qed
next
  case (Inl e)
  show ?thesis
  proof (cases "e = Api_Error 404")
    case True
    then have v: "view s (ns, tr_name r) = None" using api_okD(3) [OF assms(1)] Inl by simp
    let ?new = "test_resource_new (tr_name r) (tr_nonce r) t"
    have "answer Await_Change (api_create A ns ?new s) = (q, s')" using assms(2) Inl True by (simp add: ring_reconcile_def)
    from answered_put [OF this, of view "view s" "(ns, tr_name ?new)" ?new] api_okD(6,7) [OF assms(1)]
    have "q = Reply Await_Change \<and> view s' = (view s)((ns, tr_name ?new) \<mapsto> ?new) \<or>
      (\<exists>e. q = Kube_Error e) \<and> (view s' = view s \<or> view s' = (view s)((ns, tr_name ?new) \<mapsto> ?new))" by blast
    then show ?thesis using v by (auto simp: same_but_def nonce_of_def raised_def test_resource_new_def)
  next
    case False
    then have "q = Kube_Error e" "s' = s"
      using assms(2) Inl by (auto simp: ring_reconcile_def split: kube_error.splits if_splits)
    then show ?thesis by (simp add: same_but_def)
  qed
qed

end
