(* ===== verification/Controllers.thy ===== *)
theory Controllers
  imports Reconcile
begin

text \<open>
  The \<open>main_async\<close> of the controllers: their settings, from environment variables, and the
  runs of their reconciliation. What watches the resources is a library; the sequence of resources
  it asks to reconcile, each with the reading of the clock, is a parameter. So is the client.
\<close>

section \<open>Numbers in text\<close>

text \<open>\<open>str::parse\<close> of an integer: digits after at most one sign, and a minus only where the type has one.\<close>

fun parse_digits :: "nat \<Rightarrow> string \<Rightarrow> nat option" where
  "parse_digits n [] = Some n"
| "parse_digits n (c # s) =
     (let d = of_char c in if 48 \<le> d \<and> d < 58 then parse_digits (n * 10 + (d - 48)) s else None)"

definition parse_nat :: "string \<Rightarrow> nat option" where
  "parse_nat s = (if s = [] then None else parse_digits 0 s)"

definition parse_usize :: "string \<Rightarrow> usize option" where
  "parse_usize s = (case parse_nat (if take 1 s = ''+'' then drop 1 s else s) of
     None \<Rightarrow> None
   | Some n \<Rightarrow> if n < 2 ^ 32 then Some (of_nat n) else None)"

definition parse_i32 :: "string \<Rightarrow> int option" where
  "parse_i32 s =
     (if take 1 s = ''-'' then (case parse_nat (drop 1 s) of
         None \<Rightarrow> None
       | Some n \<Rightarrow> if n \<le> 2 ^ 31 then Some (- int n) else None)
      else (case parse_nat (if take 1 s = ''+'' then drop 1 s else s) of
         None \<Rightarrow> None
       | Some n \<Rightarrow> if n < 2 ^ 31 then Some (int n) else None))"

lemma parse_digits_append: "parse_digits n (s @ t) = (case parse_digits n s of None \<Rightarrow> None | Some m \<Rightarrow> parse_digits m t)"
  by (induction n s rule: parse_digits.induct) (auto simp: Let_def)

lemma decimal_digits: "decimal n \<noteq> [] \<and> take 1 (decimal n) \<noteq> ''+'' \<and> take 1 (decimal n) \<noteq> ''-'' \<and> parse_digits 0 (decimal n) = Some n"
proof (induction n rule: decimal.induct)
  case (1 n)
  have d: "(of_char (digit k) :: nat) = 48 + k" if "k < 10" for k using that by (simp add: digit_def)
  have ne: "[digit k] \<noteq> ''+''" "[digit k] \<noteq> ''-''" if "k < 10" for k
    using d [OF that] by (auto dest: arg_cong [where f = "of_char :: char \<Rightarrow> nat"])
  show ?case
  proof (cases "n < 10")
    case True
    then show ?thesis using ne d by (simp add: decimal.simps [of n])
  next
    case False
    then have ih: "parse_digits 0 (decimal (n div 10)) = Some (n div 10)" "decimal (n div 10) \<noteq> []"
      "take 1 (decimal (n div 10)) \<noteq> ''+''" "take 1 (decimal (n div 10)) \<noteq> ''-''" using 1 by auto
    have n: "decimal n = decimal (n div 10) @ [digit (n mod 10)]" using False by (simp add: decimal.simps [of n])
    have "parse_digits 0 (decimal n) = Some n" using ih(1) d [of "n mod 10"] by (simp add: n parse_digits_append)
    moreover have "take 1 (decimal n) = take 1 (decimal (n div 10))" using ih(2) by (cases "decimal (n div 10)") (simp_all add: n)
    ultimately show ?thesis using ih(3,4) by (simp add: n)
  qed
qed

lemma parse_decimal:
  "n < 2 ^ 32 \<Longrightarrow> parse_usize (decimal n) = Some (of_nat n)" "n < 2 ^ 31 \<Longrightarrow> parse_i32 (decimal n) = Some (int n)"
  "0 < n \<Longrightarrow> n \<le> 2 ^ 31 \<Longrightarrow> parse_i32 (CHR ''-'' # decimal n) = Some (- int n)"
  using decimal_digits [of n] by (simp_all add: parse_usize_def parse_i32_def parse_nat_def)

section \<open>Settings\<close>

type_synonym env_vars = "string \<Rightarrow> string option"

definition var_or :: "env_vars \<Rightarrow> string \<Rightarrow> string \<Rightarrow> string" where
  "var_or vars name preset = (case vars name of Some v \<Rightarrow> v | None \<Rightarrow> preset)"

record controller_data =
  da_out_namespace :: string
  da_huge_mem_alloc :: "u8 list"

text \<open>
  The memory is a vector, whose capacity may not exceed \<open>isize::MAX\<close>. The namespace that is watched and the data
  of the reconciliation are what a controller runs with.
\<close>

definition heap_mem :: "env_vars \<Rightarrow> u8 list outcome" where
  "heap_mem vars =
     obind (or_panic (parse_usize (var_or vars ''HEAP_MEM_SIZE'' ''0'')) Unwrap_None) (\<lambda>heap_mem_size.
     obind (ensure (unat heap_mem_size < 2 ^ 31) Capacity_Overflow) (\<lambda>_.
     Ok (huge_mem_alloc (unat heap_mem_size))))"

definition ring_settings :: "env_vars \<Rightarrow> 'client option \<Rightarrow> (string \<times> controller_data) outcome" where
  "ring_settings vars client =
     obind (or_panic client Expect_Failed) (\<lambda>_.
     let in_namespace = var_or vars ''IN_NAMESPACE'' ''default'';
         out_namespace = var_or vars ''OUT_NAMESPACE'' ''default''
     in obind (heap_mem vars) (\<lambda>huge_mem_alloc.
     Ok (in_namespace, \<lparr>da_out_namespace = out_namespace, da_huge_mem_alloc = huge_mem_alloc\<rparr>)))"

definition simple_settings :: "env_vars \<Rightarrow> 'client option \<Rightarrow> (string \<times> u8 list) outcome" where
  "simple_settings vars client =
     obind (or_panic client Expect_Failed) (\<lambda>_.
     obind (heap_mem vars) (\<lambda>huge_mem_alloc.
     Ok (''default'', huge_mem_alloc)))"

definition nr_operators :: "env_vars \<Rightarrow> int" where
  "nr_operators vars = (case parse_i32 (var_or vars ''NR_OPERATORS'' ''1'') of Some n \<Rightarrow> n | None \<Rightarrow> 1)"

text \<open>A range from 0 to a negative number is empty.\<close>

definition comb_settings :: "env_vars \<Rightarrow> 'client option \<Rightarrow> (string \<times> string) list outcome" where
  "comb_settings vars client =
     obind (or_panic client Expect_Failed) (\<lambda>_. Ok (comb_controllers (nat (nr_operators vars))))"

section \<open>Runs\<close>

text \<open>
  What an error of the reconciliation leads to is up to the policy of the controller. An event is what
  the reconciliation needs besides the resource: the reading of the clock, and which controller it is.
\<close>

fun run_controller ::
  "('e \<Rightarrow> test_resource \<Rightarrow> 's \<Rightarrow> controller_action reply \<times> 's) \<Rightarrow> (kube_error \<Rightarrow> controller_action) \<Rightarrow>
   ('e \<times> test_resource) list \<Rightarrow> 's \<Rightarrow> controller_action list reply \<times> 's" where
  "run_controller reconcile policy [] s = (Reply [], s)"
| "run_controller reconcile policy ((e, obj) # events) s = (case reconcile e obj s of
     (Reply_Panic p, s) \<Rightarrow> (Reply_Panic p, s)
   | (r, s) \<Rightarrow>
       let a = (case r of Reply a \<Rightarrow> a | Kube_Error err \<Rightarrow> policy err) in
       case run_controller reconcile policy events s of
         (Reply as, s) \<Rightarrow> (Reply (a # as), s)
       | (r, s) \<Rightarrow> (r, s))"

definition ring_main ::
  "env_vars \<Rightarrow> 's api option \<Rightarrow> (string \<Rightarrow> (int \<times> test_resource) list) \<Rightarrow> 's \<Rightarrow> (controller_action list reply \<times> 's) outcome" where
  "ring_main vars client watch s =
     obind (ring_settings vars client) (\<lambda>(in_namespace, ctx).
     Ok (run_controller (ring_reconcile (the client) (da_out_namespace ctx)) error_policy (watch in_namespace) s))"

definition simple_main ::
  "build \<Rightarrow> env_vars \<Rightarrow> 's api option \<Rightarrow> (string \<Rightarrow> (int \<times> test_resource) list) \<Rightarrow> 's \<Rightarrow> (controller_action list reply \<times> 's) outcome" where
  "simple_main b vars client watch s =
     obind (simple_settings vars client) (\<lambda>(in_namespace, huge_mem_alloc).
     Ok (run_controller (simple_reconcile b (the client)) simple_error_policy (watch in_namespace) s))"

text \<open>
  The controllers of the comb run as one task, and get on in turns, in any order: a controller is called
  on a resource, by its watch, and reads the other one; later the API server answers its
  write. The library calls a controller on a resource only when no call of it on the same resource is under way;
  what it holds back for that is called later.
\<close>

datatype comb_event =
    Called nat int test_resource
  | Answered nat string

record 's comb =
  cb_calls :: "nat \<times> string \<Rightarrow> (test_resource \<times> comb_put) option"
  cb_done :: "(nat \<times> test_resource \<times> controller_action) list"
  cb_cluster :: 's

definition comb_end :: "nat \<Rightarrow> test_resource \<Rightarrow> controller_action reply \<Rightarrow> 's comb \<Rightarrow> 's comb" where
  "comb_end i obj reply C = (case reply of
     Reply a \<Rightarrow> C\<lparr>cb_done := cb_done C @ [(i, obj, a)]\<rparr>
   | Kube_Error e \<Rightarrow> C\<lparr>cb_done := cb_done C @ [(i, obj, comb_error_policy e)]\<rparr>
   | Reply_Panic p \<Rightarrow> C)"

definition comb_step :: "'s api \<Rightarrow> (string \<times> string) list \<Rightarrow> comb_event \<Rightarrow> 's comb \<Rightarrow> 's comb" where
  "comb_step A controllers event C = (case event of
     Called i now obj \<Rightarrow>
       if cb_calls C (i, tr_name obj) \<noteq> None then C
       else (case comb_read A (snd (controllers ! i)) now obj (cb_cluster C) of
           Inl reply \<Rightarrow> comb_end i obj reply C
         | Inr put \<Rightarrow> C\<lparr>cb_calls := (cb_calls C)((i, tr_name obj) \<mapsto> (obj, put))\<rparr>)
   | Answered i name \<Rightarrow> (case cb_calls C (i, name) of
         None \<Rightarrow> C
       | Some (obj, put) \<Rightarrow> (case comb_write A (snd (controllers ! i)) put (cb_cluster C) of
             (reply, s) \<Rightarrow> comb_end i obj reply (C\<lparr>cb_calls := (cb_calls C)((i, name) := None), cb_cluster := s\<rparr>))))"

definition comb_main :: "env_vars \<Rightarrow> 's api option \<Rightarrow> (string list \<Rightarrow> comb_event list) \<Rightarrow> 's \<Rightarrow> 's comb outcome" where
  "comb_main vars client watch s =
     obind (comb_settings vars client) (\<lambda>controllers.
     Ok (fold (comb_step (the client) controllers) (watch (map fst controllers))
       \<lparr>cb_calls = (\<lambda>_. None), cb_done = [], cb_cluster = s\<rparr>))"

text \<open>The value changer: its trace, then its client, then the loop.\<close>

definition changer_main ::
  "build \<Rightarrow> (string \<Rightarrow> int option) \<Rightarrow> string list option \<Rightarrow> 's api option \<Rightarrow> (nat \<Rightarrow> int) \<Rightarrow> 's \<Rightarrow> (unit reply \<times> 's) outcome" where
  "changer_main b parse_from_str traces client clock s =
     obind (or_panic traces Expect_Failed) (\<lambda>records.
     obind (read_traces parse_from_str records) (\<lambda>wait_intervals.
     obind (or_panic client Expect_Failed) (\<lambda>secrets.
     Ok (change_loop b secrets clock 0 wait_intervals s))))"

section \<open>What a ring controller has done\<close>

text \<open>The nonces that were passed on for a name.\<close>

definition passed_on :: "string \<Rightarrow> (int \<times> test_resource) list \<Rightarrow> controller_action list \<Rightarrow> int set" where
  "passed_on name events as =
     (\<lambda>((now, obj), a). sint (tr_nonce obj)) ` {x \<in> set (zip events as). snd x = Await_Change \<and> tr_name (snd (fst x)) = name}"

definition highest :: "int set \<Rightarrow> int option" where
  "highest N = (if N = {} then None else Some (Max N))"

lemma passed_on_Cons: "passed_on name ((now, obj) # events) (a # as) =
    (if a = Await_Change \<and> tr_name obj = name then insert (sint (tr_nonce obj)) (passed_on name events as) else passed_on name events as)"
proof -
  have "{x \<in> set (zip ((now, obj) # events) (a # as)). snd x = Await_Change \<and> tr_name (snd (fst x)) = name} =
    (if a = Await_Change \<and> tr_name obj = name then {((now, obj), a)} else {}) \<union>
    {x \<in> set (zip events as). snd x = Await_Change \<and> tr_name (snd (fst x)) = name}" by auto
  then show ?thesis by (simp add: passed_on_def)
qed

lemma passed_on_finite [simp]: "finite (passed_on name events as)"
  by (simp add: passed_on_def)

lemma highest_raised:
  assumes "finite N"
  shows "highest (set_option (raised v k) \<union> N) = highest (set_option v \<union> insert k N)"
  using assms by (cases v; cases "N = {}") (simp_all add: highest_def raised_def max.assoc)

lemma raised_highest: "finite N \<Longrightarrow> raised (highest N) k = highest (insert k N)"
  by (cases "N = {}") (simp_all add: highest_def raised_def max.commute)

lemma highest_option [simp]: "highest (set_option v) = v"
  by (cases v) (simp_all add: highest_def)

text \<open>The nonces of a name that the controller was asked to pass on.\<close>

definition asked_for :: "string \<Rightarrow> (int \<times> test_resource) list \<Rightarrow> int set" where
  "asked_for name events = (\<lambda>(now, obj). sint (tr_nonce obj)) ` {x \<in> set events. tr_name (snd x) = name}"

lemma asked_for_Cons: "asked_for name ((now, obj) # events) =
    (if tr_name obj = name then insert (sint (tr_nonce obj)) (asked_for name events) else asked_for name events)"
proof -
  have "{x \<in> set ((now, obj) # events). tr_name (snd x) = name} =
    (if tr_name obj = name then {(now, obj)} else {}) \<union> {x \<in> set events. tr_name (snd x) = name}" by auto
  then show ?thesis by (simp add: asked_for_def)
qed

lemma asked_for_finite [simp]: "finite (asked_for name events)"
  by (simp add: asked_for_def)

lemma ring_run:
  assumes "api_ok A view" "run_controller (ring_reconcile A ns) error_policy events s = (q, s')"
  shows "\<exists>as. q = Reply as \<and> length as = length events \<and> set as \<subseteq> {Await_Change, Requeue 1} \<and>
    (\<forall>name. \<exists>N. passed_on name events as \<subseteq> N \<and> N \<subseteq> asked_for name events \<and>
       nonce_of (view s') ns name = highest (set_option (nonce_of (view s) ns name) \<union> N)) \<and>
    (\<forall>k. fst k \<noteq> ns \<longrightarrow> view s' k = view s k)"
  using assms(2)
proof (induction events arbitrary: s s' q)
  case Nil
  then show ?case by (simp add: passed_on_def asked_for_def)
next
  case (Cons e events)
  obtain now obj where e: "e = (now, obj)" by (cases e)
  obtain r s1 where r: "ring_reconcile A ns now obj s = (r, s1)" by (cases "ring_reconcile A ns now obj s")
  note ok = ring_reconcile_ok [OF assms(1) r]
  obtain q1 s2 where q1: "run_controller (ring_reconcile A ns) error_policy events s1 = (q1, s2)"
    by (cases "run_controller (ring_reconcile A ns) error_policy events s1")
  obtain as where as: "q1 = Reply as" "length as = length events" "set as \<subseteq> {Await_Change, Requeue 1}"
    "\<And>name. \<exists>N. passed_on name events as \<subseteq> N \<and> N \<subseteq> asked_for name events \<and>
       nonce_of (view s2) ns name = highest (set_option (nonce_of (view s1) ns name) \<union> N)"
    "\<And>k. fst k \<noteq> ns \<Longrightarrow> view s2 k = view s1 k"
    using Cons.IH [OF q1] by blast
  define a where "a = (case r of Reply a \<Rightarrow> a | Kube_Error e \<Rightarrow> error_policy e)"
  have a: "a = Requeue 1 \<and> (\<exists>x. r = Kube_Error x) \<or> a = Await_Change \<and> r = Reply Await_Change"
    using ok unfolding a_def by (cases r) (auto simp: error_policy_def)
  have step: "q = Reply (a # as)" "s' = s2"
    using Cons.prems e r q1 as(1) ok by (auto simp: a_def split: reply.splits)
  have "\<exists>N. passed_on name (e # events) (a # as) \<subseteq> N \<and> N \<subseteq> asked_for name (e # events) \<and>
      nonce_of (view s2) ns name = highest (set_option (nonce_of (view s) ns name) \<union> N)" for name
  proof -
    obtain N where N: "passed_on name events as \<subseteq> N" "N \<subseteq> asked_for name events"
      "nonce_of (view s2) ns name = highest (set_option (nonce_of (view s1) ns name) \<union> N)" using as(4) by blast
    have f: "finite N" using N(2) finite_subset by fastforce
    show ?thesis
    proof (cases "tr_name obj = name \<and> nonce_of (view s1) ns name = raised (nonce_of (view s) ns name) (sint (tr_nonce obj))")
      case True
      then show ?thesis using N highest_raised [OF f]
        by (intro exI [of _ "insert (sint (tr_nonce obj)) N"]) (auto simp: e passed_on_Cons asked_for_Cons)
    next
      case False
      then have "nonce_of (view s1) ns name = nonce_of (view s) ns name" "tr_name obj = name \<longrightarrow> a \<noteq> Await_Change"
        using ok a by (cases "tr_name obj = name"; auto simp: same_but_def nonce_of_def)+
      then show ?thesis using N by (intro exI [of _ N]) (auto simp: e passed_on_Cons asked_for_Cons)
    qed
  qed
  moreover have "view s2 k = view s k" if "fst k \<noteq> ns" for k
    using as(5) [OF that] ok that by (cases k) (auto simp: same_but_def)
  ultimately show ?case using step as(2,3) a by (intro exI [of _ "a # as"]) auto
qed

end
