(* ===== verification/Reconcile_Spec.thy ===== *)
theory Reconcile_Spec
  imports Controllers
begin

text \<open>
  What the comb of controllers and a ring controller do to the nonces of the resources, over any sequence of
  calls. The API server is a parameter, with what it promises (\<open>api_ok\<close>).
\<close>

section \<open>The calls of the comb\<close>

text \<open>When nothing comes between, its reconciliation is that of a ring controller.\<close>

lemma comb_reconcile_eq: "comb_reconcile = ring_reconcile"
proof (intro ext)
  fix A :: "'s api" and ns t r s
  show "comb_reconcile A ns t r s = ring_reconcile A ns t r s"
    by (simp add: comb_reconcile_def comb_read_def comb_write_def ring_reconcile_def comb_test_resource_def test_resource_new_def
        Let_def split: sum.split kube_error.split)
qed

lemma comb_namespace_inj [simp]: "comb_namespace i = comb_namespace j \<longleftrightarrow> i = j"
  unfolding comb_namespace_def using value_of_decimal by (metis same_append_eq)

lemma comb_output [simp]: "i < n \<Longrightarrow> snd (comb_controllers n ! i) = comb_namespace (Suc i)"
  by (simp add: comb_controllers_def)

text \<open>A write that was decided on: it still fits what is there.\<close>

definition put_fits :: "test_resource option \<Rightarrow> test_resource \<Rightarrow> comb_put \<Rightarrow> bool" where
  "put_fits v obj put = (case put of
     Replace_With r \<Rightarrow> tr_name r = tr_name obj \<and> tr_nonce r = tr_nonce obj \<and>
       (\<exists>existing. v = Some existing \<and> sint (tr_nonce existing) < sint (tr_nonce obj))
   | Create_With r \<Rightarrow> tr_name r = tr_name obj \<and> tr_nonce r = tr_nonce obj \<and> v = None)"

lemma comb_read_ok:
  assumes "api_ok A view"
  shows "case comb_read A ns now obj s of
      Inl q \<Rightarrow> q = Reply Await_Change \<and>
          raised (nonce_of (view s) ns (tr_name obj)) (sint (tr_nonce obj)) = nonce_of (view s) ns (tr_name obj) \<or>
        (\<exists>e. q = Kube_Error e)
    | Inr put \<Rightarrow> put_fits (view s (ns, tr_name obj)) obj put"
proof (cases "api_get A ns (tr_name obj) s")
  case (Inr existing)
  then have "view s (ns, tr_name obj) = Some existing \<and> tr_name existing = tr_name obj" using api_okD(1) [OF assms] by blast
  then show ?thesis using Inr by (auto simp: comb_read_def put_fits_def nonce_of_def raised_def Let_def)
next
  case (Inl e)
  then show ?thesis using api_okD(3) [OF assms, of ns "tr_name obj" s]
    by (cases e) (auto simp: comb_read_def put_fits_def comb_test_resource_def Let_def)
qed

lemma comb_write_ok:
  assumes "api_ok A view" "put_fits (view s (ns, tr_name obj)) obj put" "comb_write A ns put s = (q, s')"
  shows "same_but (ns, tr_name obj) (view s) (view s')"
    and "q = Reply Await_Change \<and> nonce_of (view s') ns (tr_name obj) = raised (nonce_of (view s) ns (tr_name obj)) (sint (tr_nonce obj)) \<or>
      (\<exists>e. q = Kube_Error e) \<and> nonce_of (view s') ns (tr_name obj) \<in>
        {nonce_of (view s) ns (tr_name obj), raised (nonce_of (view s) ns (tr_name obj)) (sint (tr_nonce obj))}"
proof -
  obtain r where r: "tr_name r = tr_name obj" "tr_nonce r = tr_nonce obj"
    "raised (nonce_of (view s) ns (tr_name obj)) (sint (tr_nonce obj)) = Some (sint (tr_nonce obj))"
    "q = Reply Await_Change \<and> view s' = (view s)((ns, tr_name r) \<mapsto> r) \<or>
      (\<exists>e. q = Kube_Error e) \<and> (view s' = view s \<or> view s' = (view s)((ns, tr_name r) \<mapsto> r))"
  proof (cases put)
    case (Replace_With r)
    have "answer Await_Change (api_replace A ns (tr_name r) r s) = (q, s')" using assms(3) Replace_With by (simp add: comb_write_def)
    from answered_put [OF this, of view "view s" "(ns, tr_name r)" r] api_okD(4,5) [OF assms(1)]
    have "q = Reply Await_Change \<and> view s' = (view s)((ns, tr_name r) \<mapsto> r) \<or>
      (\<exists>e. q = Kube_Error e) \<and> (view s' = view s \<or> view s' = (view s)((ns, tr_name r) \<mapsto> r))" by blast
    then show thesis using that [of r] assms(2) Replace_With by (auto simp: put_fits_def raised_def nonce_of_def)
  next
    case (Create_With r)
    have "answer Await_Change (api_create A ns r s) = (q, s')" using assms(3) Create_With by (simp add: comb_write_def)
    from answered_put [OF this, of view "view s" "(ns, tr_name r)" r] api_okD(6,7) [OF assms(1)]
    have "q = Reply Await_Change \<and> view s' = (view s)((ns, tr_name r) \<mapsto> r) \<or>
      (\<exists>e. q = Kube_Error e) \<and> (view s' = view s \<or> view s' = (view s)((ns, tr_name r) \<mapsto> r))" by blast
    then show thesis using that [of r] assms(2) Create_With by (auto simp: put_fits_def raised_def nonce_of_def)
  qed
  show "same_but (ns, tr_name obj) (view s) (view s')" using r by (auto simp: same_but_def)
  have "nonce_of ((view s)((ns, tr_name r) \<mapsto> r)) ns (tr_name obj) = Some (sint (tr_nonce obj))" using r(1,2) by (simp add: nonce_of_def)
  then show "q = Reply Await_Change \<and> nonce_of (view s') ns (tr_name obj) = raised (nonce_of (view s) ns (tr_name obj)) (sint (tr_nonce obj)) \<or>
      (\<exists>e. q = Kube_Error e) \<and> nonce_of (view s') ns (tr_name obj) \<in>
        {nonce_of (view s) ns (tr_name obj), raised (nonce_of (view s) ns (tr_name obj)) (sint (tr_nonce obj))}"
    using r(3,4) by auto
qed

section \<open>A run of the comb\<close>

text \<open>The nonces of a name that a controller was called with, and those that it has passed on.\<close>

definition comb_asked :: "nat \<Rightarrow> string \<Rightarrow> comb_event list \<Rightarrow> int set" where
  "comb_asked i name events = {sint (tr_nonce obj) | now obj. Called i now obj \<in> set events \<and> tr_name obj = name}"

definition comb_passed :: "nat \<Rightarrow> string \<Rightarrow> (nat \<times> test_resource \<times> controller_action) list \<Rightarrow> int set" where
  "comb_passed i name done = {sint (tr_nonce obj) | obj. (i, obj, Await_Change) \<in> set done \<and> tr_name obj = name}"

lemma comb_asked_finite: "finite (comb_asked i name events)"
proof (rule finite_subset)
  show "comb_asked i name events \<subseteq> (\<lambda>e. case e of Called j now obj \<Rightarrow> sint (tr_nonce obj) | Answered j name \<Rightarrow> 0) ` set events"
    by (force simp: comb_asked_def)
qed simp

lemma comb_asked_append: "comb_asked i name events \<subseteq> comb_asked i name (events @ [e])"
  by (auto simp: comb_asked_def)

lemma comb_passed_append: "comb_passed i name (done @ [(j, obj, a)]) =
    (if j = i \<and> tr_name obj = name \<and> a = Await_Change then insert (sint (tr_nonce obj)) (comb_passed i name done) else comb_passed i name done)"
  by (auto simp: comb_passed_def)

definition calls_fit :: "nat \<Rightarrow> comb_event list \<Rightarrow> (string \<times> string \<Rightarrow> test_resource option) \<Rightarrow>
    (nat \<times> string \<Rightarrow> (test_resource \<times> comb_put) option) \<Rightarrow> bool" where
  "calls_fit n events v calls \<longleftrightarrow> (\<forall>i name obj put. calls (i, name) = Some (obj, put) \<longrightarrow>
     i < n \<and> tr_name obj = name \<and> (\<exists>now. Called i now obj \<in> set events) \<and> put_fits (v (comb_namespace (Suc i), name)) obj put)"

definition calls_done :: "nat \<Rightarrow> comb_event list \<Rightarrow> (nat \<times> test_resource \<times> controller_action) list \<Rightarrow> bool" where
  "calls_done n events done \<longleftrightarrow> (\<forall>(i, obj, a) \<in> set done. i < n \<and> a \<in> {Await_Change, Requeue 1} \<and> (\<exists>now. Called i now obj \<in> set events))"

definition outputs_ok :: "nat \<Rightarrow> (string \<times> string \<Rightarrow> test_resource option) \<Rightarrow> comb_event list \<Rightarrow>
    (string \<times> string \<Rightarrow> test_resource option) \<Rightarrow> (nat \<times> test_resource \<times> controller_action) list \<Rightarrow> bool" where
  "outputs_ok n v0 events v done \<longleftrightarrow>
     (\<forall>i < n. \<forall>name. \<exists>N. comb_passed i name done \<subseteq> N \<and> N \<subseteq> comb_asked i name events \<and>
        nonce_of v (comb_namespace (Suc i)) name = highest (set_option (nonce_of v0 (comb_namespace (Suc i)) name) \<union> N)) \<and>
     (\<forall>ns name. ns \<notin> comb_namespace ` {1..n} \<longrightarrow> v (ns, name) = v0 (ns, name))"

definition comb_inv :: "('s \<Rightarrow> string \<times> string \<Rightarrow> test_resource option) \<Rightarrow> nat \<Rightarrow> (string \<times> string \<Rightarrow> test_resource option) \<Rightarrow>
    comb_event list \<Rightarrow> 's comb \<Rightarrow> bool" where
  "comb_inv view n v0 events C \<longleftrightarrow> calls_fit n events (view (cb_cluster C)) (cb_calls C) \<and> calls_done n events (cb_done C) \<and>
     outputs_ok n v0 events (view (cb_cluster C)) (cb_done C)"

lemma comb_inv_more:
  assumes "comb_inv view n v0 events C"
  shows "comb_inv view n v0 (events @ [e]) C"
proof -
  have "calls_fit n (events @ [e]) (view (cb_cluster C)) (cb_calls C)" "calls_done n (events @ [e]) (cb_done C)"
    using assms by (fastforce simp: comb_inv_def calls_fit_def calls_done_def)+
  moreover have "outputs_ok n v0 (events @ [e]) (view (cb_cluster C)) (cb_done C)"
    using assms comb_asked_append unfolding comb_inv_def outputs_ok_def by (meson subset_trans)
  ultimately show ?thesis by (simp add: comb_inv_def)
qed

text \<open>A call that ends, with the state of the cluster that it leaves.\<close>

lemma comb_inv_end:
  assumes "comb_inv view n v0 events C" "i < n" "Called i now obj \<in> set events" "a \<in> {Await_Change, Requeue 1}"
    "same_but (comb_namespace (Suc i), tr_name obj) (view (cb_cluster C)) (view s)"
    "nonce_of (view s) (comb_namespace (Suc i)) (tr_name obj) \<in> {nonce_of (view (cb_cluster C)) (comb_namespace (Suc i)) (tr_name obj),
       raised (nonce_of (view (cb_cluster C)) (comb_namespace (Suc i)) (tr_name obj)) (sint (tr_nonce obj))}"
    "a = Await_Change \<Longrightarrow> nonce_of (view s) (comb_namespace (Suc i)) (tr_name obj) =
       raised (nonce_of (view (cb_cluster C)) (comb_namespace (Suc i)) (tr_name obj)) (sint (tr_nonce obj))"
  shows "comb_inv view n v0 events
    (C\<lparr>cb_calls := (cb_calls C)((i, tr_name obj) := None), cb_cluster := s, cb_done := cb_done C @ [(i, obj, a)]\<rparr>)"
proof -
  let ?v = "view (cb_cluster C)" and ?out = "comb_namespace (Suc i)" and ?k = "sint (tr_nonce obj)"
  have other: "view s (comb_namespace (Suc j), name) = ?v (comb_namespace (Suc j), name)" if "(j, name) \<noteq> (i, tr_name obj)" for j name
    using assms(5) that by (auto simp: same_but_def)
  have fit: "calls_fit n events ?v (cb_calls C)" using assms(1) by (simp add: comb_inv_def)
  have "calls_fit n events (view s) ((cb_calls C)((i, tr_name obj) := None))"
    unfolding calls_fit_def
  proof (intro allI impI)
    fix j name obj' put assume "((cb_calls C)((i, tr_name obj) := None)) (j, name) = Some (obj', put)"
    then have j: "(j, name) \<noteq> (i, tr_name obj)" "cb_calls C (j, name) = Some (obj', put)" by (auto split: if_splits)
    then show "j < n \<and> tr_name obj' = name \<and> (\<exists>now. Called j now obj' \<in> set events) \<and> put_fits (view s (comb_namespace (Suc j), name)) obj' put"
      using fit other [OF j(1)] unfolding calls_fit_def by simp
  qed
  moreover have "calls_done n events (cb_done C @ [(i, obj, a)])"
  proof -
    have "calls_done n events (cb_done C)" using assms(1) by (simp add: comb_inv_def)
    then show ?thesis using assms(2-4) unfolding calls_done_def by auto
  qed
  moreover have "\<exists>N. comb_passed j name (cb_done C @ [(i, obj, a)]) \<subseteq> N \<and> N \<subseteq> comb_asked j name events \<and>
      nonce_of (view s) (comb_namespace (Suc j)) name = highest (set_option (nonce_of v0 (comb_namespace (Suc j)) name) \<union> N)"
    if "j < n" for j name
  proof -
    have "outputs_ok n v0 events ?v (cb_done C)" using assms(1) by (simp add: comb_inv_def)
    from this [unfolded outputs_ok_def, THEN conjunct1, rule_format, OF that, of name]
    obtain N where N: "comb_passed j name (cb_done C) \<subseteq> N" "N \<subseteq> comb_asked j name events"
      "nonce_of ?v (comb_namespace (Suc j)) name = highest (set_option (nonce_of v0 (comb_namespace (Suc j)) name) \<union> N)"
      by (elim exE conjE)
    show ?thesis
    proof (cases "(j, name) = (i, tr_name obj) \<and> nonce_of (view s) ?out (tr_name obj) = raised (nonce_of ?v ?out (tr_name obj)) ?k")
      case True
      have "finite (set_option (nonce_of v0 ?out (tr_name obj)) \<union> N)" using finite_subset [OF N(2) comb_asked_finite] by simp
      then have "nonce_of (view s) ?out (tr_name obj) = highest (set_option (nonce_of v0 ?out (tr_name obj)) \<union> insert ?k N)"
        using True N(3) raised_highest by simp
      moreover have "?k \<in> comb_asked i (tr_name obj) events" using assms(3) by (auto simp: comb_asked_def)
      ultimately show ?thesis using True N by (intro exI [of _ "insert ?k N"]) (auto simp: comb_passed_append)
    next
      case False
      then have "nonce_of (view s) (comb_namespace (Suc j)) name = nonce_of ?v (comb_namespace (Suc j)) name"
        using other [of j name] assms(6) by (cases "(j, name) = (i, tr_name obj)") (auto simp: nonce_of_def)
      moreover have "\<not> (i = j \<and> tr_name obj = name \<and> a = Await_Change)" using False assms(7) by auto
      ultimately show ?thesis using N by (intro exI [of _ N]) (auto simp: comb_passed_append)
    qed
  qed
  moreover have "view s (ns, name) = v0 (ns, name)" if "ns \<notin> comb_namespace ` {1..n}" for ns name
  proof -
    have "Suc i \<in> {1..n}" using assms(2) by simp
    then have "ns \<noteq> ?out" using that by blast
    then show ?thesis using assms(1,5) that by (simp add: comb_inv_def outputs_ok_def same_but_def)
  qed
  ultimately show ?thesis by (simp add: comb_inv_def outputs_ok_def)
qed

lemma comb_end_ok:
  assumes "comb_inv view n v0 events C" "i < n" "Called i now obj \<in> set events"
    "same_but (comb_namespace (Suc i), tr_name obj) (view (cb_cluster C)) (view s)"
    "q = Reply Await_Change \<and> nonce_of (view s) (comb_namespace (Suc i)) (tr_name obj) =
       raised (nonce_of (view (cb_cluster C)) (comb_namespace (Suc i)) (tr_name obj)) (sint (tr_nonce obj)) \<or>
     (\<exists>e. q = Kube_Error e) \<and> nonce_of (view s) (comb_namespace (Suc i)) (tr_name obj) \<in>
       {nonce_of (view (cb_cluster C)) (comb_namespace (Suc i)) (tr_name obj),
        raised (nonce_of (view (cb_cluster C)) (comb_namespace (Suc i)) (tr_name obj)) (sint (tr_nonce obj))}"
  shows "comb_inv view n v0 events (comb_end i obj q (C\<lparr>cb_calls := (cb_calls C)((i, tr_name obj) := None), cb_cluster := s\<rparr>))"
  using assms(5)
proof (elim disjE conjE exE)
  assume "q = Reply Await_Change" "nonce_of (view s) (comb_namespace (Suc i)) (tr_name obj) =
       raised (nonce_of (view (cb_cluster C)) (comb_namespace (Suc i)) (tr_name obj)) (sint (tr_nonce obj))"
  then show ?thesis using comb_inv_end [OF assms(1-3) _ assms(4), of Await_Change] by (simp add: comb_end_def)
next
  fix e assume "q = Kube_Error e" "nonce_of (view s) (comb_namespace (Suc i)) (tr_name obj) \<in>
       {nonce_of (view (cb_cluster C)) (comb_namespace (Suc i)) (tr_name obj),
        raised (nonce_of (view (cb_cluster C)) (comb_namespace (Suc i)) (tr_name obj)) (sint (tr_nonce obj))}"
  then show ?thesis using comb_inv_end [OF assms(1-3) _ assms(4), of "Requeue 1"] by (simp add: comb_end_def comb_error_policy_def)
qed

lemma comb_step_ok:
  assumes "api_ok A view" "comb_inv view n v0 events C" "\<And>i now obj. e = Called i now obj \<Longrightarrow> i < n"
  shows "comb_inv view n v0 (events @ [e]) (comb_step A (comb_controllers n) e C)"
proof (cases e)
  case (Called i now obj)
  have i: "i < n" using assms(3) Called by simp
  have more: "comb_inv view n v0 (events @ [e]) C" by (rule comb_inv_more [OF assms(2)])
  have e: "Called i now obj \<in> set (events @ [e])" using Called by simp
  show ?thesis
  proof (cases "cb_calls C (i, tr_name obj)")
    case None
    have same: "C\<lparr>cb_calls := (cb_calls C)((i, tr_name obj) := None), cb_cluster := cb_cluster C\<rparr> = C"
      using None by (cases C) (simp add: fun_upd_idem)
    show ?thesis
    proof (cases "comb_read A (comb_namespace (Suc i)) now obj (cb_cluster C)")
      case (Inl q)
      have "comb_inv view n v0 (events @ [e]) (comb_end i obj q C)"
        using comb_end_ok [OF more i e, of "cb_cluster C" q, unfolded same] comb_read_ok [OF assms(1), where ns = "comb_namespace (Suc i)" and now = now and obj = obj and s = "cb_cluster C"] Inl
        by (auto simp: same_but_def)
      then show ?thesis using Called None Inl i by (simp add: comb_step_def)
    next
      case (Inr put)
      then have "put_fits (view (cb_cluster C) (comb_namespace (Suc i), tr_name obj)) obj put"
        using comb_read_ok [OF assms(1), where ns = "comb_namespace (Suc i)" and now = now and obj = obj and s = "cb_cluster C"] by simp
      then have "calls_fit n (events @ [e]) (view (cb_cluster C)) ((cb_calls C)((i, tr_name obj) \<mapsto> (obj, put)))"
        using more i e unfolding comb_inv_def calls_fit_def by auto
      then have "comb_inv view n v0 (events @ [e]) (C\<lparr>cb_calls := (cb_calls C)((i, tr_name obj) \<mapsto> (obj, put))\<rparr>)"
        using more by (simp add: comb_inv_def)
      then show ?thesis using Called None Inr i by (simp add: comb_step_def)
    qed
  qed (use Called more in \<open>simp add: comb_step_def\<close>)
next
  case (Answered i name)
  show ?thesis
  proof (cases "cb_calls C (i, name)")
    case (Some call)
    obtain obj put where call: "call = (obj, put)" by (rule prod.exhaust)
    have "calls_fit n events (view (cb_cluster C)) (cb_calls C)" using assms(2) by (simp add: comb_inv_def)
    then obtain now where c: "i < n" "tr_name obj = name" "Called i now obj \<in> set events"
      "put_fits (view (cb_cluster C) (comb_namespace (Suc i), tr_name obj)) obj put"
      using Some call unfolding calls_fit_def by blast
    obtain q s where w: "comb_write A (comb_namespace (Suc i)) put (cb_cluster C) = (q, s)" by (rule prod.exhaust)
    have "comb_inv view n v0 events (comb_end i obj q (C\<lparr>cb_calls := (cb_calls C)((i, tr_name obj) := None), cb_cluster := s\<rparr>))"
      by (rule comb_end_ok [OF assms(2) c(1,3) comb_write_ok [OF assms(1) c(4) w]])
    from comb_inv_more [OF this] show ?thesis using Answered Some call w c(1,2) by (simp add: comb_step_def)
  qed (use Answered comb_inv_more [OF assms(2)] in \<open>simp add: comb_step_def\<close>)
qed

lemma comb_run_ok:
  assumes "api_ok A view" "\<forall>e \<in> set events. \<forall>i now obj. e = Called i now obj \<longrightarrow> i < n"
  shows "comb_inv view n (view s) events (fold (comb_step A (comb_controllers n)) events \<lparr>cb_calls = (\<lambda>_. None), cb_done = [], cb_cluster = s\<rparr>)"
  using assms(2)
proof (induction events rule: rev_induct)
  case Nil
  then show ?case by (simp add: comb_inv_def calls_fit_def calls_done_def outputs_ok_def comb_passed_def comb_asked_def)
next
  case (snoc e events)
  then show ?case using comb_step_ok [OF assms(1), of n "view s" events _ e] by simp
qed

text \<open>C38: The comb of controllers from its start, on an API server that keeps its promises (\<open>api_ok\<close>: a write that
  fails may have been done all the same), with as many controllers as the environment says, or one. They are called
  on any resources, fresh or stale, in any order, and their calls overlap in any way, except that
  no controller is called on a resource while a call of it on the same resource is under way. Every call that
  ends was made; it succeeds, or is to be made again after a second. The nonce of each name in the output namespace of a controller
  is the highest of what it was and of the nonces that the controller has passed on, together with some of the others
  that it was called with; so no nonce falls. Once every controller
  has passed on a nonce of a name that is at least \<open>k\<close>, the name has a nonce of at least \<open>k\<close> in all the output
  namespaces. These are distinct, and nothing else changes. Whether the watches ask every controller is not
  up to this code.\<close>

theorem comb_run_correct:
  assumes "api_ok A view" "n = nat (nr_operators vars)"
    "\<forall>e \<in> set (watch (map comb_namespace [0..<n])). \<forall>i now obj. e = Called i now obj \<longrightarrow> i < n"
  shows "\<exists>C. comb_main vars (Some A) watch s = Ok C \<and> (let events = watch (map comb_namespace [0..<n]) in
    (\<forall>(i, obj, a) \<in> set (cb_done C). i < n \<and> a \<in> {Await_Change, Requeue 1} \<and> (\<exists>now. Called i now obj \<in> set events)) \<and>
    (\<forall>i < n. \<forall>name. \<exists>N. comb_passed i name (cb_done C) \<subseteq> N \<and> N \<subseteq> comb_asked i name events \<and>
       nonce_of (view (cb_cluster C)) (comb_namespace (Suc i)) name =
         highest (set_option (nonce_of (view s) (comb_namespace (Suc i)) name) \<union> N)) \<and>
    (\<forall>name k. (\<forall>i < n. \<exists>m \<in> comb_passed i name (cb_done C). k \<le> m) \<longrightarrow>
       (\<forall>i < n. \<exists>m\<ge>k. nonce_of (view (cb_cluster C)) (comb_namespace (Suc i)) name = Some m)) \<and>
    (\<forall>i j. comb_namespace i = comb_namespace j \<longrightarrow> i = j) \<and>
    (\<forall>ns name. ns \<notin> comb_namespace ` {1..n} \<longrightarrow> view (cb_cluster C) (ns, name) = view s (ns, name)))"
proof -
  let ?events = "watch (map comb_namespace [0..<n])"
  define C where "C = fold (comb_step A (comb_controllers n)) ?events \<lparr>cb_calls = (\<lambda>_. None), cb_done = [], cb_cluster = s\<rparr>"
  have "map fst (comb_controllers n) = map comb_namespace [0..<n]" by (simp add: comb_controllers_def)
  then have main: "comb_main vars (Some A) watch s = Ok C"
    using assms(2) by (simp add: comb_main_def comb_settings_def C_def)
  have inv: "calls_done n ?events (cb_done C)" "outputs_ok n (view s) ?events (view (cb_cluster C)) (cb_done C)"
    using comb_run_ok [OF assms(1,3), of s] by (simp_all add: comb_inv_def C_def)
  have "\<exists>m\<ge>k. nonce_of (view (cb_cluster C)) (comb_namespace (Suc i)) name = Some m"
    if h: "i < n" "p \<in> comb_passed i name (cb_done C)" "k \<le> p" for i name k p
  proof -
    from inv(2) [unfolded outputs_ok_def, THEN conjunct1, rule_format, OF h(1), of name]
    obtain N where N: "comb_passed i name (cb_done C) \<subseteq> N" "N \<subseteq> comb_asked i name ?events"
      "nonce_of (view (cb_cluster C)) (comb_namespace (Suc i)) name =
        highest (set_option (nonce_of (view s) (comb_namespace (Suc i)) name) \<union> N)" by (elim exE conjE)
    let ?M = "set_option (nonce_of (view s) (comb_namespace (Suc i)) name) \<union> N"
    have "finite ?M" "p \<in> ?M" using finite_subset [OF N(2) comb_asked_finite] N(1) h(2) by auto
    then have "p \<le> Max ?M" "?M \<noteq> {}" by (auto intro: Max_ge)
    then show ?thesis using N(3) h(3) by (auto simp: highest_def)
  qed
  then show ?thesis using main inv unfolding calls_done_def outputs_ok_def Let_def
    by (intro exI [of _ C] conjI) (assumption | blast | simp)+
qed

text \<open>An API server on a map, in which a write needs what it is about to be there, or not.\<close>

definition demo_api :: "(string \<times> string \<Rightarrow> test_resource option) api" where
  "demo_api = \<lparr>
     api_get = (\<lambda>ns name s. case s (ns, name) of
        Some r \<Rightarrow> if tr_name r = name then Inr r else Inl Other_Error
      | None \<Rightarrow> Inl (Api_Error 404)),
     api_replace = (\<lambda>ns name r s. if s (ns, name) \<noteq> None \<and> tr_name r = name then (Inr (), s((ns, name) \<mapsto> r)) else (Inl Other_Error, s)),
     api_create = (\<lambda>ns r s. if s (ns, tr_name r) = None then (Inr (), s((ns, tr_name r) \<mapsto> r)) else (Inl (Api_Error 409), s))\<rparr>"

definition demo_view :: "(string \<times> string \<Rightarrow> test_resource option) \<Rightarrow> string \<times> string \<Rightarrow> test_resource option" where
  "demo_view s = (\<lambda>(ns, name). case s (ns, name) of
     Some r \<Rightarrow> if tr_name r = name then Some r else None
   | None \<Rightarrow> None)"

lemma demo_view_upd: "demo_view (s((ns, tr_name r) \<mapsto> r)) = (demo_view s)((ns, tr_name r) \<mapsto> r)"
  by (auto simp: demo_view_def fun_eq_iff)

lemma demo_api_ok: "api_ok demo_api demo_view"
proof -
  have "demo_view s (ns, name) = Some r \<longrightarrow> tr_name r = name" for s ns name r
    by (simp add: demo_view_def split: option.splits)
  moreover have "api_get demo_api ns name s = Inr r \<longrightarrow> demo_view s (ns, name) = Some r" for s ns name r
    by (simp add: demo_api_def demo_view_def split: option.splits)
  moreover have "api_get demo_api ns name s = Inl (Api_Error 404) \<longrightarrow> demo_view s (ns, name) = None" for s ns name
    by (simp add: demo_api_def demo_view_def split: option.splits)
  moreover have "api_replace demo_api ns name r s = (Inr (), s') \<longrightarrow> demo_view s' = (demo_view s)((ns, name) \<mapsto> r)"
    for s s' ns name r by (auto simp: demo_api_def demo_view_upd split: if_splits)
  moreover have "api_replace demo_api ns name r s = (Inl e, s') \<longrightarrow>
      demo_view s' = demo_view s \<or> demo_view s' = (demo_view s)((ns, name) \<mapsto> r)" for s s' ns name r e
    by (simp add: demo_api_def)
  moreover have "api_create demo_api ns r s = (Inr (), s') \<longrightarrow> demo_view s' = (demo_view s)((ns, tr_name r) \<mapsto> r)"
    for s s' ns r by (auto simp: demo_api_def demo_view_upd split: if_splits)
  moreover have "api_create demo_api ns r s = (Inl e, s') \<longrightarrow>
      demo_view s' = demo_view s \<or> demo_view s' = (demo_view s)((ns, tr_name r) \<mapsto> r)" for s s' ns r e
    by (simp add: demo_api_def)
  ultimately show ?thesis unfolding api_ok_def by blast
qed

text \<open>The second controller is called with an old version of the resource while the first is still writing, and again afterwards.\<close>

definition demo_comb_watch :: "string list \<Rightarrow> comb_event list" where
  "demo_comb_watch namespaces =
     [Called 0 7 (test_resource_new ''r'' 5 0), Called 1 8 (test_resource_new ''r'' 3 0), Answered 1 ''r'', Answered 0 ''r'',
      Called 1 9 (test_resource_new ''r'' 5 7), Answered 1 ''r'']"

theorem comb_run_correct_witness:
  "\<exists>C. comb_main [''NR_OPERATORS'' \<mapsto> ''2''] (Some demo_api) demo_comb_watch (\<lambda>_. None) = Ok C \<and> length (cb_done C) = 3 \<and>
     (\<forall>i < 2. \<exists>m\<ge>5. nonce_of (demo_view (cb_cluster C)) (comb_namespace (Suc i)) ''r'' = Some m)"
proof -
  have n: "nat (nr_operators [''NR_OPERATORS'' \<mapsto> ''2'']) = 2"
    by (simp add: nr_operators_def var_or_def parse_i32_def parse_nat_def)
  have "\<exists>C. comb_main [''NR_OPERATORS'' \<mapsto> ''2''] (Some demo_api) demo_comb_watch (\<lambda>_. None) = Ok C \<and> length (cb_done C) = 3 \<and>
      5 \<in> comb_passed 0 ''r'' (cb_done C) \<and> 5 \<in> comb_passed 1 ''r'' (cb_done C)"
    by (simp add: comb_main_def comb_settings_def n demo_comb_watch_def comb_controllers_def upt_conv_Cons comb_step_def comb_read_def
        comb_write_def comb_end_def demo_api_def answer_def test_resource_new_def comb_test_resource_def comb_passed_def Let_def)
      (auto intro!: exI [of _ "test_resource_new ''r'' 5 0"] exI [of _ "test_resource_new ''r'' 5 7"] simp: test_resource_new_def)
  then obtain C where C: "comb_main [''NR_OPERATORS'' \<mapsto> ''2''] (Some demo_api) demo_comb_watch (\<lambda>_. None) = Ok C" "length (cb_done C) = 3"
    "5 \<in> comb_passed 0 ''r'' (cb_done C)" "5 \<in> comb_passed 1 ''r'' (cb_done C)" by blast
  have "\<forall>e \<in> set (demo_comb_watch (map comb_namespace [0..<2])). \<forall>i now obj. e = Called i now obj \<longrightarrow> i < 2"
    by (auto simp: demo_comb_watch_def)
  from comb_run_correct [OF demo_api_ok n [symmetric], where watch = demo_comb_watch, OF this, of "\<lambda>_. None"] C(1)
  have "\<forall>name k. (\<forall>i < 2. \<exists>m \<in> comb_passed i name (cb_done C). k \<le> m) \<longrightarrow>
       (\<forall>i < 2. \<exists>m\<ge>k. nonce_of (demo_view (cb_cluster C)) (comb_namespace (Suc i)) name = Some m)"
    by (simp only: Let_def) auto
  moreover have "\<forall>i < 2. \<exists>m \<in> comb_passed i ''r'' (cb_done C). 5 \<le> m"
    using C(3,4) by (auto simp: less_2_cases_iff)
  ultimately show ?thesis using C(1,2) by blast
qed

section \<open>A run of a ring controller\<close>

text \<open>C30: A ring controller from its start, on an API server that keeps its promises (\<open>api_ok\<close>: a write that fails may
  have been done all the same, as when its answer is lost): with a client and a size of memory that is a number and not too large, it
  watches the input namespace, and whatever resources it is asked to reconcile, in whatever order
  and however often, the nonce of each name in the output namespace ends as the highest of what it
  was and of the nonces that were passed on, together with some that it was asked to pass on and whose reconciliation failed.
  Such a resource is put back to be tried again after a second, and no other namespace changes. Both namespaces
  are \<open>default\<close> unless the environment says otherwise. With another size of memory it does not start. The calls
  are made one after the other: the library makes no two at a time on the same resource, and calls on
  different ones read and write different resources.\<close>

theorem ring_run_correct:
  assumes "api_ok A view"
  shows "case ring_main vars (Some A) watch s of
      Ok (q, s') \<Rightarrow>
        (let ins = var_or vars ''IN_NAMESPACE'' ''default''; out = var_or vars ''OUT_NAMESPACE'' ''default''; events = watch ins in
         \<exists>as. q = Reply as \<and> length as = length events \<and> set as \<subseteq> {Await_Change, Requeue 1} \<and>
           (\<forall>name. \<exists>N. passed_on name events as \<subseteq> N \<and> N \<subseteq> asked_for name events \<and>
              nonce_of (view s') out name = highest (set_option (nonce_of (view s) out name) \<union> N)) \<and>
           (\<forall>k. fst k \<noteq> out \<longrightarrow> view s' k = view s k))
    | Err _ \<Rightarrow> False
    | Panic p \<Rightarrow> (case parse_usize (var_or vars ''HEAP_MEM_SIZE'' ''0'') of
          None \<Rightarrow> p = Unwrap_None
        | Some n \<Rightarrow> p = Capacity_Overflow \<and> 2 ^ 31 \<le> unat n)"
proof (cases "parse_usize (var_or vars ''HEAP_MEM_SIZE'' ''0'')")
  case None
  then show ?thesis by (simp add: ring_main_def ring_settings_def heap_mem_def Let_def)
next
  case (Some n)
  show ?thesis
  proof (cases "unat n < 2 ^ 31")
    case True
    let ?out = "var_or vars ''OUT_NAMESPACE'' ''default''" and ?events = "watch (var_or vars ''IN_NAMESPACE'' ''default'')"
    obtain q s' where r: "run_controller (ring_reconcile A ?out) error_policy ?events s = (q, s')"
      by (cases "run_controller (ring_reconcile A ?out) error_policy ?events s")
    then have "ring_main vars (Some A) watch s = Ok (q, s')"
      using Some True by (simp add: ring_main_def ring_settings_def heap_mem_def Let_def)
    then show ?thesis using ring_run [OF assms r] by (simp add: Let_def)
  next
    case False
    then show ?thesis using Some by (simp add: ring_main_def ring_settings_def heap_mem_def Let_def)
  qed
qed

text \<open>The same resource twice, the second time an older version of it.\<close>

definition demo_vars :: env_vars where
  "demo_vars = [''OUT_NAMESPACE'' \<mapsto> ''out'', ''HEAP_MEM_SIZE'' \<mapsto> ''16'']"

definition demo_watch :: "string \<Rightarrow> (int \<times> test_resource) list" where
  "demo_watch ns = (if ns = ''default'' then [(1, test_resource_new ''r'' 5 0), (2, test_resource_new ''r'' 3 0)] else [])"

theorem ring_run_correct_witness:
  "\<exists>s'. ring_main demo_vars (Some demo_api) demo_watch (\<lambda>_. None) = Ok (Reply [Await_Change, Await_Change], s') \<and>
    nonce_of (demo_view s') ''out'' ''r'' = Some 5"
proof -
  have heap: "parse_usize ''16'' = Some 16" by (simp add: parse_usize_def parse_nat_def)
  have "\<exists>s'. ring_main demo_vars (Some demo_api) demo_watch (\<lambda>_. None) = Ok (Reply [Await_Change, Await_Change], s')"
    by (simp add: ring_main_def ring_settings_def heap_mem_def demo_vars_def demo_watch_def var_or_def heap ring_reconcile_def
        demo_api_def demo_view_def test_resource_new_def answer_def Let_def)
  then obtain s' where s': "ring_main demo_vars (Some demo_api) demo_watch (\<lambda>_. None) = Ok (Reply [Await_Change, Await_Change], s')" by blast
  have "passed_on ''r'' (demo_watch ''default'') [Await_Change, Await_Change] = {5, 3}" "asked_for ''r'' (demo_watch ''default'') = {5, 3}"
    by (simp add: demo_watch_def passed_on_Cons test_resource_new_def, simp add: passed_on_def)
      (simp add: demo_watch_def asked_for_Cons test_resource_new_def, simp add: asked_for_def)
  moreover have "var_or demo_vars ''IN_NAMESPACE'' ''default'' = ''default''" "var_or demo_vars ''OUT_NAMESPACE'' ''default'' = ''out''"
    by (simp_all add: var_or_def demo_vars_def)
  with ring_run_correct [OF demo_api_ok, of demo_vars demo_watch "\<lambda>_. None"] s'
  have "\<forall>name. \<exists>N. passed_on name (demo_watch ''default'') [Await_Change, Await_Change] \<subseteq> N \<and> N \<subseteq> asked_for name (demo_watch ''default'') \<and>
      nonce_of (demo_view s') ''out'' name = highest (set_option (nonce_of (demo_view (\<lambda>_. None)) ''out'' name) \<union> N)" by (auto simp: Let_def)
  from spec [OF this, of "''r''"] obtain N where "passed_on ''r'' (demo_watch ''default'') [Await_Change, Await_Change] \<subseteq> N"
    "N \<subseteq> asked_for ''r'' (demo_watch ''default'')"
    "nonce_of (demo_view s') ''out'' ''r'' = highest (set_option (nonce_of (demo_view (\<lambda>_. None)) ''out'' ''r'') \<union> N)" by (elim exE conjE)
  moreover have "nonce_of (demo_view (\<lambda>_. None)) ''out'' ''r'' = None" by (simp add: nonce_of_def demo_view_def)
  ultimately have "nonce_of (demo_view s') ''out'' ''r'' = highest {5, 3}" by (metis Un_empty_left option.set(1) subset_antisym)
  then show ?thesis using s' by (simp add: highest_def)
qed

end
