(* ===== verification/Guest_Inv.thy ===== *)
theory Guest_Inv
  imports Guest Runner_Correct
begin

text \<open>
  The table of awaited results of a controller, and the link to the host that fills it: a result the
  host hands over is always awaited.
\<close>

section \<open>Well-formed tables\<close>

text \<open>
  Every awaited identifier has a cell of its own, and a cell that is not marked as holding a value
  holds none.
\<close>

definition guest_wf :: "guest \<Rightarrow> bool" where
  "guest_wf G \<longleftrightarrow>
     (\<forall>i a. gu_pending G i = Some a \<longrightarrow> a < length (gu_cells G)) \<and>
     (\<forall>i j a. gu_pending G i = Some a \<longrightarrow> gu_pending G j = Some a \<longrightarrow> i = j) \<and>
     (\<forall>state \<in> set (gu_cells G). \<not> as_has_value state \<longrightarrow> as_value state = None)"

lemma guest_wfD:
  assumes "guest_wf G"
  shows "gu_pending G i = Some a \<Longrightarrow> a < length (gu_cells G)"
    and "gu_pending G i = Some a \<Longrightarrow> gu_pending G j = Some a \<Longrightarrow> i = j"
    and "a < length (gu_cells G) \<Longrightarrow> \<not> as_has_value (gu_cells G ! a) \<Longrightarrow> as_value (gu_cells G ! a) = None"
  using assms unfolding guest_wf_def by (blast, blast, simp)

lemma guest_wf_new: "guest_wf guest_new"
  by (simp add: guest_wf_def guest_new_def)

lemma guest_wf_update:
  assumes "guest_wf G" "\<not> as_has_value state \<Longrightarrow> as_value state = None"
    "gu_cells G' = (gu_cells G)[a := state]" "\<And>i b. gu_pending G' i = Some b \<Longrightarrow> gu_pending G i = Some b"
  shows "guest_wf G'"
  using assms set_update_subset_insert [of "gu_cells G" a state] unfolding guest_wf_def by fastforce

lemma start_async_wf:
  assumes "guest_wf G" "start_async i G = (a, G')"
  shows "guest_wf G'"
proof -
  have g: "gu_cells G' = gu_cells G @ [\<lparr>as_has_value = False, as_value = None, as_waker = Noop_Waker\<rparr>]"
    "gu_pending G' = (gu_pending G)(i := Some (length (gu_cells G)))"
    using assms(2) by (auto simp: start_async_def)
  show ?thesis unfolding guest_wf_def g
    using guest_wfD [OF assms(1)] assms(1) [unfolded guest_wf_def] by (auto simp: less_Suc_eq split: if_splits)
qed

lemma deliver_Ok_iff: "(\<exists>G'. deliver i finished val G = Ok G') \<longleftrightarrow> gu_pending G i \<noteq> None"
  by (auto simp: deliver_def Let_def obind_Ok_iff)

lemma deliver_parts:
  assumes "deliver i finished val G = Ok G'"
  obtains a state where "gu_pending G i = Some a" "gu_cells G' = (gu_cells G)[a := state]" "as_has_value state"
    "as_value state = (if val = None then as_value (gu_cells G ! a) else val)"
    "gu_pending G' = (if finished = 1 then (gu_pending G)(i := None) else gu_pending G)"
    "gu_woken G' = wake_task (as_waker (gu_cells G ! a)) (gu_woken G)"
proof -
  obtain a where a: "gu_pending G i = Some a" using assms by (auto simp: deliver_def obind_Ok_iff)
  let ?s = "(if val \<noteq> None then (gu_cells G ! a)\<lparr>as_value := val\<rparr> else gu_cells G ! a)\<lparr>as_has_value := True\<rparr>"
  show thesis
    by (rule that [of a ?s]) (use assms a in \<open>auto simp: deliver_def Let_def\<close>)
qed

lemma deliver_wf:
  assumes "guest_wf G" "deliver i finished val G = Ok G'"
  shows "guest_wf G'"
proof -
  obtain a state where d: "gu_pending G i = Some a" "gu_cells G' = (gu_cells G)[a := state]" "as_has_value state"
    "gu_pending G' = (if finished = 1 then (gu_pending G)(i := None) else gu_pending G)"
    by (rule deliver_parts [OF assms(2)])
  show ?thesis
    by (rule guest_wf_update [OF assms(1) _ d(2)]) (use d(3,4) in \<open>auto split: if_splits\<close>)
qed

lemma abi_poll_wf:
  assumes "guest_wf G" "abi_poll a cx G = (p, G')"
  shows "guest_wf G'"
proof -
  have "guest_wf (G\<lparr>gu_cells := (gu_cells G)[a := snd (async_poll cx (gu_cells G ! a))]\<rparr>)"
  proof (cases "a < length (gu_cells G)")
    case True
    then show ?thesis
      by (intro guest_wf_update [OF assms(1), where state = "snd (async_poll cx (gu_cells G ! a))" and a = a])
        (auto simp: async_poll_def guest_wfD(3) [OF assms(1)])
  qed (use assms(1) in \<open>simp add: not_less list_update_beyond guest_wf_def\<close>)
  then show ?thesis using assms(2) by (auto simp: abi_poll_def split: prod.splits)
qed

lemma abi_poll_next_wf: "guest_wf G \<Longrightarrow> abi_poll_next a cx G = (p, G') \<Longrightarrow> guest_wf G'"
  using abi_poll_wf [of G a cx p G'] by (simp add: abi_poll_def abi_poll_next_def async_poll_def async_poll_next_def)

lemma abi_poll_pending: "abi_poll a cx G = (p, G') \<Longrightarrow> gu_pending G' = gu_pending G"
  by (auto simp: abi_poll_def split: prod.splits)

lemma execute_request_wf:
  assumes "guest_wf G" "execute_request deserialize cx stage G = Ok (r, G')"
  shows "guest_wf G'"
proof -
  have body: "guest_wf G2" if "guest_wf G1" "poll_body cx a m G1 = Ok (r, G2)" for a m G1 G2
    using that abi_poll_wf [of G1 a cx] by (auto simp: poll_body_def obind_Ok_iff split: prod.splits poll.splits)
  show ?thesis
  proof (cases stage)
    case (Await_Head a)
    obtain p G1 where p: "abi_poll a cx G = (p, G1)" by (cases "abi_poll a cx G")
    have "guest_wf G1" by (rule abi_poll_wf [OF assms(1) p])
    then show ?thesis using assms(2) Await_Head p body
      by (cases p) (auto simp: execute_request_def obind_Ok_iff)
  next
    case (Await_Body a m)
    then show ?thesis using assms body [of G a m G'] by (simp add: execute_request_def)
  qed
qed

lemma execute_request_stream_wf:
  assumes "guest_wf G" "execute_request_stream deserialize cx stage G = Ok (r, G')"
  shows "guest_wf G'"
  using assms abi_poll_wf [OF assms(1)]
  by (cases stage) (auto simp: execute_request_stream_def obind_Ok_iff split: prod.splits poll.splits)

section \<open>The link to the host\<close>

text \<open>
  A controller and its host: the context and the runner on one side, the table on the other. The
  controller makes a request or asks for a delay, and starts to await the identifier it gets
  back; the host collects a result and delivers it; the controller polls a cell.
\<close>

record link =
  ln_ctx :: controller_ctx
  ln_runner :: runner
  ln_guest :: guest

inductive link_run :: "build \<Rightarrow> 'req host_env \<Rightarrow> link \<Rightarrow> bool" for b E where
  link_new: "link_run b E \<lparr>ln_ctx = controller_ctx_new c, ln_runner = runner_new, ln_guest = guest_new\<rparr>"
| link_request: "link_run b E L \<Longrightarrow> unat (cx_request_id_counter (ln_ctx L)) + 1 < 2 ^ 64 \<Longrightarrow>
    abi_request b E mem ptr len stream (ln_ctx L, ln_runner L) = Ok (i, cx, R) \<Longrightarrow> start_async i (ln_guest L) = (a, G) \<Longrightarrow>
    link_run b E \<lparr>ln_ctx = cx, ln_runner = R, ln_guest = G\<rparr>"
| link_delay: "link_run b E L \<Longrightarrow> unat (cx_request_id_counter (ln_ctx L)) + 1 < 2 ^ 64 \<Longrightarrow>
    abi_delay E millis (ln_ctx L, ln_runner L) = Ok (i, cx, R) \<Longrightarrow> start_async i (ln_guest L) = (a, G) \<Longrightarrow>
    link_run b E \<lparr>ln_ctx = cx, ln_runner = R, ln_guest = G\<rparr>"
| link_nothing: "link_run b E L \<Longrightarrow>
    collect_loop E tick ((ln_runner L)\<lparr>rn_have_unpolled_ops := False\<rparr>) = (Ok None, tick', R) \<Longrightarrow>
    link_run b E (L\<lparr>ln_runner := R\<rparr>)"
| link_result: "link_run b E L \<Longrightarrow>
    collect_loop E tick ((ln_runner L)\<lparr>rn_have_unpolled_ops := False\<rparr>) = (Ok (Some r), tick', R) \<Longrightarrow>
    deliver (ar_id r) (if ar_finished r then 1 else 0) (ar_value r) (ln_guest L) = Ok G \<Longrightarrow>
    link_run b E (L\<lparr>ln_runner := R, ln_guest := G\<rparr>)"
| link_poll: "link_run b E L \<Longrightarrow> abi_poll a cx (ln_guest L) = (p, G) \<Longrightarrow> link_run b E (L\<lparr>ln_guest := G\<rparr>)"

definition awaited :: "(u64 \<times> 'req request_value) list \<Rightarrow> async_result list \<Rightarrow> u64 \<Rightarrow> bool" where
  "awaited reqs out i \<longleftrightarrow> i \<in> fst ` set reqs \<and> (\<forall>r \<in> set out. ar_id r = i \<longrightarrow> \<not> ar_finished r)"

definition link_ok :: "'req host_env \<Rightarrow> (u64 \<times> 'req request_value) list \<Rightarrow> async_result list \<Rightarrow> link \<Rightarrow> bool" where
  "link_ok E reqs out L \<longleftrightarrow> runner_run E reqs out (ln_runner L) \<and> ids_below (cx_request_id_counter (ln_ctx L)) reqs \<and>
     guest_wf (ln_guest L) \<and> (\<forall>i. gu_pending (ln_guest L) i \<noteq> None \<longleftrightarrow> awaited reqs out i)"

text \<open>A result that is collected belongs to a request, and none before it has ended that request.\<close>

lemma finished_last:
  assumes "xs @ r # ys = op_posts (fst (request_op i net q))"
  shows "\<forall>x \<in> set xs. \<not> ar_finished x" "ar_finished r \<Longrightarrow> ys = []"
proof -
  have w: "well_ended (fst (request_op i net q))" by (rule request_op_ended)
  have b: "butlast (xs @ r # ys) = xs @ butlast (r # ys)" by (simp add: butlast_append)
  have "\<forall>x \<in> set (butlast (xs @ r # ys)). \<not> ar_finished x"
    using w in_set_butlastD [of _ "xs @ r # ys"] unfolding well_ended_def Let_def assms [symmetric] by (fastforce split: if_splits)
  then show "\<forall>x \<in> set xs. \<not> ar_finished x" "ar_finished r \<Longrightarrow> ys = []" unfolding b by (auto split: if_splits)
qed

lemma last_awaited:
  assumes "runner_run E reqs (out @ [r]) R"
  shows "awaited reqs out (ar_id r)" "ar_finished r \<Longrightarrow> left_of (ar_id r) R = []"
proof -
  let ?i = "ar_id r"
  have s: "stream_of ?i (out @ [r]) @ left_of ?i R =
      (case map_of reqs ?i of Some q \<Rightarrow> op_posts (fst (request_op ?i (he_net E) q)) | None \<Rightarrow> [])"
    using runner_run_ok [OF assms] unfolding run_ok_def by blast
  then obtain q where q: "map_of reqs ?i = Some q" by (cases "map_of reqs ?i") auto
  have p: "stream_of ?i out @ r # left_of ?i R = op_posts (fst (request_op ?i (he_net E) q))" using s q by simp
  have "?i \<in> fst ` set reqs" using q by (metis map_of_eq_None_iff option.distinct(1))
  then show "awaited reqs out ?i" using finished_last(1) [OF p] by (auto simp: awaited_def stream_of_def)
  show "ar_finished r \<Longrightarrow> left_of ?i R = []" by (rule finished_last(2) [OF p])
qed

lemma collected_awaited:
  assumes "runner_run E reqs out R" "collect_loop E tick (R\<lparr>rn_have_unpolled_ops := False\<rparr>) = (Ok (Some r), tick', R')"
  shows "awaited reqs out (ar_id r)" "ar_finished r \<Longrightarrow> left_of (ar_id r) R' = []"
  using run_collect [OF assms] last_awaited [of E reqs out r R'] by simp_all

lemma link_step_request:
  assumes "link_ok E reqs out L" "runner_run E (reqs @ [(i, q)]) out R" "ids_below (cx_request_id_counter cx) (reqs @ [(i, q)])"
    "i = cx_request_id_counter (ln_ctx L)" "start_async i (ln_guest L) = (a, G)"
  shows "link_ok E (reqs @ [(i, q)]) out \<lparr>ln_ctx = cx, ln_runner = R, ln_guest = G\<rparr>"
proof -
  have ok: "runner_run E reqs out (ln_runner L)" "ids_below i reqs" "guest_wf (ln_guest L)"
    "\<And>j. gu_pending (ln_guest L) j \<noteq> None \<longleftrightarrow> awaited reqs out j"
    using assms(1,4) by (auto simp: link_ok_def)
  have new: "map_of reqs i = None" using ok(2) by (force simp: ids_below_def map_of_eq_None_iff)
  have "stream_of i out = []" using runner_run_ok [OF ok(1)] new by (auto simp: run_ok_def dest: spec [of _ i])
  then have "\<forall>r \<in> set out. ar_id r \<noteq> i" by (auto simp: stream_of_def filter_empty_conv)
  then have "awaited (reqs @ [(i, q)]) out j \<longleftrightarrow> j = i \<or> awaited reqs out j" for j by (auto simp: awaited_def)
  moreover have "gu_pending G j \<noteq> None \<longleftrightarrow> j = i \<or> gu_pending (ln_guest L) j \<noteq> None" for j
    using assms(5) by (auto simp: start_async_def)
  ultimately show ?thesis
    using assms(2,3) start_async_wf [OF ok(3) assms(5)] ok(4) by (simp add: link_ok_def)
qed

lemma link_run_ok: "link_run b E L \<Longrightarrow> \<exists>reqs out. link_ok E reqs out L"
proof (induction rule: link_run.induct)
  case (link_new c)
  then show ?case
    by (intro exI [of _ "[]"]) (use guest_wf_new in \<open>simp add: link_ok_def run_new ids_below_def awaited_def guest_new_def\<close>)
next
  case (link_request L mem ptr len stream i cx R a G)
  then obtain reqs out where ok: "link_ok E reqs out L" by blast
  then obtain q where "i = cx_request_id_counter (ln_ctx L)" "cx_request_id_counter cx = i + 1"
    "runner_run E (reqs @ [(i, q)]) out R" "ids_below (i + 1) (reqs @ [(i, q)])"
    using abi_request_run [OF link_request.hyps(3) _ _ link_request.hyps(2)] unfolding link_ok_def by blast
  then show ?case using link_step_request [OF ok _ _ _ link_request.hyps(4), of q R cx] by auto
next
  case (link_delay L millis i cx R a G)
  then obtain reqs out where ok: "link_ok E reqs out L" by blast
  then obtain q where "i = cx_request_id_counter (ln_ctx L)" "cx_request_id_counter cx = i + 1"
    "runner_run E (reqs @ [(i, q)]) out R" "ids_below (i + 1) (reqs @ [(i, q)])"
    using abi_delay_run [OF link_delay.hyps(3) _ _ link_delay.hyps(2)] unfolding link_ok_def by blast
  then show ?case using link_step_request [OF ok _ _ _ link_delay.hyps(4), of q R cx] by auto
next
  case (link_nothing L tick tick' R)
  then obtain reqs out where "link_ok E reqs out L" by blast
  then show ?case using run_collect [of E reqs out "ln_runner L" tick None tick' R] link_nothing.hyps(2)
    by (intro exI [of _ reqs] exI [of _ out]) (auto simp: link_ok_def)
next
  case (link_result L tick r tick' R G)
  then obtain reqs out where ok: "link_ok E reqs out L" by blast
  then have run: "runner_run E reqs out (ln_runner L)" by (simp add: link_ok_def)
  have "runner_run E reqs (out @ [r]) R" using run_collect [OF run link_result.hyps(2)] by simp
  moreover have "awaited reqs (out @ [r]) j \<longleftrightarrow> awaited reqs out j \<and> \<not> (j = ar_id r \<and> ar_finished r)" for j
    by (auto simp: awaited_def)
  moreover have "gu_pending G j \<noteq> None \<longleftrightarrow> gu_pending (ln_guest L) j \<noteq> None \<and> \<not> (j = ar_id r \<and> ar_finished r)" for j
    by (rule deliver_parts [OF link_result.hyps(3)]) (auto split: if_splits)
  ultimately show ?case using ok deliver_wf [OF _ link_result.hyps(3)]
    by (intro exI [of _ reqs] exI [of _ "out @ [r]"]) (simp add: link_ok_def)
next
  case (link_poll L a cx p G)
  then show ?case using abi_poll_wf [OF _ link_poll.hyps(2)] abi_poll_pending [OF link_poll.hyps(2)]
    by (auto simp: link_ok_def)
qed

text \<open>What is awaited is still to come, unless the operation fails.\<close>

lemma link_awaits:
  assumes "link_run b E L" "gu_pending (ln_guest L) i \<noteq> None"
  shows "(\<exists>q. op_error (fst (request_op i (he_net E) q)) \<noteq> None) \<or> (\<exists>x \<in> set (left_of i (ln_runner L)). ar_finished x)"
proof -
  obtain reqs out where ok: "link_ok E reqs out L" using link_run_ok [OF assms(1)] by blast
  then have a: "awaited reqs out i" using assms(2) by (simp add: link_ok_def)
  then obtain q where q: "map_of reqs i = Some q" by (metis awaited_def map_of_eq_None_iff not_None_eq)
  let ?posts = "op_posts (fst (request_op i (he_net E) q))"
  have s: "stream_of i out @ left_of i (ln_runner L) = ?posts"
    using runner_run_ok q ok by (fastforce simp: link_ok_def run_ok_def)
  show ?thesis
  proof (cases "op_error (fst (request_op i (he_net E) q))")
    case None
    then have "\<exists>x \<in> set ?posts. ar_finished x"
      using request_op_ended [of i "he_net E" q] last_in_set by (auto simp: well_ended_def Let_def)
    moreover have "\<forall>x \<in> set (stream_of i out). \<not> ar_finished x" using a by (auto simp: awaited_def stream_of_def)
    ultimately show ?thesis unfolding s [symmetric] by auto
  qed blast
qed

end
