(* ===== verification/Guest_Engine.thy ===== *)
theory Guest_Engine
  imports Guest_Inv Wasm_Runtime
begin

text \<open>
  The host and a controller on the two sides of the linear memory: the exported functions
  \<open>allocate\<close> (\<open>memory.rs\<close>), \<open>wakeup\<close> (\<open>executor.rs\<close>) and \<open>_start\<close> (the \<open>main\<close> of a controller), as the engine
  runs them when the host calls them.
\<close>

section \<open>Exported functions\<close>

text \<open>
  \<open>Vec::with_capacity\<close> and its pointer. Nothing is allocated for no bytes, and the pointer is then the
  alignment; a capacity of more than \<open>isize::MAX\<close> is a panic. The allocator yields an address
  in the memory, which it may have grown, or fails; both failures trap.
\<close>

type_synonym allocator = "u32 \<Rightarrow> u8 list \<Rightarrow> (u32 \<times> u8 list) option"

definition guest_allocate :: "allocator \<Rightarrow> u32 \<Rightarrow> u8 list \<Rightarrow> (u32 \<times> u8 list) option" where
  "guest_allocate alloc sz mem =
     (if sz = 0 then Some (1, mem)
      else if 2 ^ 31 \<le> unat sz then None
      else alloc sz mem)"

text \<open>\<open>ptr.is_null()\<close> and \<open>Vec::from_raw_parts\<close>.\<close>

definition vec_from_raw_parts :: "u8 list \<Rightarrow> u32 \<Rightarrow> u32 \<Rightarrow> u8 list option" where
  "vec_from_raw_parts mem ptr len = (if ptr = 0 then None else Some (take (unat len) (drop (unat ptr) mem)))"

text \<open>The \<open>main\<close> of a controller: it spawns its main task, which is polled like one that was woken.\<close>

definition guest_main :: "(guest \<Rightarrow> 'a outcome) \<Rightarrow> nat \<Rightarrow> guest \<Rightarrow> 'a outcome" where
  "guest_main run_until_stalled main_async G =
     (let G = get_mut_executor G in run_until_stalled (G\<lparr>gu_woken := gu_woken G @ [main_async]\<rparr>))"

section \<open>An instance that runs a controller\<close>

text \<open>
  The instance exports its memory. The tables of the controller are somewhere in it, where \<open>view\<close> finds them. Calls of \<open>allocate\<close> and \<open>wakeup\<close>
  do what these functions do; what is written to a block that was just allocated changes no
  table. A run of the tasks yields the instance and the calls of host functions it makes; a panic traps.
\<close>

definition runs_controller ::
  "('vm, 'val) vm_ops \<Rightarrow> ('vm \<Rightarrow> guest) \<Rightarrow> allocator \<Rightarrow> (u64 \<Rightarrow> 'vm \<Rightarrow> guest \<Rightarrow> ('vm \<times> guest_call list) outcome) \<Rightarrow> bool" where
  "runs_controller V view alloc run \<longleftrightarrow>
     (\<forall>vm. vm_exports_memory V vm) \<and>
     (\<forall>sz i vm. case guest_allocate alloc sz (vm_memory V vm) of
        None \<Rightarrow> vm_allocate V sz i vm = None
      | Some (ptr, mem) \<Rightarrow> \<exists>vm'. vm_allocate V sz i vm = Some (ptr, vm', []) \<and> vm_memory V vm' = mem \<and> view vm' = view vm \<and>
          (\<forall>bytes vm''. length bytes = unat sz \<longrightarrow> write_memory V (unat ptr) bytes vm' = Some vm'' \<longrightarrow>
             view vm'' = view vm \<and> take (length bytes) (drop (unat ptr) (vm_memory V vm'')) = bytes)) \<and>
     (\<forall>i finished ptr len j vm. vm_wakeup V i finished ptr len j vm =
        (case guest_wakeup (run j vm) i finished (vec_from_raw_parts (vm_memory V vm) ptr len) (view vm) of
           Ok r \<Rightarrow> Some r | _ \<Rightarrow> None))"

text \<open>The allocator hands out blocks that are in the memory and not at address 0.\<close>

definition alloc_ok :: "allocator \<Rightarrow> bool" where
  "alloc_ok alloc \<longleftrightarrow>
     (\<forall>sz mem ptr mem'. alloc sz mem = Some (ptr, mem') \<longrightarrow> ptr \<noteq> 0 \<and> unat ptr + unat sz \<le> length mem')"

text \<open>The tasks run after a delivery; a panic in it traps too.\<close>

definition run_tasks :: "(u64 \<Rightarrow> 'vm \<Rightarrow> guest \<Rightarrow> ('vm \<times> guest_call list) outcome) \<Rightarrow> guest outcome \<Rightarrow> u64 \<Rightarrow> 'vm \<Rightarrow>
    (unit \<times> 'vm \<times> guest_call list) option" where
  "run_tasks run delivered j vm = (case obind delivered (\<lambda>G. run j vm (get_mut_executor G)) of
     Ok (vm, cs) \<Rightarrow> Some ((), vm, cs) | _ \<Rightarrow> None)"

lemma runs_wakeup:
  assumes "runs_controller V view alloc run"
  shows "no_value (vm_wakeup V i finished ptr len j vm) =
    run_tasks run (deliver i finished (vec_from_raw_parts (vm_memory V vm) ptr len) (view vm)) j vm"
  using assms unfolding runs_controller_def
  by (simp add: guest_wakeup_def no_value_def run_tasks_def split: outcome.splits)

lemma runs_memory: "runs_controller V view alloc run \<Longrightarrow> get_memory V vm = Ok (vm_memory V vm)"
  by (simp add: runs_controller_def get_memory_def)

lemma runs_allocates:
  assumes "runs_controller V view alloc run"
  shows "case guest_allocate alloc sz (vm_memory V vm) of
        None \<Rightarrow> vm_allocate V sz i vm = None
      | Some (ptr, mem) \<Rightarrow> \<exists>vm'. vm_allocate V sz i vm = Some (ptr, vm', []) \<and> vm_memory V vm' = mem \<and> view vm' = view vm \<and>
          (\<forall>bytes vm''. length bytes = unat sz \<longrightarrow> write_memory V (unat ptr) bytes vm' = Some vm'' \<longrightarrow>
             view vm'' = view vm \<and> take (length bytes) (drop (unat ptr) (vm_memory V vm'')) = bytes)"
  using assms unfolding runs_controller_def by blast

lemma allocated:
  assumes "runs_controller V view alloc run" "alloc_ok alloc" "length bytes < 2 ^ 32"
    "vm_allocate V (of_nat (length bytes)) i vm = Some (ptr, vm', cs)" "write_memory V (unat ptr) bytes vm' = Some vm''"
  shows "cs = []" "view vm'' = view vm" "vec_from_raw_parts (vm_memory V vm'') ptr (of_nat (length bytes)) = Some bytes"
proof -
  let ?sz = "of_nat (length bytes) :: u32"
  have sz: "unat ?sz = length bytes" using assms(3) by (simp add: unat_of_nat take_bit_nat_eq_self)
  note r = runs_allocates [OF assms(1), where sz = ?sz and vm = vm and i = i]
  obtain mem where m: "guest_allocate alloc ?sz (vm_memory V vm) = Some (ptr, mem)"
    using r assms(4) by (auto split: option.splits)
  then have p: "ptr \<noteq> 0" using assms(2) by (auto simp: guest_allocate_def alloc_ok_def split: if_splits)
  show "cs = []" using r m assms(4) by auto
  have "view vm'' = view vm \<and> take (length bytes) (drop (unat ptr) (vm_memory V vm'')) = bytes"
    using r m assms(4,5) sz by auto
  then show "view vm'' = view vm" "vec_from_raw_parts (vm_memory V vm'') ptr ?sz = Some bytes"
    using p sz by (simp_all add: vec_from_raw_parts_def)
qed

lemma runs_allocate:
  assumes "runs_controller V view alloc run" "alloc_ok alloc" "length bytes < 2 ^ 31"
    "vm_memory V vm \<noteq> []" "bytes \<noteq> [] \<Longrightarrow> alloc (of_nat (length bytes)) (vm_memory V vm) \<noteq> None"
  obtains ptr vm' vm'' where "vm_allocate V (of_nat (length bytes)) i vm = Some (ptr, vm', [])"
    "write_memory V (unat ptr) bytes vm' = Some vm''" "ptr \<noteq> 0" "view vm'' = view vm"
    "vec_from_raw_parts (vm_memory V vm'') ptr (of_nat (length bytes)) = Some bytes"
proof -
  let ?sz = "of_nat (length bytes) :: u32"
  have sz: "unat ?sz = length bytes" using assms(3) by (simp add: unat_of_nat take_bit_nat_eq_self)
  have zero: "?sz = 0 \<longleftrightarrow> bytes = []" using sz by (metis length_0_conv unat_eq_zero)
  obtain ptr mem where a: "guest_allocate alloc ?sz (vm_memory V vm) = Some (ptr, mem)" "ptr \<noteq> 0"
    "unat ptr + length bytes \<le> length mem"
  proof (cases "bytes = []")
    case True
    then show thesis using that [of 1 "vm_memory V vm"] assms(4) zero by (simp add: guest_allocate_def Suc_le_eq)
  next
    case False
    then obtain ptr mem where "alloc ?sz (vm_memory V vm) = Some (ptr, mem)" using assms(5) by auto
    then show thesis using that [of ptr mem] assms(2,3) False zero sz by (fastforce simp: guest_allocate_def alloc_ok_def)
  qed
  obtain vm' where v: "vm_allocate V ?sz i vm = Some (ptr, vm', [])" "vm_memory V vm' = mem"
    using runs_allocates [OF assms(1), where sz = ?sz and vm = vm and i = i] a(1) by auto
  obtain vm'' where w: "write_memory V (unat ptr) bytes vm' = Some vm''"
    using v(2) a(3) by (simp add: write_memory_def)
  have "length bytes < 2 ^ 32" using assms(3) by simp
  note al = allocated [OF assms(1,2) this v(1) w]
  show thesis by (rule that [OF v(1) w a(2) al(2,3)])
qed

lemma abi_wakeup_runs:
  assumes "runs_controller V view alloc run" "alloc_ok alloc" "ms_inner st = GotInst cx vm" "vm_memory V vm \<noteq> []"
    "\<And>bytes. val = Some bytes \<Longrightarrow> length bytes < 2 ^ 31 \<and> (bytes \<noteq> [] \<longrightarrow> alloc (of_nat (length bytes)) (vm_memory V vm) \<noteq> None)"
  obtains vm' where "view vm' = view vm" "abi_wakeup b V E i val finished st =
    enter_guest b E (run_tasks run (deliver i (if finished then 1 else 0) val (view vm))) (st\<lparr>ms_inner := GotInst cx vm'\<rparr>)"
proof (cases val)
  case None
  have st: "st\<lparr>ms_inner := GotInst cx vm\<rparr> = st" using assms(3) by (cases st) simp
  show thesis
    by (rule that [of vm], unfold st, insert assms(3) None)
      (simp_all add: abi_wakeup_def act_bind_def act_run enter_guest_def runs_wakeup [OF assms(1)] vec_from_raw_parts_def)
next
  case (Some bytes)
  obtain ptr vm' vm'' where a: "vm_allocate V (of_nat (length bytes)) (cx_request_id_counter cx) vm = Some (ptr, vm', [])"
    "write_memory V (unat ptr) bytes vm' = Some vm''" "ptr \<noteq> 0" "view vm'' = view vm"
    "vec_from_raw_parts (vm_memory V vm'') ptr (of_nat (length bytes)) = Some bytes"
    by (rule runs_allocate [OF assms(1,2) _ assms(4), of bytes "cx_request_id_counter cx"])
      (use assms(5) Some in auto)
  show thesis
    by (rule that [OF a(4)], insert assms(3) Some a)
      (simp_all add: abi_wakeup_def abi_allocate_def memory_write_def runs_memory [OF assms(1)] act_bind_def act_run enter_guest_def
        runs_wakeup [OF assms(1)])
qed

end
