(* ===== verification/Module_Steps.thy ===== *)
theory Module_Steps
  imports Module_Inv
begin

text \<open>
  What a poll does to the controller of a module, wherever it is: not started, in memory, or in a
  snapshot and the swap file. An interface for invariants that follow the controller on its way
  through the works and the event loop: what they have to keep is stated for the few steps at
  which something happens to it.
\<close>

section \<open>Where the controller is\<close>

datatype ('vm, 'val) content = Not_Started | Instance 'vm | Saved "'val snapshot" "u8 list option"

definition content_of :: "('vm, 'val) module_state \<Rightarrow> (controller_ctx \<times> ('vm, 'val) content) option" where
  "content_of st = (case ms_inner st of
     NotInst cx \<Rightarrow> Some (cx, Not_Started)
   | GotInst cx vm \<Rightarrow> Some (cx, Instance vm)
   | UnsInst cx sn \<Rightarrow> Some (cx, Saved sn (ms_files st (ms_swap_path st)))
   | Locked \<Rightarrow> (case ms_wasm_work st of
         Some (Start_Waits cx) \<Rightarrow> Some (cx, Not_Started)
       | Some (Restore_Waits _ cx sn) \<Rightarrow> Some (cx, Saved sn (ms_files st (ms_swap_path st)))
       | _ \<Rightarrow> None))"

text \<open>The instance it becomes when it is brought into memory.\<close>

definition brought :: "('vm, 'val) vm_ops \<Rightarrow> string \<Rightarrow> ('vm, 'val) content \<Rightarrow> 'vm \<Rightarrow> bool" where
  "brought V path c vm = (case c of
     Not_Started \<Rightarrow> vm_load V path = Some vm
   | Instance vm' \<Rightarrow> vm' = vm
   | Saved sn file \<Rightarrow> restore_result V sn (vm_load V path) file = Ok vm)"

lemma brought_Instance: "brought V path (Instance vm) = (\<lambda>vm'. vm' = vm)"
  by (auto simp: brought_def fun_eq_iff)

definition work_of :: "'val wasm_work \<Rightarrow> work" where
  "work_of w = (case w of Fresh u \<Rightarrow> u | Start_Waits _ \<Rightarrow> Start | Restore_Waits u _ _ \<Rightarrow> u)"

lemma work_of_simps [simp]: "work_of (Fresh u) = u" "work_of (Start_Waits cx) = Start" "work_of (Restore_Waits u cx sn) = u"
  by (simp_all add: work_of_def)

definition run_task :: "build \<Rightarrow> ('vm, 'val) vm_ops \<Rightarrow> 'req host_env \<Rightarrow> work \<Rightarrow> ('vm, 'val, unit) mod_action" where
  "run_task b V E u = (case u of
     Start \<Rightarrow> abi_start_controller b V E
   | Wakeup i value finished \<Rightarrow> abi_wakeup b V E i value finished
   | _ \<Rightarrow> act_return ())"

abbreviation goes_on :: "(('vm, 'val) module_state \<Rightarrow> bool) \<Rightarrow> ('vm, 'val, 'a) mod_action \<Rightarrow> bool" where
  "goes_on P m \<equiv> act_ok UNIV P m (\<lambda>_. P) (\<lambda>_. True)"

lemma run_task_rule:
  assumes "goes_on P (enter_guest b E (\<lambda>j vm. no_value (vm_start V j vm)))"
    "\<And>n. goes_on P (enter_guest b E (vm_allocate V n))"
    "\<And>i f ptr len. goes_on P (enter_guest b E (\<lambda>j vm. no_value (vm_wakeup V i f ptr len j vm)))"
    "\<And>ptr bytes. goes_on P (memory_write V ptr bytes)"
  shows "goes_on P (run_task b V E u)"
proof -
  have pass: "goes_on P (case val of None \<Rightarrow> act_return (0, 0)
      | Some event \<Rightarrow> act_bind (abi_allocate b V E (of_nat (length event))) (\<lambda>ptr.
          act_bind (memory_write V ptr event) (\<lambda>_. act_return (ptr, of_nat (length event) :: u32))))" for val
    by (cases val) (auto intro!: act_ok_bind [OF assms(2)] act_ok_bind [OF assms(4)] act_ok_return simp: abi_allocate_def)
  show ?thesis
    by (cases u) (auto simp: run_task_def abi_start_controller_def abi_wakeup_def case_prod_unfold
        intro!: assms(1) act_ok_return act_ok_bind [OF pass] assms(3))
qed

section \<open>A poll of the work\<close>

lemma act_bind_Ok:
  assumes "act_bind m f st = (Ok x, st')"
  obtains y st1 where "m st = (Ok y, st1)" "f y st1 = (Ok x, st')"
  using assms by (auto simp: act_bind_def split: prod.splits outcome.splits)

lemma acquire_Ok:
  assumes "acquire waiting m st = (Ok p, st')"
  obtains (waits) "p = Pending" "ms_permits st = 0" "st' = st\<lparr>ms_wasm_work := Some waiting\<rparr>"
  | (acquired) "m (st\<lparr>ms_permits := ms_permits st - 1\<rparr>) = (Ok p, st')"
proof (cases "ms_permits st = 0")
  case True
  then show thesis using assms by (intro waits) (simp_all add: acquire_def)
next
  case False
  then show thesis using assms by (intro acquired) (simp add: acquire_def)
qed

text \<open>With the instance in memory, a work calls it and is over.\<close>

lemma called_Ok:
  assumes "ms_inner st = GotInst cx vm"
  shows "act_bind act_get (\<lambda>st. case ms_inner st of
      GotInst _ _ \<Rightarrow> act_bind m (\<lambda>_. act_return (Ready ())) | _ \<Rightarrow> act_lift (Panic Unreachable)) st = (Ok p, st') \<longleftrightarrow>
    m st = (Ok (), st') \<and> p = Ready ()"
proof (cases "m st")
  case (Pair r st1)
  then show ?thesis using assms by (cases r) (auto simp: act_bind_def act_run)
qed

lemma run_started_Ok:
  "ms_inner st = GotInst cx vm \<Longrightarrow> run_started b V E st = (Ok p, st') \<longleftrightarrow> run_task b V E Start st = (Ok (), st') \<and> p = Ready ()"
  unfolding run_started_def run_task_def work.case by (rule called_Ok)

lemma after_restore_Ok:
  assumes "ms_inner st = GotInst cx vm" "restores u"
  shows "after_restore b V E u st = (Ok p, st') \<longleftrightarrow> run_task b V E u st = (Ok (), st') \<and> p = Ready ()"
proof (cases u)
  case (Wakeup i val finished)
  show ?thesis unfolding Wakeup after_restore_def run_task_def work.case run_woken_def by (rule called_Ok [OF assms(1)])
next
  case Load_To_Mem
  then show ?thesis using assms(1) by (auto simp: after_restore_def run_loaded_def run_task_def act_run)
qed (use assms(2) in simp_all)

lemma start_acquired_Ok:
  assumes "start_acquired b V E cx st = (Ok p, st')"
  obtains vm where "vm_load V (ms_wasm_path st) = Some vm" "run_task b V E Start (st\<lparr>ms_inner := GotInst cx vm\<rparr>) = (Ok (), st')" "p = Ready ()"
proof -
  from assms [unfolded start_acquired_def] obtain vm st1 where 1: "act_guard add_permit (load_instance V) st = (Ok vm, st1)"
    "act_bind (set_inner (GotInst cx vm)) (\<lambda>_. run_started b V E) st1 = (Ok p, st')" by (rule act_bind_Ok)
  have "vm_load V (ms_wasm_path st) = Some vm" "st1 = st"
    using 1(1) by (auto simp: act_guard_def load_instance_def act_run or_err_def split: option.splits)
  then show thesis using that 1(2) run_started_Ok [of "st\<lparr>ms_inner := GotInst cx vm\<rparr>" cx vm b V E p st'] by (simp add: set_inner_def)
qed

lemma restored_Ok:
  assumes "act_bind (restore_acquired V cx sn) (\<lambda>_. after_restore b V E u) st = (Ok p, st')" "restores u"
  obtains vm where "restore_result V sn (vm_load V (ms_wasm_path st)) (ms_files st (ms_swap_path st)) = Ok vm"
    "run_task b V E u (st\<lparr>ms_inner := GotInst cx vm\<rparr>) = (Ok (), st')" "p = Ready ()"
proof -
  from assms(1) obtain y st1 where 1: "restore_acquired V cx sn st = (Ok y, st1)" "after_restore b V E u st1 = (Ok p, st')"
    by (rule act_bind_Ok)
  from 1(1) [unfolded restore_acquired_def] obtain vm st2 where 2: "act_guard add_permit (restore_instance V sn) st = (Ok vm, st2)"
    "set_inner (GotInst cx vm) st2 = (Ok y, st1)" by (rule act_bind_Ok)
  have 3: "restore_result V sn (vm_load V (ms_wasm_path st)) (ms_files st (ms_swap_path st)) = Ok vm" "st2 = st"
    using 2(1) by (auto simp: act_guard_def restore_instance_eq split: outcome.splits)
  then have "st1 = st\<lparr>ms_inner := GotInst cx vm\<rparr>" using 2(2) by (auto simp: set_inner_def act_run)
  then show thesis using that [OF 3(1)] 1(2) after_restore_Ok [OF _ assms(2), of "st\<lparr>ms_inner := GotInst cx vm\<rparr>" cx vm b V E p st'] by simp
qed

text \<open>
  The works end in three ways: they wait for a permit, they have swapped the controller out, or
  they have brought it into memory and called it.
\<close>

definition still_waits :: "'val wasm_work \<Rightarrow> ('vm, 'val) module_state \<Rightarrow> ('vm, 'val) module_state \<Rightarrow> bool" where
  "still_waits w st st' \<longleftrightarrow> (\<exists>w'. ms_wasm_work st' = Some w' \<and> work_of w' = work_of w) \<and> content_of st' = content_of st \<and>
     ms_runner st' = ms_runner st \<and> ms_wasm_path st' = ms_wasm_path st \<and> ms_tick st' = ms_tick st \<and>
     ms_permits st = 0 \<and> instances st = 0"

definition swaps_out :: "('vm, 'val) vm_ops \<Rightarrow> ('vm, 'val) module_state \<Rightarrow> ('vm, 'val) module_state \<Rightarrow> bool" where
  "swaps_out V st st' \<longleftrightarrow> (\<exists>cx vm. ms_inner st = GotInst cx vm \<and> ms_inner st' = UnsInst cx (take_snapshot V vm) \<and>
     vm_exports_memory V vm \<and> ms_files st' (ms_swap_path st') = Some (vm_memory V vm) \<and> ms_runner st' = ms_runner st \<and> ms_wasm_path st' = ms_wasm_path st) \<and>
     ms_tick st \<le> ms_tick st'"

definition runs_in_memory :: "build \<Rightarrow> ('vm, 'val) vm_ops \<Rightarrow> 'req host_env \<Rightarrow> work \<Rightarrow> ('vm, 'val) module_state \<Rightarrow> ('vm, 'val) module_state \<Rightarrow> bool" where
  "runs_in_memory b V E u st st' \<longleftrightarrow> (\<exists>cx c vm st1. content_of st = Some (cx, c) \<and> brought V (ms_wasm_path st) c vm \<and>
     ms_inner st1 = GotInst cx vm \<and> ms_runner st1 = ms_runner st \<and> ms_wasm_path st1 = ms_wasm_path st \<and>
     ms_tick st1 = ms_tick st \<and> run_task b V E u st1 = (Ok (), st'))"

lemma run_start_Ok:
  assumes "ms_inner st = NotInst cx" "run_start b V E st = (Ok p, st')"
  shows "p = Pending \<and> still_waits (Fresh Start) st st' \<or> p = Ready () \<and> runs_in_memory b V E Start st st'"
proof -
  have "acquire (Start_Waits cx) (start_acquired b V E cx) (st\<lparr>ms_inner := Locked\<rparr>) = (Ok p, st')"
    using assms by (simp add: run_start_def take_not_def inst_take_def inst_set_def set_inner_def)
  then show ?thesis
  proof (cases rule: acquire_Ok)
    case waits
    then show ?thesis using assms(1) by (simp add: still_waits_def content_of_def instances_def)
  next
    case acquired
    let ?st = "\<lambda>vm. st\<lparr>ms_permits := ms_permits st - 1, ms_inner := GotInst cx vm\<rparr>"
    obtain vm where vm: "vm_load V (ms_wasm_path st) = Some vm" "run_task b V E Start (?st vm) = (Ok (), st')" "p = Ready ()"
      by (rule start_acquired_Ok [OF acquired]) simp
    have "runs_in_memory b V E Start st st'" unfolding runs_in_memory_def
      by (rule exI [of _ cx], rule exI [of _ Not_Started], rule exI [of _ vm], rule exI [of _ "?st vm"])
        (use assms(1) vm in \<open>simp add: content_of_def brought_def\<close>)
    then show ?thesis using vm(3) by simp
  qed
qed

lemma restored_runs:
  assumes "act_bind (restore_acquired V cx sn) (\<lambda>_. after_restore b V E u) st1 = (Ok p, st')" "restores u"
    "content_of st = Some (cx, Saved sn (ms_files st (ms_swap_path st)))" "ms_runner st1 = ms_runner st"
    "ms_wasm_path st1 = ms_wasm_path st" "ms_files st1 = ms_files st" "ms_swap_path st1 = ms_swap_path st" "ms_tick st1 = ms_tick st"
  shows "p = Ready () \<and> runs_in_memory b V E u st st'"
proof -
  obtain vm where vm: "restore_result V sn (vm_load V (ms_wasm_path st1)) (ms_files st1 (ms_swap_path st1)) = Ok vm"
    "run_task b V E u (st1\<lparr>ms_inner := GotInst cx vm\<rparr>) = (Ok (), st')" "p = Ready ()"
    by (rule restored_Ok [OF assms(1,2)])
  have "runs_in_memory b V E u st st'" unfolding runs_in_memory_def
    by (rule exI [of _ cx], rule exI [of _ "Saved sn (ms_files st (ms_swap_path st))"], rule exI [of _ vm],
        rule exI [of _ "st1\<lparr>ms_inner := GotInst cx vm\<rparr>"]) (use assms vm in \<open>simp add: brought_def\<close>)
  then show ?thesis using vm(3) by simp
qed

lemma restore_work_eq:
  "restores u \<Longrightarrow> poll_work b V E (Fresh u) = act_bind act_get (\<lambda>st.
     let (taken, rest) = take_uns (ms_inner st) in
     act_bind (set_inner rest) (\<lambda>_.
     case taken of
       UnsInst cx sn \<Rightarrow> acquire (Restore_Waits u cx sn) (act_bind (restore_acquired V cx sn) (\<lambda>_. after_restore b V E u))
     | _ \<Rightarrow> after_restore b V E u))"
proof (cases u)
  case (Wakeup i val finished)
  show ?thesis unfolding Wakeup poll_work_def run_wakeup_def after_restore_def wasm_work.case work.case by (rule refl)
next
  case Load_To_Mem
  show ?thesis unfolding Load_To_Mem poll_work_def run_load_to_mem_def after_restore_def wasm_work.case work.case by (rule refl)
qed simp_all

lemma run_restore_Ok:
  assumes "ms_inner st = UnsInst cx sn \<or> ms_inner st = GotInst cx vm" "restores u" "poll_work b V E (Fresh u) st = (Ok p, st')"
  shows "p = Pending \<and> still_waits (Fresh u) st st' \<or> p = Ready () \<and> runs_in_memory b V E u st st'"
  using assms(1)
proof
  assume i: "ms_inner st = UnsInst cx sn"
  then have "acquire (Restore_Waits u cx sn) (act_bind (restore_acquired V cx sn) (\<lambda>_. after_restore b V E u))
      (st\<lparr>ms_inner := Locked\<rparr>) = (Ok p, st')"
    using assms(3) by (simp add: restore_work_eq [OF assms(2)] take_uns_def inst_take_def inst_set_def set_inner_def)
  then show ?thesis
  proof (cases rule: acquire_Ok)
    case waits
    then show ?thesis using i by (simp add: still_waits_def content_of_def instances_def)
  next
    case acquired
    then show ?thesis using restored_runs [OF acquired assms(2), of st] i by (simp add: content_of_def)
  qed
next
  assume i: "ms_inner st = GotInst cx vm"
  then have st: "st\<lparr>ms_inner := GotInst cx vm\<rparr> = st" by (cases st) simp
  have "after_restore b V E u (st\<lparr>ms_inner := GotInst cx vm\<rparr>) = (Ok p, st')"
    using assms(3) i by (simp add: restore_work_eq [OF assms(2)] take_uns_def set_inner_def)
  then have "after_restore b V E u st = (Ok p, st')" unfolding st .
  then have r: "run_task b V E u st = (Ok (), st')" "p = Ready ()" using after_restore_Ok [OF i assms(2), of b V E p st'] by simp_all
  have "runs_in_memory b V E u st st'" unfolding runs_in_memory_def
    by (rule exI [of _ cx], rule exI [of _ "Instance vm"], rule exI [of _ vm], rule exI [of _ st])
      (use i r in \<open>simp add: content_of_def brought_def\<close>)
  then show ?thesis using r(2) by simp
qed

lemma run_uninstantiate_Ok:
  assumes "ms_inner st = GotInst cx vm" "run_uninstantiate V E st = (Ok p, st')"
  shows "p = Ready () \<and> swaps_out V st st'"
proof (cases "vm_exports_memory V vm \<and> he_write_ok E (ms_tick st)")
  case True
  then show ?thesis using assms run_uninstantiate_eq [OF assms(1), of V E] by (auto simp: swaps_out_def)
next
  case False
  then show ?thesis using assms
    by (auto simp: run_uninstantiate_def take_got_def inst_take_def inst_set_def set_inner_def act_bind_def act_guard_def act_run
      get_memory_def file_write_def next_tick_def split: if_splits)
qed

lemma poll_work_Ok:
  assumes "module_inv V n st" "ms_wasm_work st = Some w" "poll_work b V E w st = (Ok p, st')"
  obtains (waits) "p = Pending" "still_waits w st st'"
  | (saved) "p = Ready ()" "work_of w = Uninstantiate" "swaps_out V st st'"
  | (ran) "p = Ready ()" "work_of w \<noteq> Uninstantiate" "runs_in_memory b V E (work_of w) st st'"
proof (cases w)
  case (Fresh u)
  have phase: "phase_ok V st" using assms(1) by (simp add: module_inv_def)
  show thesis
  proof (cases "restores u")
    case True
    then have "\<exists>cx sn vm. ms_inner st = UnsInst cx sn \<or> ms_inner st = GotInst cx vm"
      using phase assms(2) Fresh by (cases u) (auto simp: phase_ok_def present_def absent_def)
    then show thesis using run_restore_Ok [OF _ True assms(3) [unfolded Fresh]] that Fresh True by (cases u) auto
  next
    case False
    then consider (start) cx where "u = Start" "ms_inner st = NotInst cx" | (out) cx vm where "u = Uninstantiate" "ms_inner st = GotInst cx vm"
      using phase assms(2) Fresh by (cases u) (auto simp: phase_ok_def present_def)
    then show thesis
    proof cases
      case start
      then show thesis using run_start_Ok [OF start(2), of b V E p st'] assms(3) that Fresh by (auto simp: poll_work_def)
    next
      case out
      then show thesis using run_uninstantiate_Ok [OF out(2), of V E p st'] assms(3) that Fresh by (auto simp: poll_work_def)
    qed
  qed
next
  case (Start_Waits cx)
  have i: "ms_inner st = Locked" using assms(1,2) Start_Waits by (simp add: module_inv_def phase_ok_def)
  have "acquire w (start_acquired b V E cx) st = (Ok p, st')" using assms(3) Start_Waits by (simp add: poll_work_def)
  then show thesis
  proof (cases rule: acquire_Ok)
    case waits
    moreover have "st\<lparr>ms_wasm_work := Some w\<rparr> = st" using assms(2) by (cases st) simp
    ultimately show thesis using that(1) assms(2) i by (simp add: still_waits_def instances_def)
  next
    case acquired
    let ?st = "\<lambda>vm. st\<lparr>ms_permits := ms_permits st - 1, ms_inner := GotInst cx vm\<rparr>"
    obtain vm where vm: "vm_load V (ms_wasm_path st) = Some vm" "run_task b V E Start (?st vm) = (Ok (), st')" "p = Ready ()"
      by (rule start_acquired_Ok [OF acquired]) simp
    have "runs_in_memory b V E Start st st'" unfolding runs_in_memory_def
      by (rule exI [of _ cx], rule exI [of _ Not_Started], rule exI [of _ vm], rule exI [of _ "?st vm"])
        (use assms(2) i Start_Waits vm in \<open>simp add: content_of_def brought_def\<close>)
    then show thesis using that(3) vm(3) Start_Waits by simp
  qed
next
  case (Restore_Waits u cx sn)
  have i: "ms_inner st = Locked" "restores u" using assms(1,2) Restore_Waits by (simp_all add: module_inv_def phase_ok_def)
  have "acquire w (act_bind (restore_acquired V cx sn) (\<lambda>_. after_restore b V E u)) st = (Ok p, st')"
    using assms(3) Restore_Waits by (simp add: poll_work_def)
  then show thesis
  proof (cases rule: acquire_Ok)
    case waits
    moreover have "st\<lparr>ms_wasm_work := Some w\<rparr> = st" using assms(2) by (cases st) simp
    ultimately show thesis using that(1) assms(2) i by (simp add: still_waits_def instances_def)
  next
    case acquired
    then show thesis using restored_runs [OF acquired i(2), of st] that(3) i assms(2) Restore_Waits
      by (cases u) (auto simp: content_of_def)
  qed
qed

section \<open>A poll of the runtime\<close>

lemma poll_unpin_Ok:
  assumes "module_inv V n st" "poll_unpin b V E st = (Ok p, st')"
  obtains (none) "ms_wasm_work st = None" "p = Ready ()" "st' = st"
  | (waits) w where "ms_wasm_work st = Some w" "p = Pending" "still_waits w st st'"
  | (saved) w st1 where "ms_wasm_work st = Some w" "p = Ready ()" "work_of w = Uninstantiate" "swaps_out V st st1"
      "st' = st1\<lparr>ms_wasm_work := None\<rparr>"
  | (ran) w st1 where "ms_wasm_work st = Some w" "p = Ready ()" "work_of w \<noteq> Uninstantiate"
      "runs_in_memory b V E (work_of w) st st1" "st' = st1\<lparr>ms_wasm_work := None\<rparr>"
proof (cases "ms_wasm_work st")
  case None
  then show thesis using assms(2) by (intro that(1)) (auto simp: poll_unpin_def act_run)
next
  case (Some w)
  obtain q st1 where q: "poll_work b V E w st = (Ok q, st1)" and st': "p = q"
    "st' = (case q of Pending \<Rightarrow> st1 | Ready _ \<Rightarrow> st1\<lparr>ms_wasm_work := None\<rparr>)"
    using assms(2) Some by (auto simp: poll_unpin_def act_bind_def act_run split: prod.splits outcome.splits poll.splits)
  from poll_work_Ok [OF assms(1) Some q] show thesis
    by cases (use st' Some in \<open>auto intro: that(2-4)\<close>)
qed

section \<open>The rest of the event loop\<close>

text \<open>What it does not touch.\<close>

definition same_core :: "('vm, 'val) module_state \<Rightarrow> ('vm, 'val) module_state \<Rightarrow> bool" where
  "same_core st st' \<longleftrightarrow> ms_inner st' = ms_inner st \<and> ms_runner st' = ms_runner st \<and> ms_wasm_path st' = ms_wasm_path st \<and>
     ms_swap_path st' = ms_swap_path st \<and> ms_files st' = ms_files st"

lemma resolve_Ok:
  assumes "resolve_async_ops E st = (Ok again, st')" "ms_wasm_work st = None"
  obtains m tick R where "collect_loop E (ms_tick st) ((ms_runner st)\<lparr>rn_have_unpolled_ops := False\<rparr>) = (Ok m, tick, R)"
    "again = (m \<noteq> None)" "ms_wasm_work st' = map_option (\<lambda>r. Fresh (Wakeup (ar_id r) (ar_value r) (ar_finished r))) m"
    "same_core (st\<lparr>ms_runner := R\<rparr>) st'" "tick \<le> ms_tick st'"
proof -
  obtain r tick R where c: "collect_loop E (ms_tick st) ((ms_runner st)\<lparr>rn_have_unpolled_ops := False\<rparr>) = (r, tick, R)"
    by (rule prod_cases3)
  let ?st = "st\<lparr>ms_runner := R, ms_tick := tick\<rparr>"
  have co: "collect_result E st = (r, ?st)" using c by (simp add: collect_result_def)
  obtain m where m: "r = Ok m" using assms(1) co by (cases r) (auto simp: resolve_async_ops_def act_bind_def)
  show thesis
  proof (cases m)
    case None
    then show ?thesis using assms co c m by (intro that [of m tick R]) (auto simp: resolve_async_ops_def act_bind_def act_run same_core_def)
  next
    case (Some x)
    have "ms_wasm_work (snd (note_finished E x (snd (reset_failed_prediction E (snd (note_event E ?st)))))) = None"
      using assms(2) by (simp add: note_event_eq reset_failed_prediction_eq note_finished_eq)
    then show ?thesis
      using assms co c m Some
      by (intro that [of m tick R]) (auto simp: resolve_async_ops_def act_bind_def act_run note_event_eq
          reset_failed_prediction_eq note_finished_eq wasm_wakeup_eq same_core_def)
  qed
qed

text \<open>
  A step of the rest: nothing is set, or the work of bringing the controller back or of swapping it
  out. The count of calls to the surroundings only goes up.
\<close>

definition rest_of :: "('vm, 'val) module_state \<Rightarrow> ('vm, 'val) module_state \<Rightarrow> bool" where
  "rest_of st st' \<longleftrightarrow> same_core st st' \<and> ms_wasm_work st' \<in> {None, Some (Fresh Load_To_Mem), Some (Fresh Uninstantiate)} \<and>
     ms_tick st \<le> ms_tick st'"

lemma rest_of_frame [simp]:
  "rest_of st (st'\<lparr>ms_wakes := x\<rparr>) = rest_of st st'"
  "rest_of st (st'\<lparr>ms_sleep_vec := y\<rparr>) = rest_of st st'"
  "rest_of st (st'\<lparr>ms_predicted := z\<rparr>) = rest_of st st'"
  "rest_of st (st'\<lparr>ms_first_event_after_shutdown := u\<rparr>) = rest_of st st'"
  "rest_of st (st'\<lparr>ms_uninstantiating := u\<rparr>) = rest_of st st'"
  by (simp_all add: rest_of_def same_core_def)

lemma rest_of_tick [simp]: "rest_of st st' \<Longrightarrow> rest_of st (st'\<lparr>ms_tick := Suc (ms_tick st')\<rparr>)"
  by (simp add: rest_of_def same_core_def)

lemma rest_of_content:
  assumes "same_core (st\<lparr>ms_runner := R\<rparr>) st'" "ms_wasm_work st = None" "\<forall>w. ms_wasm_work st' = Some w \<longrightarrow> (\<exists>u. w = Fresh u)"
  shows "content_of st' = content_of st"
  using assms by (cases "ms_wasm_work st'") (auto simp: content_of_def same_core_def split: maybe_inst.splits)

lemma framed_rest [simp]: "framed (rest_of st)"
  by (simp add: framed_def)

lemma set_work_rest:
  assumes "w \<in> {Load_To_Mem, Uninstantiate}"
  shows "goes_on (rest_of st) (act_bind assert_idle (\<lambda>_. act_bind (set_wasm_work w) (\<lambda>_. set_uninstantiating u)))"
  using assms
  by (auto simp: act_ok_def assert_idle_def set_wasm_work_def set_uninstantiating_def act_bind_def act_run ensure_def
      rest_of_def same_core_def)

lemma rest_steps:
  "goes_on (rest_of st) wake_unpolled"
  "goes_on (rest_of st) (reset_missed_prediction t)"
  "goes_on (rest_of st) (maybe_load t)"
  "goes_on (rest_of st) (maybe_shut_down cu E t)"
  "goes_on (rest_of st) (drop_old_sleeps E)"
proof -
  have get: "goes_on (rest_of st) (act_bind act_get (\<lambda>s. if c s then m s else act_return ()))"
    if "\<And>s. goes_on (rest_of st) (m s)" for c and m :: "_ \<Rightarrow> (_, _, unit) mod_action"
    by (rule act_ok_get, rule act_ok_if) (auto intro!: act_ok_conseq [OF that] act_ok_return)
  have predict: "goes_on (rest_of st) (if c then predict E else act_return ())" for c
    using act_ok_conseq [OF predict_keeps [of "rest_of st" "\<lambda>_. True" E]] by (simp add: act_ok_return)
  show "goes_on (rest_of st) wake_unpolled" unfolding wake_unpolled_def by (rule get) (rule framed_ok(3), simp)
  show "goes_on (rest_of st) (reset_missed_prediction t)" unfolding reset_missed_prediction_def
    by (rule get) (intro act_ok_bind [OF act_ok_update [where Q = "\<lambda>_. rest_of st"] framed_ok(3)], simp_all)
  show "goes_on (rest_of st) (maybe_load t)" unfolding maybe_load_def wasm_load_to_mem_def
    by (rule get) (intro act_ok_bind [OF set_work_rest act_ok_bind [OF framed_ok(3) framed_ok(4)]], simp_all)
  show "goes_on (rest_of st) (maybe_shut_down cu E t)" unfolding maybe_shut_down_def wasm_uninstantiate_def
    by (rule get) (intro act_ok_bind [OF set_work_rest act_ok_bind [OF framed_ok(3) act_ok_bind [OF predict act_ok_update]]], simp_all)
  show "goes_on (rest_of st) (drop_old_sleeps E)" unfolding drop_old_sleeps_def
    by (rule act_ok_bind [OF framed_ok(1) act_ok_update]) simp_all
qed

lemma after_resolve_Ok:
  assumes "after_resolve cu b V E st = (Ok p, st')" "module_inv V n st" "engine_ok V"
  obtains (pending) "poll_unpin b V E st = (Ok Pending, st')"
  | (over) "poll_unpin b V E st = (Ok (Ready ()), st')"
  | (rest) st1 where "poll_unpin b V E st = (Ok (Ready ()), st1)" "rest_of st1 st'"
proof -
  obtain q st1 where q: "poll_unpin b V E st = (Ok q, st1)"
    and r: "(if q = Pending then act_return Pending
     else act_bind act_get (\<lambda>st.
       if rn_pending_ops (ms_runner st) = [] then act_return (Ready ())
       else
         act_bind wake_unpolled (\<lambda>_.
         act_bind (utc_now E) (\<lambda>current_time.
         act_bind (reset_missed_prediction current_time) (\<lambda>_.
         act_bind (maybe_load current_time) (\<lambda>_.
         act_bind (maybe_shut_down cu E current_time) (\<lambda>_.
         act_bind (drop_old_sleeps E) (\<lambda>_.
         act_return Pending)))))))) st1 = (Ok p, st')"
    using act_bind_Ok [OF assms(1) [unfolded after_resolve_def]] by blast
  show thesis
  proof (cases "q = Pending \<or> rn_pending_ops (ms_runner st1) = []")
    case True
    then show thesis using q r that(1,2) by (cases q) (auto simp: act_run split: if_splits)
  next
    case False
    then have i: "idle V n st1" and q': "q = Ready ()"
      using act_ok_Ok [OF poll_unpin_ok [OF assms(3)] assms(2) q] by (cases q; simp)+
    let ?m = "act_bind wake_unpolled (\<lambda>_.
         act_bind (utc_now E) (\<lambda>current_time.
         act_bind (reset_missed_prediction current_time) (\<lambda>_.
         act_bind (maybe_load current_time) (\<lambda>_.
         act_bind (maybe_shut_down cu E current_time) (\<lambda>_.
         act_bind (drop_old_sleeps E) (\<lambda>_.
         act_return Pending))))))"
    have "act_ok UNIV (rest_of st1) ?m (\<lambda>_. rest_of st1) (\<lambda>_. True)"
      by (intro act_ok_bind [OF rest_steps(1)] act_ok_bind [OF framed_ok(2)] act_ok_bind [OF rest_steps(2)]
          act_ok_bind [OF rest_steps(3)] act_ok_bind [OF rest_steps(4)] act_ok_bind [OF rest_steps(5)] act_ok_return) simp_all
    moreover have "rest_of st1 st1" using i by (simp add: rest_of_def same_core_def idle_def)
    moreover have "?m st1 = (Ok p, st')" using r False by (simp add: act_bind_get)
    ultimately have "rest_of st1 st'" by (rule act_ok_Ok)
    then show thesis using that(3) q q' by simp
  qed
qed

end
