(* ===== verification/Progress.thy ===== *)
theory Progress
  imports Module_Steps
begin

text \<open>
  Why a poll of the event loop returns: every turn of its loop that goes on hands over one result,
  and the results that can still come are limited, as long as the controller makes a limited
  number of requests, each with a limited number of results.
\<close>

section \<open>Results that are waiting\<close>

definition ops_results :: "opcall list \<Rightarrow> nat" where
  "ops_results ops = sum_list (map (\<lambda>c. length (call_posts c)) ops)"

definition waiting_results :: "runner \<Rightarrow> nat" where
  "waiting_results R = length (rn_channel R) + ops_results (rn_pending_ops R)"

lemma ops_results_simps [simp]:
  "ops_results [] = 0" "ops_results (c # ops) = length (call_posts c) + ops_results ops"
  "ops_results (xs @ ys) = ops_results xs + ops_results ys"
  by (simp_all add: ops_results_def)

lemma poll_ops_results:
  assumes "poll_ops sched ops ch = Ok (p, ops', ch')"
  shows "length ch' + ops_results ops' = length ch + ops_results ops"
  using assms
proof (induction sched ops ch arbitrary: p ops' ch' rule: poll_ops.induct)
  case (2 k n sched ops ch)
  show ?case
  proof (cases "k < length ops")
    case True
    obtain xs ys where ops: "ops = xs @ ops ! k # ys" "\<forall>c. ops[k := c] = xs @ c # ys" "drop_nth k ops = xs @ ys"
      by (rule split_at [OF True])
    obtain q c ch1 where q: "opcall_poll n (ops ! k) ch = Ok (q, c, ch1)"
      and r: "(case q of Ready r \<Rightarrow> Ok (Ready r, drop_nth k ops, ch1) | Pending \<Rightarrow> poll_ops sched (ops[k := c]) ch1) = Ok (p, ops', ch')"
      using 2(3) True by (auto simp: obind_Ok_iff)
    have sum: "length ch1 + ops_results (ops[k := c]) = length ch + ops_results ops"
      using opcall_poll_posts(1) [OF q] arg_cong [OF ops(1), of ops_results] ops(2) by auto
    show ?thesis
    proof (cases q)
      case Pending
      then show ?thesis using 2(1) [OF True q refl refl Pending, of p ops' ch'] r sum by simp
    next
      case (Ready x)
      then have "call_posts c = []" using opcall_poll_posts(2) [OF q] by simp
      moreover have "ops_results (drop_nth k ops) = ops_results xs + ops_results ys" by (simp add: ops(3))
      ultimately show ?thesis using r Ready sum ops(2) by auto
    qed
  qed (use 2 in simp)
qed simp

lemma collect_turn_results:
  assumes "collect_turn sched R = (Ok res, R')"
  shows "waiting_results R = waiting_results R' + (case res of Some (Some r) \<Rightarrow> 1 | _ \<Rightarrow> 0)"
proof -
  obtain p R1 where p: "poll_next_unpin sched R = (Ok p, R1)"
    using assms unfolding collect_turn_def by (auto simp: act_bind_def split: prod.splits outcome.splits)
  obtain R2 where a: "after_poll p R1 = (Ok (), R2)"
    using assms p unfolding collect_turn_def by (auto simp: act_bind_def split: prod.splits outcome.splits)
  have "waiting_results R1 = waiting_results R"
    using p poll_ops_results unfolding poll_next_unpin_def poll_next_op_def waiting_results_def
    by (auto simp: obind_Ok_iff split: outcome.splits if_splits)
  moreover have "waiting_results R2 = waiting_results R1"
    using a by (auto simp: after_poll_def take_web_call_def act_bind_def act_run ensure_def waiting_results_def
        split: poll.splits option.splits sum.splits if_splits)
  ultimately show ?thesis
    using assms p a by (auto simp: collect_turn_def act_bind_def act_run poll_recv_def waiting_results_def
        split: list.splits poll.splits option.splits)
qed

lemma collect_loop_results:
  assumes "collect_loop E tick R = (Ok res, tick', R')"
  shows "waiting_results R = waiting_results R' + (if res = None then 0 else 1)"
  using assms
proof (induction E tick R rule: collect_loop.induct)
  case (1 E tick R)
  obtain q R1 where t: "collect_turn (he_sched E tick) R = (q, R1)" by (cases "collect_turn (he_sched E tick) R")
  show ?case
  proof (cases q)
    case (Ok m)
    note sum = collect_turn_results [OF t [unfolded Ok]]
    show ?thesis
    proof (cases m)
      case None
      have "collect_loop E (Suc tick) R1 = (Ok res, tick', R')"
        using None Ok 1(2) t by (simp add: collect_loop.simps [of E tick R])
      then show ?thesis using 1(1) [OF t [symmetric] Ok [unfolded None] refl] sum None by simp
    next
      case (Some x)
      then show ?thesis using 1(2) t Ok sum by (cases x) (auto simp: collect_loop.simps [of E tick R])
    qed
  qed (use 1(2) t in \<open>auto simp: collect_loop.simps [of E tick R]\<close>)
qed

lemma handle_request_results:
  assumes "handle_request n net i q R = Ok R'"
  shows "waiting_results R' = waiting_results R + length (op_posts (fst (request_op i net q)))"
proof -
  obtain s v where sv: "request_op i net q = (s, v)" by (cases "request_op i net q")
  obtain p c ch' sent where m: "maybe_done_poll n (Fut s v) (rn_channel R) = Ok (p, c, ch')" "ch' = rn_channel R @ sent"
    "op_posts s = sent @ call_posts c"
    by (rule maybe_done_fresh)
  then show ?thesis
    using assms sv by (auto simp: handle_request_def opcall_eager_def handle_opcall_def waiting_results_def
        split: request_value.splits)
qed

section \<open>What the controller can still ask for\<close>

definition results_within :: "'req host_env \<Rightarrow> nat \<Rightarrow> bool" where
  "results_within E W \<longleftrightarrow> (\<forall>i q. length (op_posts (fst (request_op i (he_net E) q))) \<le> W)"

text \<open>A controller that makes at most \<open>N\<close> requests in its life: its next identifier counts them.\<close>

definition requests_within :: "('vm, 'val) vm_ops \<Rightarrow> nat \<Rightarrow> bool" where
  "requests_within V N \<longleftrightarrow> N < 2 ^ 64 \<and>
     (\<forall>i vm vm' cs. vm_start V i vm = Some (vm', cs) \<longrightarrow> length cs \<le> N - unat i) \<and>
     (\<forall>n i vm p vm' cs. vm_allocate V n i vm = Some (p, vm', cs) \<longrightarrow> length cs \<le> N - unat i) \<and>
     (\<forall>r f p n i vm vm' cs. vm_wakeup V r f p n i vm = Some (vm', cs) \<longrightarrow> length cs \<le> N - unat i)"

definition still :: "nat \<Rightarrow> nat \<Rightarrow> controller_ctx \<Rightarrow> runner \<Rightarrow> nat" where
  "still W N cx R = waiting_results R + W * (N - unat (cx_request_id_counter cx))"

lemma guest_calls_step:
  assumes "guest_calls b E (c # cs) (cx, R) = Ok s"
  obtains n q R1 where "handle_request n (he_net E) (cx_request_id_counter cx) q R = Ok R1"
    "guest_calls b E cs (cx\<lparr>cx_request_id_counter := cx_request_id_counter cx + 1\<rparr>, R1) = Ok s"
  using assms by (cases c) (auto simp: abi_request_def abi_delay_def fetch_add_def obind_Ok_iff)

lemma guest_calls_still:
  assumes "results_within E W" "guest_calls b E cs (cx, R) = Ok (cx', R')"
    "length cs \<le> N - unat (cx_request_id_counter cx)" "N < 2 ^ 64"
  shows "still W N cx' R' \<le> still W N cx R"
  using assms(2,3)
proof (induction cs arbitrary: cx R)
  case (Cons c cs)
  let ?i = "cx_request_id_counter cx"
  let ?cx = "cx\<lparr>cx_request_id_counter := ?i + 1\<rparr>"
  obtain n q R1 where r: "handle_request n (he_net E) ?i q R = Ok R1" "guest_calls b E cs (?cx, R1) = Ok (cx', R')"
    by (rule guest_calls_step [OF Cons.prems(1)])
  have i: "unat (?i + 1) = Suc (unat ?i)"
    using Cons.prems(2) assms(4) by (simp add: unat_word_ariths)
  have "waiting_results R1 \<le> waiting_results R + W"
    using handle_request_results [OF r(1)] assms(1) by (simp add: results_within_def)
  moreover have "W * (N - unat ?i) = W + W * (N - Suc (unat ?i))"
  proof -
    have "N - unat ?i = Suc (N - Suc (unat ?i))" using Cons.prems(2) by simp
    then show ?thesis by simp
  qed
  moreover have "still W N cx' R' \<le> still W N ?cx R1" using Cons.IH [OF r(2)] Cons.prems(2) i by simp
  ultimately show ?case by (simp add: still_def i)
qed simp

text \<open>How many results the module can still receive, wherever its controller is.\<close>

definition results_left :: "nat \<Rightarrow> nat \<Rightarrow> ('vm, 'val) module_state \<Rightarrow> nat" where
  "results_left W N st = (case content_of st of
     Some (cx, _) \<Rightarrow> still W N cx (ms_runner st)
   | None \<Rightarrow> waiting_results (ms_runner st))"

section \<open>Every step keeps within it\<close>

text \<open>With the instance in memory and at most \<open>K\<close> results left.\<close>

definition got_within :: "nat \<Rightarrow> nat \<Rightarrow> nat \<Rightarrow> ('vm, 'val) module_state \<Rightarrow> bool" where
  "got_within W N K st \<longleftrightarrow> (\<exists>cx vm. ms_inner st = GotInst cx vm \<and> still W N cx (ms_runner st) \<le> K)"

lemma enter_guest_left:
  assumes "results_within E W" "N < 2 ^ 64"
    "\<And>i vm x vm' cs. call i vm = Some (x, vm', cs) \<Longrightarrow> length cs \<le> N - unat i"
  shows "goes_on (got_within W N K) (enter_guest b E call)"
proof (rule act_okI)
  fix st x st'
  assume k: "got_within W N K st" and e: "enter_guest b E call st = (Ok x, st')"
  obtain cx vm vm' cs cx' R' where r: "ms_inner st = GotInst cx vm" "call (cx_request_id_counter cx) vm = Some (x, vm', cs)"
    "guest_calls b E cs (cx, ms_runner st) = Ok (cx', R')" "st' = st\<lparr>ms_inner := GotInst cx' vm', ms_runner := R'\<rparr>"
    using e by (auto simp: enter_guest_def split: maybe_inst.splits option.splits outcome.splits prod.splits)
  have "still W N cx' R' \<le> still W N cx (ms_runner st)"
    by (rule guest_calls_still [OF assms(1) r(3) assms(3) [OF r(2)] assms(2)])
  then show "got_within W N K st'" using k r(1,4) by (auto simp: got_within_def)
qed simp_all

lemma memory_write_left: "goes_on (got_within W N K) (memory_write V ptr bytes)"
  by (rule act_okI) (auto simp: memory_write_def got_within_def split: maybe_inst.splits outcome.splits)

lemma run_task_left:
  assumes "results_within E W" "requests_within V N"
  shows "goes_on (got_within W N K) (run_task b V E u)"
proof -
  have N: "N < 2 ^ 64" using assms(2) by (simp add: requests_within_def)
  have start: "goes_on (got_within W N K) (enter_guest b E (\<lambda>j vm. no_value (vm_start V j vm)))"
    by (rule enter_guest_left [OF assms(1) N]) (use assms(2) in \<open>auto simp: no_value_def requests_within_def\<close>)
  have alloc: "goes_on (got_within W N K) (enter_guest b E (vm_allocate V n))" for n
    by (rule enter_guest_left [OF assms(1) N]) (use assms(2) in \<open>auto simp: requests_within_def\<close>)
  have wake: "goes_on (got_within W N K) (enter_guest b E (\<lambda>j vm. no_value (vm_wakeup V i f ptr len j vm)))" for i f ptr len
    by (rule enter_guest_left [OF assms(1) N]) (use assms(2) in \<open>auto simp: no_value_def requests_within_def\<close>)
  show ?thesis by (rule run_task_rule [OF start alloc wake memory_write_left])
qed

lemma poll_unpin_left:
  assumes "results_within E W" "requests_within V N" "module_inv V n st" "poll_unpin b V E st = (Ok p, st')"
  shows "results_left W N st' \<le> results_left W N st"
  using assms(3,4)
proof (cases rule: poll_unpin_Ok)
  case (waits w)
  then show ?thesis by (auto simp: still_waits_def results_left_def split: option.splits)
next
  case (saved w st1)
  then show ?thesis by (auto simp: swaps_out_def results_left_def content_of_def)
next
  case (ran w st1)
  then obtain cx c vm st0 where r: "content_of st = Some (cx, c)" "ms_inner st0 = GotInst cx vm" "ms_runner st0 = ms_runner st"
    "run_task b V E (work_of w) st0 = (Ok (), st1)"
    by (auto simp: runs_in_memory_def)
  have "got_within W N (results_left W N st) st1"
    by (rule act_ok_Ok [OF run_task_left [OF assms(1,2)] _ r(4)]) (use r in \<open>simp add: got_within_def results_left_def\<close>)
  then show ?thesis using ran by (auto simp: got_within_def results_left_def content_of_def)
qed simp

lemma resolve_left:
  assumes "resolve_async_ops E st = (Ok again, st')" "ms_wasm_work st = None"
  shows "results_left W N st' + (if again then 1 else 0) = results_left W N st"
proof -
  obtain m tick R where m: "collect_loop E (ms_tick st) ((ms_runner st)\<lparr>rn_have_unpolled_ops := False\<rparr>) = (Ok m, tick, R)"
    "again = (m \<noteq> None)" "ms_wasm_work st' = map_option (\<lambda>r. Fresh (Wakeup (ar_id r) (ar_value r) (ar_finished r))) m"
    "same_core (st\<lparr>ms_runner := R\<rparr>) st'"
    by (rule resolve_Ok [OF assms])
  have "waiting_results (ms_runner st) = waiting_results R + (if m = None then 0 else 1)"
    using collect_loop_results [OF m(1)] by (simp add: waiting_results_def)
  then show ?thesis using m(2-4) assms(2)
    by (cases m) (auto simp: results_left_def content_of_def still_def same_core_def split: maybe_inst.splits)
qed

section \<open>The loop returns\<close>

lemma turn_left:
  assumes "engine_ok V" "results_within E W" "requests_within V N" "module_inv V n st"
    "act_bind (poll_unpin b V E) (\<lambda>p. if p = Ready () then resolve_async_ops E else act_return False) st = (Ok again, st')"
  shows "module_inv V n st' \<and> results_left W N st' + (if again then 1 else 0) \<le> results_left W N st"
proof -
  obtain p st1 where p: "poll_unpin b V E st = (Ok p, st1)"
    and r: "(if p = Ready () then resolve_async_ops E else act_return False) st1 = (Ok again, st')"
    using assms(5) by (auto simp: act_bind_def split: prod.splits outcome.splits)
  have i: "module_inv V n st1 \<and> (p = Ready () \<longrightarrow> idle V n st1)"
    by (rule act_ok_Ok [OF poll_unpin_ok [OF assms(1)] assms(4) p])
  have l: "results_left W N st1 \<le> results_left W N st"
    by (rule poll_unpin_left [OF assms(2-4) p])
  show ?thesis
  proof (cases "p = Ready ()")
    case True
    then have "idle V n st1" "resolve_async_ops E st1 = (Ok again, st')" using i r by simp_all
    then show ?thesis
      using act_ok_Ok [OF resolve_async_ops_ok, of V n st1 E again st'] resolve_left [of E st1 again st' W N] l by (simp add: idle_def)
  next
    case False
    then show ?thesis using r l i by (simp add: act_run)
  qed
qed

lemma resolve_loop_returns:
  assumes "engine_ok V" "results_within E W" "requests_within V N" "module_inv V n st" "results_left W N st < k"
  shows "resolve_loop b V E k st \<noteq> None"
  using assms(4,5)
proof (induction k arbitrary: st)
  case (Suc k)
  let ?turn = "act_bind (poll_unpin b V E) (\<lambda>p. if p = Ready () then resolve_async_ops E else act_return False)"
  obtain q st1 where q: "?turn st = (q, st1)" by (cases "?turn st")
  show ?case
  proof (cases "q = Ok True")
    case True
    then have "module_inv V n st1 \<and> results_left W N st1 + 1 \<le> results_left W N st"
      using turn_left [OF assms(1-3) Suc.prems(1), of b True st1] q by simp
    then show ?thesis using Suc.IH [of st1] Suc.prems(2) q True by simp
  next
    case False
    then show ?thesis using q by (cases q) auto
  qed
qed simp

lemma resolve_loop_mono: "resolve_loop b V E k st = Some x \<Longrightarrow> k \<le> m \<Longrightarrow> resolve_loop b V E m st = Some x"
proof (induction k arbitrary: st m)
  case (Suc k)
  then obtain m' where m: "m = Suc m'" "k \<le> m'" by (cases m) auto
  then show ?case using Suc.IH [of _ m'] Suc.prems(1) by (auto split: prod.splits outcome.splits if_splits)
qed simp

lemma poll_event_loop_returns:
  assumes "engine_ok V" "results_within E W" "requests_within V N" "module_inv V n st"
  shows "\<exists>r st'. \<forall>k > results_left W N st. poll_event_loop k cu b V E st = Some (r, st')"
proof -
  let ?k = "Suc (results_left W N st)"
  obtain x where x: "resolve_loop b V E ?k st = Some x"
    using resolve_loop_returns [OF assms, of ?k b] by auto
  have "resolve_loop b V E k st = Some x" if "k > results_left W N st" for k
    using resolve_loop_mono [OF x] that by simp
  then have "poll_event_loop k cu b V E st = poll_event_loop ?k cu b V E st" if "k > results_left W N st" for k
    using that x by (simp add: poll_event_loop_def del: resolve_loop.simps)
  moreover have "poll_event_loop ?k cu b V E st \<noteq> None" using x by (auto simp: poll_event_loop_def simp del: resolve_loop.simps split: prod.splits outcome.splits)
  ultimately show ?thesis by (metis not_Some_eq surj_pair)
qed

end
