(* ===== verification/Loop_Law.thy ===== *)
theory Loop_Law
  imports Module_Steps Host
begin

text \<open>
  Two contracts for what holds of a module at any time: that the steps of its event loop keep it, a
  poll of the runtime, handing over a result, and the rest of a poll; and that it holds of a
  fresh module, whatever the others do. The second gives the contract for the modules of a host.
\<close>

locale loop_steps =
  fixes I :: "('vm, 'val) module_state \<Rightarrow> bool" and b :: build and V :: "('vm, 'val) vm_ops" and E :: "'req host_env"
  assumes runtime: "module_inv V l st \<Longrightarrow> I st \<Longrightarrow> poll_unpin b V E st = (Ok p, st') \<Longrightarrow> I st'"
    and resolve: "I st \<Longrightarrow> ms_wasm_work st = None \<Longrightarrow> resolve_async_ops E st = (Ok again, st') \<Longrightarrow> I st'"
    and rest: "I st \<Longrightarrow> ms_wasm_work st = None \<Longrightarrow> rest_of st st' \<Longrightarrow> I st'"
begin

lemma turn_kept:
  assumes "engine_ok V" "module_inv V l st" "I st"
    "act_bind (poll_unpin b V E) (\<lambda>p. if p = Ready () then resolve_async_ops E else act_return False) st = (Ok again, st')"
  shows "module_inv V l st' \<and> I st'"
proof -
  obtain p st1 where p: "poll_unpin b V E st = (Ok p, st1)"
    "(if p = Ready () then resolve_async_ops E else act_return False) st1 = (Ok again, st')"
    by (rule act_bind_Ok [OF assms(4)])
  have i: "module_inv V l st1 \<and> (p = Ready () \<longrightarrow> idle V l st1)"
    by (rule act_ok_Ok [OF poll_unpin_ok [OF assms(1)] assms(2) p(1)])
  have w: "I st1" by (rule runtime [OF assms(2,3) p(1)])
  show ?thesis
  proof (cases "p = Ready ()")
    case True
    then have "idle V l st1" "resolve_async_ops E st1 = (Ok again, st')" using i p(2) by simp_all
    then show ?thesis using act_ok_Ok [OF resolve_async_ops_ok, of V l st1 E again st'] resolve [OF w, of again st'] by (simp add: idle_def)
  next
    case False
    then show ?thesis using p(2) i w by (simp add: act_run)
  qed
qed

lemma loop_kept:
  assumes "engine_ok V" "module_inv V l st" "I st" "resolve_loop b V E k st = Some (Ok (), st')"
  shows "module_inv V l st' \<and> I st'"
  using assms(2-4)
proof (induction k arbitrary: st)
  case (Suc k)
  let ?turn = "act_bind (poll_unpin b V E) (\<lambda>p. if p = Ready () then resolve_async_ops E else act_return False)"
  obtain again st2 where t: "?turn st = (Ok again, st2)" "if again then resolve_loop b V E k st2 = Some (Ok (), st') else st2 = st'"
    using Suc.prems(3) by (auto split: prod.splits outcome.splits if_splits)
  then show ?case using turn_kept [OF assms(1) Suc.prems(1,2) t(1)] Suc.IH [of st2] by (cases again) auto
qed simp

lemma poll_kept:
  assumes "engine_ok V" "module_inv V l st" "I st" "poll_event_loop k cu b V E st = Some (Ok p, st')"
  shows "I st'"
proof -
  obtain st1 where r: "resolve_loop b V E k st = Some (Ok (), st1)" "after_resolve cu b V E st1 = (Ok p, st')"
    using assms(4) by (auto simp: poll_event_loop_def split: option.splits prod.splits outcome.splits)
  have i: "module_inv V l st1 \<and> I st1" by (rule loop_kept [OF assms(1-3) r(1)])
  have u: "I st2" "q = Ready () \<Longrightarrow> ms_wasm_work st2 = None" if "poll_unpin b V E st1 = (Ok q, st2)" for q st2
    using runtime [of l st1 q st2] act_ok_Ok [OF poll_unpin_ok [OF assms(1)] _ that, of l] that i by (simp_all add: idle_def)
  from r(2) conjunct1 [OF i] assms(1) show ?thesis
    by (cases rule: after_resolve_Ok) (use u rest in blast)+
qed

end

text \<open>Together with a fresh module, and with modules that share permits and files, it holds in a host.\<close>

locale loop_law = loop_steps I b V E
  for I :: "('vm, 'val) module_state \<Rightarrow> bool" and cu :: bool and b :: build and V :: "('vm, 'val) vm_ops" and E :: "'req host_env" +
  assumes fresh: "I ((module_new E (controller_ctx_new i) path swap q files)\<lparr>ms_wasm_work := Some (Fresh Start), ms_uninstantiating := False\<rparr>)"
    and share: "I st \<Longrightarrow> files (ms_swap_path st) = ms_files st (ms_swap_path st) \<Longrightarrow> I (st\<lparr>ms_permits := q, ms_files := files\<rparr>)"

sublocale loop_law \<subseteq> module_law I cu b V E
  by unfold_locales (auto intro: fresh share poll_kept simp: module_ok_def)

end
