(* ===== verification/Wired.thy ===== *)
theory Wired
  imports Guest_Engine Progress Loop_Law
begin

text \<open>
  A controller and its module, wherever the controller is: the identifiers in its table are those
  of the requests it has made whose last result it has not been woken with. Every step of the
  module's event loop keeps that, while the controller is started, called, swapped out and
  brought back.
\<close>

section \<open>A controller\<close>

text \<open>
  What a controller does with its table in a run, while it makes \<open>n\<close> requests and the next identifier
  is \<open>j\<close>: it awaits what it has asked for, polls what it awaits, and its executor takes tasks.
\<close>

inductive guest_runs :: "u64 \<Rightarrow> nat \<Rightarrow> guest \<Rightarrow> guest \<Rightarrow> bool" where
  runs_done: "guest_runs j 0 G G"
| runs_request: "start_async j G = (a, G1) \<Longrightarrow> guest_runs (j + 1) n G1 G' \<Longrightarrow> guest_runs j (Suc n) G G'"
| runs_poll: "abi_poll a cx G = (p, G1) \<Longrightarrow> guest_runs j n G1 G' \<Longrightarrow> guest_runs j n G G'"
| runs_poll_next: "abi_poll_next a cx G = (p, G1) \<Longrightarrow> guest_runs j n G1 G' \<Longrightarrow> guest_runs j n G G'"
| runs_tasks: "guest_runs j n (G\<lparr>gu_woken := tasks, gu_spawner := True\<rparr>) G' \<Longrightarrow> guest_runs j n G G'"

definition next_ids :: "u64 \<Rightarrow> nat \<Rightarrow> u64 list" where
  "next_ids j n = map (\<lambda>k. j + of_nat k) [0..<n]"

lemma next_ids_simps [simp]: "next_ids j 0 = []" "next_ids j (Suc n) = j # next_ids (j + 1) n"
  by (simp_all add: next_ids_def map_upt_Suc ac_simps del: upt_Suc)

lemma abi_poll_next_pending: "abi_poll_next a cx G = (p, G') \<Longrightarrow> gu_pending G' = gu_pending G"
  by (auto simp: abi_poll_next_def split: prod.splits)

lemma guest_runs_table:
  assumes "guest_runs j n G G'" "guest_wf G"
  shows "guest_wf G'" "gu_pending G' i \<noteq> None \<longleftrightarrow> gu_pending G i \<noteq> None \<or> i \<in> set (next_ids j n)"
proof -
  from assms have "guest_wf G' \<and> (\<forall>i. gu_pending G' i \<noteq> None \<longleftrightarrow> gu_pending G i \<noteq> None \<or> i \<in> set (next_ids j n))"
  proof (induction rule: guest_runs.induct)
    case (runs_request j G a G1 n G')
    have "gu_pending G1 = (gu_pending G)(j := Some a)" using runs_request.hyps(1) by (auto simp: start_async_def)
    then show ?case using runs_request.IH start_async_wf [OF runs_request.prems runs_request.hyps(1)] by auto
  next
    case (runs_poll a cx G p G1 j n G')
    then show ?case using abi_poll_wf [OF runs_poll.prems runs_poll.hyps(1)] abi_poll_pending [OF runs_poll.hyps(1)] by simp
  next
    case (runs_poll_next a cx G p G1 j n G')
    then show ?case
      using abi_poll_next_wf [OF runs_poll_next.prems runs_poll_next.hyps(1)] abi_poll_next_pending [OF runs_poll_next.hyps(1)] by simp
  next
    case (runs_tasks j n G tasks G')
    then show ?case by (simp add: guest_wf_def)
  qed simp
  then show "guest_wf G'" "gu_pending G' i \<noteq> None \<longleftrightarrow> gu_pending G i \<noteq> None \<or> i \<in> set (next_ids j n)" by blast+
qed

text \<open>
  An instance of a controller: it is loaded with an empty table, which lies in what a snapshot
  keeps, and awaits each request it makes, from its main function or from its tasks.
\<close>

definition awaits_requests ::
  "('vm, 'val) vm_ops \<Rightarrow> ('vm \<Rightarrow> guest) \<Rightarrow> (u64 \<Rightarrow> 'vm \<Rightarrow> guest \<Rightarrow> ('vm \<times> guest_call list) outcome) \<Rightarrow> bool" where
  "awaits_requests V view run \<longleftrightarrow>
     (\<forall>path vm. vm_load V path = Some vm \<longrightarrow> view vm = guest_new) \<and>
     (\<forall>vm vm'. vm_memory V vm' = vm_memory V vm \<longrightarrow> mutable_globals V vm' = mutable_globals V vm \<longrightarrow>
        exports V vm' = exports V vm \<longrightarrow> view vm' = view vm) \<and>
     (\<forall>j vm vm' cs. vm_start V j vm = Some (vm', cs) \<longrightarrow> guest_runs j (length cs) (view vm) (view vm')) \<and>
     (\<forall>j vm G vm' cs. run j vm G = Ok (vm', cs) \<longrightarrow> guest_runs j (length cs) G (view vm'))"

lemma awaits_requestsD:
  assumes "awaits_requests V view run"
  shows "vm_load V path = Some vm \<Longrightarrow> view vm = guest_new"
    "vm_memory V vm' = vm_memory V vm \<Longrightarrow> mutable_globals V vm' = mutable_globals V vm \<Longrightarrow>
      exports V vm' = exports V vm \<Longrightarrow> view vm' = view vm"
    "vm_start V j vm = Some (vm', cs) \<Longrightarrow> guest_runs j (length cs) (view vm) (view vm')"
    "run j vm G = Ok (vm', cs) \<Longrightarrow> guest_runs j (length cs) G (view vm')"
  using assms unfolding awaits_requests_def by blast+

text \<open>A body has less than \<open>2 ^ 32\<close> bytes: its length is passed in 32 bits.\<close>

definition bodies_within :: "'req host_env \<Rightarrow> bool" where
  "bodies_within E \<longleftrightarrow> (\<forall>i q. \<forall>r \<in> set (op_posts (fst (request_op i (he_net E) q))).
     \<forall>bytes. ar_value r = Some bytes \<longrightarrow> length bytes < 2 ^ 32)"

section \<open>A call that returns\<close>

lemma enter_guest_Ok:
  assumes "enter_guest b E call st = (Ok x, st')" "ms_inner st = GotInst cx vm"
  obtains vm' cs cx' R' where "call (cx_request_id_counter cx) vm = Some (x, vm', cs)"
    "guest_calls b E cs (cx, ms_runner st) = Ok (cx', R')" "st' = st\<lparr>ms_inner := GotInst cx' vm', ms_runner := R'\<rparr>"
  using assms by (auto simp: enter_guest_def split: option.splits outcome.splits prod.splits)

lemma run_tasks_Ok:
  assumes "run_tasks run delivered j vm = Some (x, vm', cs)"
  obtains G where "delivered = Ok G" "run j vm (get_mut_executor G) = Ok (vm', cs)"
  using assms by (auto simp: run_tasks_def obind_Ok_iff split: outcome.splits)

lemma no_value_Some: "no_value r = Some (x, vm, cs) \<Longrightarrow> r = Some (vm, cs)"
  by (auto simp: no_value_def)

lemma abi_wakeup_Ok:
  assumes "runs_controller V view alloc run" "alloc_ok alloc" "ms_inner st = GotInst cx vm"
    "\<And>bytes. val = Some bytes \<Longrightarrow> length bytes < 2 ^ 32" "abi_wakeup b V E i val finished st = (Ok (), st')"
  obtains G vm1 vm' cs cx' R' where "deliver i (if finished then 1 else 0) val (view vm) = Ok G"
    "run (cx_request_id_counter cx) vm1 (get_mut_executor G) = Ok (vm', cs)"
    "guest_calls b E cs (cx, ms_runner st) = Ok (cx', R')" "ms_inner st' = GotInst cx' vm'" "ms_runner st' = R'"
    "ms_wasm_path st' = ms_wasm_path st" "\<exists>f ptr len vm. vm_wakeup V i f ptr len (cx_request_id_counter cx) vm = Some (vm', cs)"
proof (cases val)
  case None
  have e: "enter_guest b E (\<lambda>j vm. no_value (vm_wakeup V i (if finished then 1 else 0) 0 0 j vm)) st = (Ok (), st')"
    using assms(5) None by (simp add: abi_wakeup_def act_bind_def act_run)
  obtain vm' cs cx' R' where c: "no_value (vm_wakeup V i (if finished then 1 else 0) 0 0 (cx_request_id_counter cx) vm) = Some ((), vm', cs)"
    "guest_calls b E cs (cx, ms_runner st) = Ok (cx', R')" "st' = st\<lparr>ms_inner := GotInst cx' vm', ms_runner := R'\<rparr>"
    by (rule enter_guest_Ok [OF e assms(3)])
  from c(1) [unfolded runs_wakeup [OF assms(1)]] show thesis
    by (rule run_tasks_Ok, intro that) (use c None no_value_Some [OF c(1)] in \<open>auto simp: vec_from_raw_parts_def\<close>)
next
  case (Some bytes)
  let ?n = "of_nat (length bytes) :: u32"
  obtain ptr st1 where a: "enter_guest b E (vm_allocate V ?n) st = (Ok ptr, st1)"
    and r1: "act_bind (memory_write V ptr bytes) (\<lambda>_. enter_guest b E
      (\<lambda>j vm. no_value (vm_wakeup V i (if finished then 1 else 0) ptr ?n j vm))) st1 = (Ok (), st')"
    using assms(5) Some by (auto simp: abi_wakeup_def abi_allocate_def act_bind_def act_run split: prod.splits outcome.splits)
  from act_bind_Ok [OF r1] obtain y st2 where w: "memory_write V ptr bytes st1 = (Ok y, st2)"
    "enter_guest b E (\<lambda>j vm. no_value (vm_wakeup V i (if finished then 1 else 0) ptr ?n j vm)) st2 = (Ok (), st')" .
  obtain vm1 cs1 cx1 R1 where 1: "vm_allocate V ?n (cx_request_id_counter cx) vm = Some (ptr, vm1, cs1)"
    "guest_calls b E cs1 (cx, ms_runner st) = Ok (cx1, R1)" "st1 = st\<lparr>ms_inner := GotInst cx1 vm1, ms_runner := R1\<rparr>"
    by (rule enter_guest_Ok [OF a assms(3)])
  obtain vm2 where 2: "write_memory V (unat ptr) bytes vm1 = Some vm2" "st2 = st1\<lparr>ms_inner := GotInst cx1 vm2\<rparr>"
    using w(1) 1(3) by (auto simp: memory_write_def obind_Ok_iff split: outcome.splits)
  note v = allocated [OF assms(1,2) assms(4) [OF Some] 1(1) 2(1)]
  have s: "ms_inner st2 = GotInst cx vm2" "ms_runner st2 = ms_runner st" "ms_wasm_path st2 = ms_wasm_path st"
    using 1(2,3) 2(2) v(1) by simp_all
  obtain vm' cs cx' R' where c: "no_value (vm_wakeup V i (if finished then 1 else 0) ptr ?n (cx_request_id_counter cx) vm2) = Some ((), vm', cs)"
    "guest_calls b E cs (cx, ms_runner st2) = Ok (cx', R')" "st' = st2\<lparr>ms_inner := GotInst cx' vm', ms_runner := R'\<rparr>"
    by (rule enter_guest_Ok [OF w(2) s(1)])
  from c(1) [unfolded runs_wakeup [OF assms(1)] v] show thesis
    by (rule run_tasks_Ok, intro that) (use c Some s no_value_Some [OF c(1)] in auto)
qed

section \<open>What it awaits\<close>

text \<open>The result that was collected for the controller and has not been handed over.\<close>

definition handed_by :: "work \<Rightarrow> async_result list" where
  "handed_by u = (case u of Wakeup i val finished \<Rightarrow> [\<lparr>ar_id = i, ar_value = val, ar_finished = finished\<rparr>] | _ \<Rightarrow> [])"

definition handed :: "('vm, 'val) module_state \<Rightarrow> async_result list" where
  "handed st = (case ms_wasm_work st of Some w \<Rightarrow> handed_by (work_of w) | None \<Rightarrow> [])"

definition awaits :: "guest \<Rightarrow> (u64 \<times> 'req request_value) list \<Rightarrow> async_result list \<Rightarrow> bool" where
  "awaits G reqs out \<longleftrightarrow> guest_wf G \<and> (\<forall>i. gu_pending G i \<noteq> None \<longleftrightarrow> awaited reqs out i)"

text \<open>The requests and results of the controller, those that were handed over, and its instance wherever it is.\<close>

definition wired_as :: "('vm \<Rightarrow> guest) \<Rightarrow> 'req host_env \<Rightarrow> controller_ctx \<Rightarrow> ('vm \<Rightarrow> bool) \<Rightarrow>
    runner \<Rightarrow> async_result list \<Rightarrow> bool" where
  "wired_as view E cx inst R given \<longleftrightarrow> (\<exists>reqs out. runner_run E reqs (out @ given) R \<and>
     ids_below (cx_request_id_counter cx) reqs \<and> (\<forall>vm. inst vm \<longrightarrow> awaits (view vm) reqs out))"

definition wired :: "('vm, 'val) vm_ops \<Rightarrow> ('vm \<Rightarrow> guest) \<Rightarrow> 'req host_env \<Rightarrow> ('vm, 'val) module_state \<Rightarrow> bool" where
  "wired V view E st \<longleftrightarrow> (\<exists>cx c. content_of st = Some (cx, c) \<and>
     wired_as view E cx (brought V (ms_wasm_path st) c) (ms_runner st) (handed st))"

lemma collected_post:
  assumes "runner_run E reqs out R" "r \<in> set out"
  obtains q where "r \<in> set (op_posts (fst (request_op (ar_id r) (he_net E) q)))"
proof -
  have "set (stream_of (ar_id r) out @ left_of (ar_id r) R) =
      set (case map_of reqs (ar_id r) of Some q \<Rightarrow> op_posts (fst (request_op (ar_id r) (he_net E) q)) | None \<Rightarrow> [])"
    using runner_run_ok [OF assms(1)] unfolding run_ok_def by metis
  moreover have "r \<in> set (stream_of (ar_id r) out @ left_of (ar_id r) R)" using assms(2) by (simp add: stream_of_def)
  ultimately show thesis using that by (cases "map_of reqs (ar_id r)") auto
qed

lemma awaited_more:
  assumes "runner_run E reqs out R" "runner_run E (reqs @ new) out R'"
  shows "awaited (reqs @ new) out i \<longleftrightarrow> awaited reqs out i \<or> i \<in> fst ` set new"
proof -
  have "distinct (map fst (reqs @ new))" using runner_run_ok [OF assms(2)] by (simp add: run_ok_def)
  then have "fst ` set reqs \<inter> fst ` set new = {}" by simp
  then have "map_of reqs i = None" if "i \<in> fst ` set new" using that by (auto simp: map_of_eq_None_iff)
  then have "stream_of i out = []" if "i \<in> fst ` set new"
    using runner_run_ok [OF assms(1)] that by (fastforce simp: run_ok_def dest: spec [of _ i])
  then have "\<forall>r \<in> set out. ar_id r \<noteq> i" if "i \<in> fst ` set new" using that by (auto simp: stream_of_def filter_empty_conv)
  then show ?thesis by (auto simp: awaited_def)
qed

text \<open>A call of the controller, which first takes what is handed over.\<close>

lemma called_awaits:
  assumes "runner_run E reqs (out @ given) R" "ids_below (cx_request_id_counter cx) reqs" "awaits G reqs (out @ given)"
    "guest_runs (cx_request_id_counter cx) (length cs) G G'" "guest_calls b E cs (cx, R) = Ok (cx', R')"
    "unat (cx_request_id_counter cx) + length cs < 2 ^ 64"
  shows "wired_as view E cx' (\<lambda>vm. view vm = G') R' []"
proof -
  obtain new where n: "map fst new = next_ids (cx_request_id_counter cx) (length cs)" "runner_run E (reqs @ new) (out @ given) R'"
    "ids_below (cx_request_id_counter cx') (reqs @ new)"
    using guest_calls_run [OF assms(5,1,2,6)] by (auto simp: next_ids_def)
  have wf: "guest_wf G" using assms(3) by (simp add: awaits_def)
  have "set (next_ids (cx_request_id_counter cx) (length cs)) = fst ` set new" using arg_cong [OF n(1), of set] by simp
  then have "awaits G' (reqs @ new) (out @ given)"
    using guest_runs_table [OF assms(4) wf] assms(3) awaited_more [OF assms(1) n(2)] by (simp add: awaits_def)
  then show ?thesis unfolding wired_as_def using n(2,3) by (intro exI [of _ "reqs @ new"] exI [of _ "out @ given"]) simp
qed

lemma deliver_awaits:
  assumes "awaits G reqs out" "deliver i (if finished then 1 else 0) val G = Ok G'"
  shows "awaits G' reqs (out @ [\<lparr>ar_id = i, ar_value = val, ar_finished = finished\<rparr>])"
proof -
  have wf: "guest_wf G" using assms(1) by (simp add: awaits_def)
  have "gu_pending G' j \<noteq> None \<longleftrightarrow> gu_pending G j \<noteq> None \<and> \<not> (j = i \<and> finished)" for j
    by (rule deliver_parts [OF assms(2)]) auto
  moreover have "awaited reqs (out @ [\<lparr>ar_id = i, ar_value = val, ar_finished = finished\<rparr>]) j \<longleftrightarrow>
      awaited reqs out j \<and> \<not> (j = i \<and> finished)" for j
    by (auto simp: awaited_def)
  ultimately show ?thesis using deliver_wf [OF wf assms(2)] assms(1) by (simp add: awaits_def)
qed

text \<open>Everything that is known about the engine, the controllers and the surroundings.\<close>

definition good_controllers :: "('vm, 'val) vm_ops \<Rightarrow> ('vm \<Rightarrow> guest) \<Rightarrow> allocator \<Rightarrow>
    (u64 \<Rightarrow> 'vm \<Rightarrow> guest \<Rightarrow> ('vm \<times> guest_call list) outcome) \<Rightarrow> nat \<Rightarrow> bool" where
  "good_controllers V view alloc run N \<longleftrightarrow> engine_ok V \<and> runs_controller V view alloc run \<and> alloc_ok alloc \<and>
     awaits_requests V view run \<and> requests_within V N"

lemma within_limit: "k \<le> N - unat (i :: u64) \<Longrightarrow> N < 2 ^ 64 \<Longrightarrow> unat i + k < 2 ^ 64"
  using unsigned_less [of i, where 'a = nat] by (cases "unat i \<le> N") auto

lemma run_task_wired:
  assumes "good_controllers V view alloc run N" "bodies_within E" "ms_inner st = GotInst cx vm"
    "wired_as view E cx (\<lambda>vm'. vm' = vm) (ms_runner st) (handed_by u)" "run_task b V E u st = (Ok (), st')"
  obtains cx' vm' where "ms_inner st' = GotInst cx' vm'" "wired_as view E cx' (\<lambda>vm. vm = vm') (ms_runner st') []"
    "ms_wasm_path st' = ms_wasm_path st"
proof -
  let ?i = "cx_request_id_counter cx"
  have N: "N < 2 ^ 64" and V: "runs_controller V view alloc run" "alloc_ok alloc" "awaits_requests V view run"
    using assms(1) by (simp_all add: good_controllers_def requests_within_def)
  obtain reqs out where w: "runner_run E reqs (out @ handed_by u) (ms_runner st)" "ids_below ?i reqs" "awaits (view vm) reqs out"
    using assms(4) by (auto simp: wired_as_def)
  have inst: "wired_as view E cx' (\<lambda>vm. vm = vm') R' []" if "wired_as view E cx' (\<lambda>vm. view vm = view vm') R' []" for cx' vm' R'
    using that by (auto simp: wired_as_def)
  show thesis
  proof (cases u)
    case Start
    have e: "enter_guest b E (\<lambda>i vm. no_value (vm_start V i vm)) st = (Ok (), st')"
      using assms(5) Start by (simp add: run_task_def abi_start_controller_def)
    obtain vm' cs cx' R' where c: "no_value (vm_start V ?i vm) = Some ((), vm', cs)"
      "guest_calls b E cs (cx, ms_runner st) = Ok (cx', R')" "st' = st\<lparr>ms_inner := GotInst cx' vm', ms_runner := R'\<rparr>"
      by (rule enter_guest_Ok [OF e assms(3)])
    have s: "vm_start V ?i vm = Some (vm', cs)" by (rule no_value_Some [OF c(1)])
    then have "length cs \<le> N - unat ?i" using assms(1) by (auto simp: good_controllers_def requests_within_def)
    then have l: "unat ?i + length cs < 2 ^ 64" by (rule within_limit [OF _ N])
    have "awaits (view vm) reqs (out @ handed_by u)" using w(3) Start by (simp add: handed_by_def)
    moreover have "guest_runs ?i (length cs) (view vm) (view vm')" by (rule awaits_requestsD(3) [OF V(3) s])
    ultimately have "wired_as view E cx' (\<lambda>vm. view vm = view vm') R' []" by (rule called_awaits [OF w(1,2) _ _ c(2) l])
    then show thesis using that [of cx' vm'] c(3) inst by simp
  next
    case (Wakeup i val finished)
    let ?r = "\<lparr>ar_id = i, ar_value = val, ar_finished = finished\<rparr>"
    have r: "handed_by u = [?r]" using Wakeup by (simp add: handed_by_def)
    obtain q where "?r \<in> set (op_posts (fst (request_op i (he_net E) q)))"
      using collected_post [OF w(1), of ?r] r by auto
    then have b: "length bytes < 2 ^ 32" if "val = Some bytes" for bytes
      using assms(2) that unfolding bodies_within_def by fastforce
    have a: "abi_wakeup b V E i val finished st = (Ok (), st')" using assms(5) Wakeup by (simp add: run_task_def)
    obtain G vm1 vm' cs cx' R' where c: "deliver i (if finished then 1 else 0) val (view vm) = Ok G"
      "run ?i vm1 (get_mut_executor G) = Ok (vm', cs)" "guest_calls b E cs (cx, ms_runner st) = Ok (cx', R')"
      "ms_inner st' = GotInst cx' vm'" "ms_runner st' = R'" "ms_wasm_path st' = ms_wasm_path st"
      "\<exists>f ptr len vm. vm_wakeup V i f ptr len ?i vm = Some (vm', cs)"
      by (rule abi_wakeup_Ok [OF V(1,2) assms(3) b a])
    have "length cs \<le> N - unat ?i" using assms(1) c(7) by (auto simp: good_controllers_def requests_within_def)
    then have l: "unat ?i + length cs < 2 ^ 64" by (rule within_limit [OF _ N])
    have "awaits G reqs (out @ handed_by u)" unfolding r by (rule deliver_awaits [OF w(3) c(1)])
    then have "awaits (get_mut_executor G) reqs (out @ handed_by u)" by (simp add: awaits_def guest_wf_def get_mut_executor_def)
    moreover have "guest_runs ?i (length cs) (get_mut_executor G) (view vm')" by (rule awaits_requestsD(4) [OF V(3) c(2)])
    ultimately have "wired_as view E cx' (\<lambda>vm. view vm = view vm') R' []" by (rule called_awaits [OF w(1,2) _ _ c(3) l])
    then show thesis using that c(4-6) inst by simp
  next
    case Load_To_Mem
    then show thesis using assms(3-5) that by (simp add: run_task_def act_run handed_by_def)
  next
    case Uninstantiate
    then show thesis using assms(3-5) that by (simp add: run_task_def act_run handed_by_def)
  qed
qed

section \<open>The event loop\<close>

text \<open>What comes back from a swap file is the instance that went out.\<close>

lemma restored_same:
  assumes "engine_ok V" "exports V vm = exports V vm0" "vm_exports_memory V vm"
    "restore_result V (take_snapshot V vm) (Some vm0) (Some (vm_memory V vm)) = Ok vm'"
  shows "vm_memory V vm' = vm_memory V vm \<and> mutable_globals V vm' = mutable_globals V vm \<and> exports V vm' = exports V vm"
proof -
  let ?n = "length (vm_memory V vm)" and ?m = "length (vm_memory V vm0)"
  have g: "grow_to V ?n vm0 = (if ?m < ?n then or_err (vm_grow V (pages_needed ?n ?m) vm0) Memory_Error else Ok vm0)"
    by (simp add: grow_to_def Let_def)
  have m: "vm_exports_memory V vm0" using exports_memory [OF assms(2)] assms(3) by simp
  have "?m \<le> ?n"
    using assms(4) m g by (cases "?m \<le> ?n") (auto simp: restore_result_def get_memory_def take_snapshot_def read_memory_def Let_def)
  moreover have "?m < ?n \<longrightarrow> vm_grow V (pages_needed ?n ?m) vm0 \<noteq> None"
    using assms(4) m g by (auto simp: restore_result_def get_memory_def take_snapshot_def)
  ultimately obtain vm1 where "restore_result V (take_snapshot V vm) (Some vm0) (Some (vm_memory V vm)) = Ok vm1"
    "vm_memory V vm1 = vm_memory V vm" "mutable_globals V vm1 = mutable_globals V vm" "exports V vm1 = exports V vm"
    by (rule restore_snapshot [OF assms(1,2,3)])
  then show ?thesis using assms(4) by simp
qed

lemma poll_unpin_wired:
  assumes "good_controllers V view alloc run N" "bodies_within E" "module_inv V n st" "wired V view E st"
    "poll_unpin b V E st = (Ok p, st')"
  shows "wired V view E st'"
proof -
  obtain cx c where c: "content_of st = Some (cx, c)"
    and w: "wired_as view E cx (brought V (ms_wasm_path st) c) (ms_runner st) (handed st)"
    using assms(4) by (auto simp: wired_def)
  from assms(3,5) show ?thesis
  proof (cases rule: poll_unpin_Ok)
    case none
    then show ?thesis using assms(4) by simp
  next
    case (waits u)
    then show ?thesis using assms(4) by (auto simp: wired_def still_waits_def handed_def)
  next
    case (saved u st1)
    then obtain vm where s: "ms_inner st = GotInst cx vm" "c = Instance vm" "ms_inner st1 = UnsInst cx (take_snapshot V vm)"
      "vm_exports_memory V vm" "ms_files st1 (ms_swap_path st1) = Some (vm_memory V vm)" "ms_runner st1 = ms_runner st" "ms_wasm_path st1 = ms_wasm_path st"
      using c by (auto simp: swaps_out_def content_of_def)
    have "present V st" using assms(3) saved(1,3) s(1)
      by (cases u) (auto simp: module_inv_def phase_ok_def absent_def split: work.splits)
    then have "from_module V st vm" using s(1) by (simp add: present_def)
    then have "view vm' = view vm" if "brought V (ms_wasm_path st) (Saved (take_snapshot V vm) (Some (vm_memory V vm))) vm'" for vm'
      using that s(4) restored_same [of V vm _ vm'] awaits_requestsD(2) [of V view run vm' vm] assms(1)
      by (auto simp: from_module_def brought_def good_controllers_def)
    moreover have "handed st = []" using saved(1,3) by (simp add: handed_def handed_by_def)
    ultimately show ?thesis using w s saved(5)
      by (auto simp: wired_def wired_as_def content_of_def handed_def brought_Instance)
  next
    case (ran u st1)
    then obtain vm st0 where r: "brought V (ms_wasm_path st) c vm" "ms_inner st0 = GotInst cx vm" "ms_runner st0 = ms_runner st"
      "ms_wasm_path st0 = ms_wasm_path st" "run_task b V E (work_of u) st0 = (Ok (), st1)"
      using c by (auto simp: runs_in_memory_def)
    have "wired_as view E cx (\<lambda>vm'. vm' = vm) (ms_runner st0) (handed_by (work_of u))"
      using w r(1,3) ran(1) by (auto simp: wired_as_def handed_def)
    then obtain cx' vm' where "ms_inner st1 = GotInst cx' vm'" "wired_as view E cx' (\<lambda>vm. vm = vm') (ms_runner st1) []"
      by (rule run_task_wired [OF assms(1,2) r(2) _ r(5)])
    then show ?thesis using ran(5) by (simp add: wired_def content_of_def handed_def brought_Instance)
  qed
qed

text \<open>Between two works, the runner goes on and the next work is set.\<close>

lemma wired_next:
  assumes "wired V view E st" "ms_wasm_work st = None" "same_core (st\<lparr>ms_runner := R\<rparr>) st'"
    "\<And>reqs out. runner_run E reqs out (ms_runner st) \<Longrightarrow> runner_run E reqs (out @ handed st') R"
    "\<forall>w. ms_wasm_work st' = Some w \<longrightarrow> (\<exists>u. w = Fresh u)"
  shows "wired V view E st'"
proof -
  obtain cx c reqs out where c: "content_of st = Some (cx, c)"
    "runner_run E reqs (out @ handed st) (ms_runner st)" "ids_below (cx_request_id_counter cx) reqs"
    "\<forall>vm. brought V (ms_wasm_path st) c vm \<longrightarrow> awaits (view vm) reqs out"
    using assms(1) by (auto simp: wired_def wired_as_def)
  have "content_of st' = content_of st" by (rule rest_of_content [OF assms(3,2,5)])
  moreover have "runner_run E reqs (out @ handed st') R" using assms(4) c(2) assms(2) by (simp add: handed_def)
  ultimately show ?thesis using c(1,3,4) assms(3) by (auto simp: wired_def wired_as_def same_core_def)
qed

lemma resolve_wired:
  assumes "wired V view E st" "ms_wasm_work st = None" "resolve_async_ops E st = (Ok again, st')"
  shows "wired V view E st'"
proof -
  obtain m tick R where m: "collect_loop E (ms_tick st) ((ms_runner st)\<lparr>rn_have_unpolled_ops := False\<rparr>) = (Ok m, tick, R)"
    "ms_wasm_work st' = map_option (\<lambda>r. Fresh (Wakeup (ar_id r) (ar_value r) (ar_finished r))) m" "same_core (st\<lparr>ms_runner := R\<rparr>) st'"
    by (rule resolve_Ok [OF assms(3,2)])
  have "handed st' = (case m of Some r \<Rightarrow> [r] | None \<Rightarrow> [])"
    using m(2) by (auto simp: handed_def handed_by_def split: option.splits)
  then show ?thesis using run_collect [OF _ m(1)] m(2) by (intro wired_next [OF assms(1,2) m(3)]) auto
qed

lemma rest_wired:
  assumes "wired V view E st" "ms_wasm_work st = None" "rest_of st st'"
  shows "wired V view E st'"
proof -
  have "st\<lparr>ms_runner := ms_runner st\<rparr> = st" by simp
  moreover have "handed st' = []" using assms(3) by (auto simp: rest_of_def handed_def handed_by_def)
  ultimately show ?thesis using wired_next [OF assms(1,2), of "ms_runner st" st'] assms(3) by (auto simp: rest_of_def)
qed

end
