(* ===== verification/Delivery.thy ===== *)
theory Delivery
  imports Progress
begin

text \<open>
  That results arrive: when the operations of a runner do not fail and what they wait for has
  happened, collecting yields a result as long as one is left, until every request has all of its own.
\<close>

section \<open>Operations that are due\<close>

fun waits :: "op_step list \<Rightarrow> nat" where
  "waits [] = 0"
| "waits (Wait # s) = Suc (waits s)"
| "waits (Post r # s) = waits s"
| "waits (Fail e # s) = 0"

text \<open>An operation that needs at most \<open>W\<close> of its waits to be over to come to its end, and one that will not fail.\<close>

definition short :: "nat \<Rightarrow> opcall \<Rightarrow> bool" where
  "short W c \<longleftrightarrow> (\<forall>s v. c = Fut s v \<longrightarrow> waits s \<le> W)"

definition quiet :: "nat \<Rightarrow> opcall \<Rightarrow> bool" where
  "quiet W c \<longleftrightarrow> call_error c = None \<and> short W c"

lemma short_simps [simp]:
  "short W (Fut s v) \<longleftrightarrow> waits s \<le> W" "short W (Done r)" "short W Gone"
  by (auto simp: short_def)

lemma quiet_simps [simp]:
  "quiet W (Fut s v) \<longleftrightarrow> op_error s = None \<and> waits s \<le> W" "quiet W (Done (Inr v))" "\<not> quiet W (Done (Inl e))" "quiet W Gone"
  by (auto simp: quiet_def)

lemma run_op_short:
  assumes "run_op n s ch = (p, s', ch')"
  shows "(op_error s = None \<longrightarrow> (\<forall>e. p \<noteq> Ready (Inl e)) \<and> op_error s' = None) \<and> waits s' \<le> waits s \<and> length ch \<le> length ch' \<and>
    (p = Pending \<and> waits s \<le> n \<longrightarrow> CHANNEL_CAPACITY \<le> length ch')"
  using assms
proof (induction n s ch rule: run_op.induct)
  case (3 n s ch)
  then show ?case by fastforce
next
  case (4 n r s ch)
  then show ?case by (cases "length ch < CHANNEL_CAPACITY") fastforce+
qed auto

lemma opcall_poll_short:
  assumes "opcall_poll n c ch = Ok (p, c', ch')" "short W c"
  shows "(call_error c = None \<longrightarrow> (\<forall>e. p \<noteq> Ready (Inl e)) \<and> (p = Pending \<longrightarrow> call_error c' = None)) \<and> length ch \<le> length ch' \<and>
    (p = Pending \<longrightarrow> short W c' \<and> (W \<le> n \<longrightarrow> CHANNEL_CAPACITY \<le> length ch'))"
proof (cases c)
  case (Fut s v)
  obtain q s1 ch1 where r: "run_op n s ch = (q, s1, ch1)" by (cases "run_op n s ch")
  have "waits s \<le> W" using assms(2) Fut by simp
  with run_op_short [OF r] show ?thesis using assms(1) Fut r
    by (cases q) (auto simp: opcall_poll_def maybe_done_poll_def take_output_def split: sum.splits)
next
  case (Done r)
  then show ?thesis using assms by (cases r) (auto simp: opcall_poll_def maybe_done_poll_def take_output_def)
qed (use assms(1) in \<open>auto simp: opcall_poll_def maybe_done_poll_def take_output_def\<close>)

text \<open>The first operation is polled when its waits are over: then it comes to its end, or fills the channel.\<close>

definition due :: "nat \<Rightarrow> (nat \<times> nat) list \<Rightarrow> bool" where
  "due W sched \<longleftrightarrow> (\<exists>n\<ge>W. (0, n) \<in> set sched)"

definition all_short :: "nat \<Rightarrow> opcall list \<Rightarrow> bool" where
  "all_short W ops \<longleftrightarrow> (\<forall>c \<in> set ops. short W c)"

definition all_sound :: "opcall list \<Rightarrow> bool" where
  "all_sound ops \<longleftrightarrow> (\<forall>c \<in> set ops. call_error c = None)"

lemma all_simps [simp]:
  "all_short W []" "all_short W (ops @ [c]) \<longleftrightarrow> all_short W ops \<and> short W c"
  "all_sound []" "all_sound (ops @ [c]) \<longleftrightarrow> all_sound ops \<and> call_error c = None"
  by (auto simp: all_short_def all_sound_def)

lemma all_update:
  "all_short W ops \<Longrightarrow> short W c \<Longrightarrow> all_short W (ops[k := c])" "all_sound ops \<Longrightarrow> call_error c = None \<Longrightarrow> all_sound (ops[k := c])"
  using set_update_subset_insert [of ops k c] by (auto simp: all_short_def all_sound_def)

lemma all_drop: "all_short W ops \<Longrightarrow> all_short W (drop_nth k ops)" "all_sound ops \<Longrightarrow> all_sound (drop_nth k ops)"
  using set_drop_nth [of k ops] by (auto simp: all_short_def all_sound_def)

lemma poll_ops_short:
  assumes "poll_ops sched ops ch = Ok (p, ops', ch')" "all_short W ops"
  shows "(all_sound ops \<longrightarrow> (\<forall>e. p \<noteq> Ready (Inl e)) \<and> all_sound ops') \<and> all_short W ops' \<and> length ch \<le> length ch' \<and>
    (p = Pending \<and> ops \<noteq> [] \<and> due W sched \<longrightarrow> CHANNEL_CAPACITY \<le> length ch')"
  using assms
proof (induction sched ops ch arbitrary: p ops' ch' rule: poll_ops.induct)
  case (2 k n sched ops ch)
  show ?case
  proof (cases "k < length ops")
    case True
    obtain q c ch1 where q: "opcall_poll n (ops ! k) ch = Ok (q, c, ch1)"
      and r: "(case q of Ready r \<Rightarrow> Ok (Ready r, drop_nth k ops, ch1) | Pending \<Rightarrow> poll_ops sched (ops[k := c]) ch1) = Ok (p, ops', ch')"
      using 2(3) True by (auto simp: obind_Ok_iff)
    have k: "short W (ops ! k)" "all_sound ops \<Longrightarrow> call_error (ops ! k) = None"
      using 2(4) True by (simp_all add: all_short_def all_sound_def)
    note o = opcall_poll_short [OF q k(1)]
    show ?thesis
    proof (cases q)
      case Pending
      then have "all_short W (ops[k := c])" "all_sound ops \<Longrightarrow> all_sound (ops[k := c])"
        using 2(4) o k(2) by (auto intro: all_update)
      with 2(1) [OF True q refl refl Pending, of p ops' ch'] r Pending
      show ?thesis using o k True by (fastforce simp: due_def)
    next
      case (Ready x)
      then show ?thesis using r o k(2) 2(4) all_drop by auto
    qed
  next
    case False
    then have "due W ((k, n) # sched) \<longrightarrow> ops = [] \<or> due W sched" by (cases k) (auto simp: due_def)
    then show ?thesis using 2(2) [OF False, of p ops' ch'] 2(3,4) False by auto
  qed
qed (auto simp: due_def)

lemma poll_ops_no_err: "poll_ops sched ops ch \<noteq> Err e"
proof (induction sched ops ch rule: poll_ops.induct)
  case (2 k n sched ops ch)
  have "opcall_poll n c ch \<noteq> Err e" for c
    by (cases c) (auto simp: opcall_poll_def maybe_done_poll_def take_output_def obind_def
        split: prod.splits poll.splits sum.splits outcome.splits)
  then show ?case using 2(2)
    by (cases "opcall_poll n (ops ! k) ch") (auto split: poll.splits dest: 2(1) [OF _ _ refl refl])
qed simp

lemma collect_turn_short:
  assumes "collect_turn sched R = (r, R')" "all_short W (rn_pending_ops R)"
  shows "(all_sound (rn_pending_ops R) \<longrightarrow> (\<forall>e. r \<noteq> Err e) \<and> all_sound (rn_pending_ops R')) \<and> all_short W (rn_pending_ops R') \<and>
    (r = Ok (Some None) \<and> due W sched \<longrightarrow> rn_pending_ops R' = [] \<and> rn_channel R' = [])"
proof (cases "poll_next_op sched (rn_pending_ops R) (rn_channel R)")
  case (Ok x)
  obtain p ops ch where x: "x = (p, ops, ch)" by (cases x)
  have f: "(all_sound (rn_pending_ops R) \<longrightarrow> (\<forall>e. p \<noteq> Ready (Some (Inl e))) \<and> all_sound ops) \<and> all_short W ops \<and>
      (p = Ready None \<longrightarrow> ops = []) \<and> (p = Pending \<and> due W sched \<longrightarrow> ch \<noteq> [])"
  proof (cases "rn_pending_ops R = []")
    case True
    then show ?thesis using Ok x by (auto simp: poll_next_op_def)
  next
    case False
    then obtain q where q: "poll_ops sched (rn_pending_ops R) (rn_channel R) = Ok (q, ops, ch)"
      "p = (case q of Ready r \<Rightarrow> Ready (Some r) | Pending \<Rightarrow> Pending)"
      using Ok x by (auto simp: poll_next_op_def obind_Ok_iff)
    from poll_ops_short [OF q(1) assms(2)] show ?thesis using q(2) False
      by (cases q) (auto simp: CHANNEL_CAPACITY_def)
  qed
  then show ?thesis using assms(1) Ok x
    by (auto simp: collect_turn_def poll_next_unpin_def after_poll_def take_web_call_def poll_recv_def act_bind_def act_run ensure_def
        split: poll.splits option.splits sum.splits list.splits if_splits)
next
  case (Err e)
  then have False using poll_ops_no_err by (auto simp: poll_next_op_def obind_def split: if_splits outcome.splits)
  then show ?thesis ..
next
  case (Panic p)
  then show ?thesis using assms by (auto simp: collect_turn_def poll_next_unpin_def act_bind_def)
qed

lemma collect_loop_short:
  assumes "collect_loop E tick R = (r, tick', R')" "all_short W (rn_pending_ops R)"
  shows "(all_sound (rn_pending_ops R) \<longrightarrow> (\<forall>e. r \<noteq> Err e) \<and> all_sound (rn_pending_ops R')) \<and> all_short W (rn_pending_ops R') \<and>
    (r = Ok None \<and> (\<forall>n\<ge>tick. due W (he_sched E n)) \<longrightarrow> rn_pending_ops R' = [] \<and> rn_channel R' = [])"
  using assms
proof (induction E tick R rule: collect_loop.induct)
  case (1 E tick R)
  obtain q R1 where t: "collect_turn (he_sched E tick) R = (q, R1)" by (cases "collect_turn (he_sched E tick) R")
  note c = collect_turn_short [OF t 1(3)]
  show ?case
  proof (cases "q = Ok None")
    case True
    then have "collect_loop E (Suc tick) R1 = (r, tick', R')" using 1(2) t by (simp add: collect_loop.simps [of E tick R])
    then show ?thesis using 1(1) [OF t [symmetric] True refl] c by (auto simp: Suc_le_eq)
  next
    case False
    then show ?thesis using 1(2) t c by (cases q) (auto simp: collect_loop.simps [of E tick R] split: option.splits)
  qed
qed

section \<open>Runs\<close>

text \<open>Requests whose operations do not fail.\<close>

definition quiet_request :: "'req host_env \<Rightarrow> nat \<Rightarrow> u64 \<times> 'req request_value \<Rightarrow> bool" where
  "quiet_request E W = (\<lambda>(i, q). let s = fst (request_op i (he_net E) q) in op_error s = None \<and> waits s \<le> W)"

lemma handle_request_ops:
  assumes "handle_request n net i q R = Ok R'"
  obtains c where "rn_pending_ops R' = rn_pending_ops R @ [c]" "\<And>W. waits (fst (request_op i net q)) \<le> W \<Longrightarrow> short W c"
    "op_error (fst (request_op i net q)) = None \<Longrightarrow> call_error c = None"
proof -
  obtain s v where sv: "request_op i net q = (s, v)" by (cases "request_op i net q")
  obtain p s1 ch1 where r: "run_op n s (rn_channel R) = (p, s1, ch1)" by (cases "run_op n s (rn_channel R)")
  from run_op_short [OF r] show thesis using that assms sv r
    by (cases p) (auto simp: handle_request_def opcall_eager_def maybe_done_poll_def handle_opcall_def
        split: request_value.splits sum.splits)
qed

lemma run_quiet:
  assumes "runner_run E reqs out R" "\<forall>x \<in> set reqs. quiet_request E W x"
  shows "all_short W (rn_pending_ops R) \<and> all_sound (rn_pending_ops R)"
  using assms
proof (induction rule: runner_run.induct)
  case run_new
  then show ?case by (simp add: runner_new_def)
next
  case (run_request reqs out R i n q R')
  have q: "op_error (fst (request_op i (he_net E) q)) = None" "waits (fst (request_op i (he_net E) q)) \<le> W"
    using run_request.prems by (simp_all add: quiet_request_def Let_def)
  obtain c where "rn_pending_ops R' = rn_pending_ops R @ [c]" "short W c" "call_error c = None"
    using handle_request_ops [OF run_request.hyps(3)] q by metis
  then show ?case using run_request.IH run_request.prems by simp
next
  case (run_collect reqs out R tick res tick' R')
  then show ?case using collect_loop_short [OF run_collect.hyps(2), of W] by auto
qed

text \<open>Collecting until nothing is left: at most \<open>k\<close> results.\<close>

fun drain :: "nat \<Rightarrow> 'req host_env \<Rightarrow> nat \<Rightarrow> runner \<Rightarrow> async_result list outcome \<times> runner" where
  "drain k E tick R = (case collect_loop E tick (R\<lparr>rn_have_unpolled_ops := False\<rparr>) of
     (Ok (Some r), tick, R) \<Rightarrow> (case k of
         0 \<Rightarrow> (Ok [r], R)
       | Suc k \<Rightarrow> (case drain k E tick R of (rs, R) \<Rightarrow> (obind rs (\<lambda>rs. Ok (r # rs)), R)))
   | (Ok None, tick, R) \<Rightarrow> (Ok [], R)
   | (Err e, tick, R) \<Rightarrow> (Err e, R)
   | (Panic p, tick, R) \<Rightarrow> (Panic p, R))"

declare drain.simps [simp del]

lemma waiting_unpolled [simp]: "waiting_results (R\<lparr>rn_have_unpolled_ops := u\<rparr>) = waiting_results R"
  by (simp add: waiting_results_def)

lemma collect_step:
  assumes "runner_run E reqs out R" "\<forall>x \<in> set reqs. quiet_request E W x" "\<forall>n. due W (he_sched E n)"
  obtains (idle) tick' R' where "collect_loop E tick (R\<lparr>rn_have_unpolled_ops := False\<rparr>) = (Ok None, tick', R')"
      "waiting_results R = 0" "runner_run E reqs out R'" "rn_pending_ops R' = []" "rn_channel R' = []"
  | (result) r tick' R' where "collect_loop E tick (R\<lparr>rn_have_unpolled_ops := False\<rparr>) = (Ok (Some r), tick', R')"
      "waiting_results R = Suc (waiting_results R')" "runner_run E reqs (out @ [r]) R'"
proof -
  let ?R = "R\<lparr>rn_have_unpolled_ops := False\<rparr>"
  obtain q tick' R' where c: "collect_loop E tick ?R = (q, tick', R')" by (cases "collect_loop E tick ?R")
  have "runner_inv ?R" using runner_run_ok [OF assms(1)] by (simp add: run_ok_def)
  from collect_loop_correct [OF this c, of 0] have no_panic: "q \<noteq> Panic p" for p by (cases q) auto
  have quiet: "all_short W (rn_pending_ops ?R)" "all_sound (rn_pending_ops ?R)" using run_quiet [OF assms(1,2)] by simp_all
  note f = collect_loop_short [OF c quiet(1)]
  show thesis
  proof (cases q)
    case (Ok res)
    note n = collect_loop_results [OF c [unfolded Ok]] and run = run_collect [OF assms(1) c [unfolded Ok]]
    show thesis
    proof (cases res)
      case None
      then have "rn_pending_ops R' = []" "rn_channel R' = []" using f Ok assms(3) by auto
      then show thesis using idle c Ok n run None by (auto simp: waiting_results_def)
    next
      case (Some r)
      then show thesis using result c Ok n run by auto
    qed
  qed (use f quiet(2) no_panic in auto)
qed

lemma drain_all:
  assumes "runner_run E reqs out R" "\<forall>x \<in> set reqs. quiet_request E W x" "\<forall>n. due W (he_sched E n)" "waiting_results R \<le> k"
  shows "\<exists>rs R'. drain k E tick R = (Ok rs, R') \<and> length rs = waiting_results R \<and> runner_run E reqs (out @ rs) R' \<and>
    rn_pending_ops R' = [] \<and> rn_channel R' = []"
  using assms(1,4)
proof (induction k arbitrary: out R tick)
  case 0
  show ?case
    by (rule collect_step [OF 0(1) assms(2,3), of tick]) (use 0 in \<open>auto simp: drain.simps\<close>)
next
  case (Suc k)
  show ?case
  proof (rule collect_step [OF Suc.prems(1) assms(2,3), of tick])
    fix r tick' R1
    assume c: "collect_loop E tick (R\<lparr>rn_have_unpolled_ops := False\<rparr>) = (Ok (Some r), tick', R1)"
      "waiting_results R = Suc (waiting_results R1)" "runner_run E reqs (out @ [r]) R1"
    then obtain rs R' where "drain k E tick' R1 = (Ok rs, R')" "length rs = waiting_results R1"
      "runner_run E reqs ((out @ [r]) @ rs) R'" "rn_pending_ops R' = []" "rn_channel R' = []"
      using Suc.IH [OF c(3), of tick'] Suc.prems(2) by auto
    then show ?thesis using c(1,2) by (auto simp: drain.simps [of "Suc k"])
  qed (use Suc.prems in \<open>auto simp: drain.simps [of "Suc k"]\<close>)
qed

lemma request_map_of: "runner_run E reqs out R \<Longrightarrow> (i, q) \<in> set reqs \<Longrightarrow> map_of reqs i = Some q"
  using runner_run_ok [of E reqs out R] by (simp add: run_ok_def)

end
