(* ===== verification/Link_Spec.thy ===== *)
theory Link_Spec
  imports Guest_Engine Delivery Host_Example Guest_Spec
begin

text \<open>
  What holds between a host and the controller it runs: the controller's table stays well formed, a
  result is handed over only to a cell that awaits it, it arrives with its bytes, and
  a poll of the module returns.
\<close>

section \<open>The table\<close>

text \<open>C22: The operations on the controller's table keep it well formed: every awaited identifier has a
  cell of its own, which exists, and a cell that is not marked as holding a value holds none. A
  new request gets a cell that no other awaits; a result is accepted exactly when its
  identifier is awaited, and the only way to fail is the panic of \<open>unwrap\<close> when it is not.\<close>

theorem guest_operations_wf:
  assumes "guest_wf G"
  shows "guest_wf (get_mut_executor G) \<and>
    guest_wf (snd (start_async i G)) \<and> fst (start_async i G) \<notin> ran (gu_pending G) \<and>
    (case deliver i finished val G of
       Ok G' \<Rightarrow> guest_wf G' \<and> gu_pending G i \<noteq> None
     | Err _ \<Rightarrow> False
     | Panic p \<Rightarrow> p = Unwrap_None \<and> gu_pending G i = None) \<and>
    guest_wf (snd (abi_poll a cx G)) \<and> guest_wf (snd (abi_poll_next a cx G)) \<and>
    (case execute_request deserialize cx stage G of Ok (_, G') \<Rightarrow> guest_wf G' | _ \<Rightarrow> True) \<and>
    (case execute_request_stream deserialize cx stage G of Ok (_, G') \<Rightarrow> guest_wf G' | _ \<Rightarrow> True)"
proof (intro conjI)
  show "guest_wf (get_mut_executor G)" using assms by (simp add: guest_wf_def get_mut_executor_def)
  show "guest_wf (snd (start_async i G))" by (rule start_async_wf [OF assms, of i "fst (start_async i G)"]) simp
  show "fst (start_async i G) \<notin> ran (gu_pending G)"
    using guest_wfD(1) [OF assms] by (fastforce simp: start_async_def ran_def)
  show "case deliver i finished val G of
       Ok G' \<Rightarrow> guest_wf G' \<and> gu_pending G i \<noteq> None
     | Err _ \<Rightarrow> False
     | Panic p \<Rightarrow> p = Unwrap_None \<and> gu_pending G i = None"
  proof (cases "gu_pending G i")
    case None
    then show ?thesis by (simp add: deliver_def)
  next
    case (Some a)
    then obtain G' where "deliver i finished val G = Ok G'" using deliver_Ok_iff by blast
    then show ?thesis using deliver_wf [OF assms] Some by simp
  qed
  show "guest_wf (snd (abi_poll a cx G))" by (rule abi_poll_wf [OF assms, of a cx "fst (abi_poll a cx G)"]) simp
  show "guest_wf (snd (abi_poll_next a cx G))"
    by (rule abi_poll_next_wf [OF assms, of a cx "fst (abi_poll_next a cx G)"]) simp
qed (auto split: outcome.splits intro: execute_request_wf [OF assms] execute_request_stream_wf [OF assms])

theorem guest_operations_wf_witness:
  "\<exists>G. deliver 7 1 (Some [5]) demo_guest = Ok G \<and> guest_wf G \<and> gu_pending G 7 = None"
proof -
  have "guest_wf demo_guest" unfolding demo_guest_def by (rule start_async_wf [OF guest_wf_new prod.collapse [symmetric]])
  from guest_operations_wf [OF this, of 7 1 "Some [5]"]
  show ?thesis by (simp add: demo_guest_def start_async_def guest_new_def deliver_def)
qed

section \<open>Results\<close>

text \<open>A controller that awaits every identifier it gets from the host never panics in \<open>wakeup\<close>: in any
  run of the two, in which requests, delays, results and polls of cells come in any order, the
  result the host collects next belongs to an identifier that is awaited, so it is accepted. The
  result that ends a request removes it from the table, and no result for it is left on the host's side; any
  other result leaves it there. And no identifier is forgotten: while it is awaited, its
  last result is still to come, unless its operation fails.\<close>

theorem awaited_results:
  assumes "link_run b E L" "collect_loop E tick ((ln_runner L)\<lparr>rn_have_unpolled_ops := False\<rparr>) = (Ok (Some r), tick', R)"
  shows "\<exists>G. deliver (ar_id r) (if ar_finished r then 1 else 0) (ar_value r) (ln_guest L) = Ok G \<and>
    link_run b E (L\<lparr>ln_runner := R, ln_guest := G\<rparr>) \<and>
    (if ar_finished r then left_of (ar_id r) R = [] \<and> gu_pending G (ar_id r) = None
     else gu_pending G (ar_id r) = gu_pending (ln_guest L) (ar_id r)) \<and>
    (\<forall>i. gu_pending G i \<noteq> None \<longrightarrow> (\<exists>q. op_error (fst (request_op i (he_net E) q)) \<noteq> None) \<or>
       (\<exists>x \<in> set (left_of i R). ar_finished x))"
proof -
  obtain reqs out where ok: "link_ok E reqs out L" using link_run_ok [OF assms(1)] by blast
  then have run: "runner_run E reqs out (ln_runner L)" by (simp add: link_ok_def)
  note c = collected_awaited [OF run assms(2)]
  then obtain G where G: "deliver (ar_id r) (if ar_finished r then 1 else 0) (ar_value r) (ln_guest L) = Ok G"
    using ok deliver_Ok_iff [of "ar_id r"] unfolding link_ok_def by blast
  have step: "link_run b E (L\<lparr>ln_runner := R, ln_guest := G\<rparr>)" by (rule link_result [OF assms G])
  moreover have "if ar_finished r then left_of (ar_id r) R = [] \<and> gu_pending G (ar_id r) = None
     else gu_pending G (ar_id r) = gu_pending (ln_guest L) (ar_id r)"
    using c(2) by (rule_tac deliver_parts [OF G]) auto
  moreover have "(\<exists>q. op_error (fst (request_op i (he_net E) q)) \<noteq> None) \<or> (\<exists>x \<in> set (left_of i R). ar_finished x)"
    if "gu_pending G i \<noteq> None" for i
    using link_awaits [OF step, of i] that by simp
  ultimately show ?thesis using G by blast
qed

text \<open>A controller that has asked for a delay.\<close>

definition demo_link :: link where
  "demo_link = \<lparr>ln_ctx = \<lparr>cx_async_client_id = 0, cx_request_id_counter = 1\<rparr>,
     ln_runner = \<lparr>rn_pending_ops = [Fut (delay_op 0) False], rn_have_unpolled_ops = True, rn_nr_web_calls = 0, rn_channel = []\<rparr>,
     ln_guest = snd (start_async 0 guest_new)\<rparr>"

lemma demo_link_run: "link_run Debug demo_host_env demo_link"
proof -
  have "link_run Debug demo_host_env \<lparr>ln_ctx = controller_ctx_new 0, ln_runner = runner_new, ln_guest = guest_new\<rparr>"
    by (rule link_new)
  then have "link_run Debug demo_host_env \<lparr>ln_ctx = ln_ctx demo_link, ln_runner = ln_runner demo_link, ln_guest = ln_guest demo_link\<rparr>"
    by (rule link_delay [where millis = 5 and i = 0 and a = 0])
      (simp_all add: demo_link_def run_defs demo_defs start_async_def guest_new_def)
  moreover have "\<lparr>ln_ctx = ln_ctx demo_link, ln_runner = ln_runner demo_link, ln_guest = ln_guest demo_link\<rparr> = demo_link"
    by (simp add: demo_link_def)
  ultimately show ?thesis by simp
qed

theorem awaited_results_witness:
  "\<exists>G tick R. collect_loop demo_host_env 0 ((ln_runner demo_link)\<lparr>rn_have_unpolled_ops := False\<rparr>) =
      (Ok (Some \<lparr>ar_id = 0, ar_value = None, ar_finished = True\<rparr>), tick, R) \<and>
    deliver 0 1 None (ln_guest demo_link) = Ok G \<and> gu_pending G 0 = None"
proof -
  obtain tick R where c: "collect_loop demo_host_env 0 ((ln_runner demo_link)\<lparr>rn_have_unpolled_ops := False\<rparr>) =
      (Ok (Some \<lparr>ar_id = 0, ar_value = None, ar_finished = True\<rparr>), tick, R)"
    by (simp add: demo_link_def loop_defs run_defs demo_defs)
  from awaited_results [OF demo_link_run c] show ?thesis using c by auto
qed

text \<open>C9: Every result arrives. Take any state of the runner that can be reached by making requests and collecting
  results, in any order, and requests whose operations do not fail; let the schedule be fair, in
  that the first operation of the set is polled with all of its waits over. Then collecting, as often
  as results are waiting and not more, hands over exactly these, leaves no operation and
  nothing in the channel, and the controller has then received, for each of its requests, all of its
  results in their order, the last of them marked as such.\<close>

theorem all_results_delivered:
  assumes "runner_run E reqs out R" "\<forall>x \<in> set reqs. quiet_request E W x" "\<forall>n. due W (he_sched E n)"
  shows "\<exists>rs R'. drain (waiting_results R) E tick R = (Ok rs, R') \<and> length rs = waiting_results R \<and>
    rn_pending_ops R' = [] \<and> rn_channel R' = [] \<and>
    (\<forall>(i, q) \<in> set reqs. stream_of i (out @ rs) = op_posts (fst (request_op i (he_net E) q)) \<and>
       stream_of i (out @ rs) \<noteq> [] \<and> ar_finished (last (stream_of i (out @ rs))))"
proof -
  obtain rs R' where d: "drain (waiting_results R) E tick R = (Ok rs, R')" "length rs = waiting_results R"
    "runner_run E reqs (out @ rs) R'" "rn_pending_ops R' = []" "rn_channel R' = []"
    using drain_all [OF assms order_refl, of tick] by blast
  have "stream_of i (out @ rs) = op_posts (fst (request_op i (he_net E) q)) \<and>
       stream_of i (out @ rs) \<noteq> [] \<and> ar_finished (last (stream_of i (out @ rs)))" if "(i, q) \<in> set reqs" for i q
  proof -
    have "left_of i R' = []" using d(4,5) by (simp add: left_of_def pending_of_def)
    then have s: "stream_of i (out @ rs) = op_posts (fst (request_op i (he_net E) q))"
      using runner_run_ok [OF d(3)] request_map_of [OF d(3) that] unfolding run_ok_def by (metis append_Nil2 option.simps(5))
    have "op_error (fst (request_op i (he_net E) q)) = None" using assms(2) that by (force simp: quiet_request_def Let_def)
    then show ?thesis unfolding s using request_op_ended [of i "he_net E" q] by (simp add: well_ended_def Let_def)
  qed
  then show ?thesis using d by blast
qed

theorem all_results_delivered_witness:
  "\<exists>R rs R'. drain 3 (demo_host_env\<lparr>he_sched := \<lambda>n. [(0, 5)]\<rparr>) 0 R = (Ok rs, R') \<and> length rs = 3 \<and>
    rn_pending_ops R' = [] \<and> rn_channel R' = [] \<and> stream_of 7 rs =
      [\<lparr>ar_id = 7, ar_value = Some [1], ar_finished = False\<rparr>, \<lparr>ar_id = 7, ar_value = Some [2, 3], ar_finished = True\<rparr>]"
proof -
  let ?E = "demo_host_env\<lparr>he_sched := \<lambda>n. [(0, 5)]\<rparr>"
  obtain R1 where r1: "handle_request 0 (he_net ?E) 7 (Http ()) runner_new = Ok R1"
    using handle_request_correct [OF runner_inv_new] by metis
  have run1: "runner_run ?E ([] @ [(7, Http ())]) [] R1" by (rule run_request [OF run_new _ r1]) simp
  then have inv: "runner_inv R1" using runner_run_ok by (auto simp: run_ok_def)
  obtain R where r2: "handle_request 0 (he_net ?E) 8 (Delay (Duration 0)) R1 = Ok R"
    using handle_request_correct [OF inv] by metis
  have run: "runner_run ?E (([] @ [(7, Http ())]) @ [(8, Delay (Duration 0))]) [] R" by (rule run_request [OF run1 _ r2]) simp
  have net: "he_net ?E = (\<lambda>i q. Some (Some [1], [Some [2], Some [3]]))" by (simp add: demo_host_env_def)
  have "waiting_results R = 3"
    using handle_request_results [OF r1] handle_request_results [OF r2]
    by (simp add: net request_op_def http_op_def post_meta_def delay_op_def waiting_results_def runner_new_def)
  moreover have "\<forall>x \<in> set (([] @ [(7, Http ())]) @ [(8, Delay (Duration 0))]). quiet_request ?E 2 x"
    by (simp add: quiet_request_def net request_op_def http_op_def post_meta_def delay_op_def)
  moreover have "\<forall>n. due 2 (he_sched ?E n)" by (auto simp: due_def)
  ultimately obtain rs R' where "drain 3 ?E 0 R = (Ok rs, R')" "length rs = 3" "rn_pending_ops R' = []" "rn_channel R' = []"
    "stream_of 7 rs = op_posts (fst (request_op 7 (he_net ?E) (Http ())))"
    using all_results_delivered [OF run, of 2 0] by auto
  then show ?thesis
    by (intro exI [of _ R] exI [of _ rs] exI [of _ R']) (simp add: net request_op_def http_op_def post_meta_def)
qed

text \<open>C14: A result goes through the linear memory. When the host wakes a controller, whose allocator hands
  out what it is asked for, the controller sees exactly the bytes of the result in the cell that
  awaits the identifier, and whether this was the last one; then its tasks run, and the host
  functions they call take effect. An empty body arrives as an empty vector and not as no value,
  since the pointer of an allocation of nothing is not null. Identifiers that are not awaited trap.\<close>

theorem wakeup_crosses_memory:
  assumes "runs_controller V view alloc run" "alloc_ok alloc" "ms_inner st = GotInst cx vm" "vm_memory V vm \<noteq> []"
    "\<And>bytes. val = Some bytes \<Longrightarrow> length bytes < 2 ^ 31 \<and> (bytes \<noteq> [] \<longrightarrow> alloc (of_nat (length bytes)) (vm_memory V vm) \<noteq> None)"
  shows "\<exists>vm'. view vm' = view vm \<and> (case gu_pending (view vm) i of
      None \<Rightarrow> abi_wakeup b V E i val finished st = (Err Trap, st\<lparr>ms_inner := GotInst cx vm'\<rparr>)
    | Some a \<Rightarrow> \<exists>G. deliver i (if finished then 1 else 0) val (view vm) = Ok G \<and>
        (a < length (gu_cells (view vm)) \<longrightarrow> as_has_value (gu_cells G ! a) \<and> (val \<noteq> None \<longrightarrow> as_value (gu_cells G ! a) = val)) \<and>
        (gu_pending G i = None \<longleftrightarrow> finished) \<and>
        abi_wakeup b V E i val finished st = enter_guest b E (run_tasks run (Ok G)) (st\<lparr>ms_inner := GotInst cx vm'\<rparr>))"
proof -
  obtain vm' where w: "view vm' = view vm" "abi_wakeup b V E i val finished st =
    enter_guest b E (run_tasks run (deliver i (if finished then 1 else 0) val (view vm))) (st\<lparr>ms_inner := GotInst cx vm'\<rparr>)"
    by (rule abi_wakeup_runs [OF assms])
  show ?thesis
  proof (cases "gu_pending (view vm) i")
    case None
    then have "deliver i (if finished then 1 else 0) val (view vm) = Panic Unwrap_None" by (simp add: deliver_def)
    then show ?thesis using w None by (auto simp: enter_guest_def run_tasks_def)
  next
    case (Some a)
    then obtain G where G: "deliver i (if finished then 1 else 0) val (view vm) = Ok G" using deliver_Ok_iff [of i] by blast
    have "(a < length (gu_cells (view vm)) \<longrightarrow> as_has_value (gu_cells G ! a) \<and> (val \<noteq> None \<longrightarrow> as_value (gu_cells G ! a) = val)) \<and>
      (gu_pending G i = None \<longleftrightarrow> finished)"
      by (rule deliver_parts [OF G]) (use Some in auto)
    then show ?thesis using w Some G by auto
  qed
qed

text \<open>An instance with its memory and its tables beside it, whose tasks only ask for a delay.\<close>

record guest_vm =
  gv_memory :: "u8 list"
  gv_guest :: guest

definition guest_engine :: "allocator \<Rightarrow> (u64 \<Rightarrow> guest_vm \<Rightarrow> guest \<Rightarrow> (guest_vm \<times> guest_call list) outcome) \<Rightarrow> (guest_vm, nat) vm_ops" where
  "guest_engine alloc run = \<lparr>
     vm_load = (\<lambda>_. Some \<lparr>gv_memory = [], gv_guest = guest_new\<rparr>),
     vm_exports_memory = (\<lambda>_. True),
     vm_memory = gv_memory,
     vm_put_memory = (\<lambda>mem vm. vm\<lparr>gv_memory := mem\<rparr>),
     vm_grow = (\<lambda>n vm. Some (vm\<lparr>gv_memory := gv_memory vm @ replicate (n * WASM_PAGE_SIZE) 0\<rparr>)),
     vm_globals = (\<lambda>vm. []),
     vm_set_global = (\<lambda>name v vm. None),
     vm_start = (\<lambda>i vm. case guest_main (run i vm) 0 (gv_guest vm) of Ok r \<Rightarrow> Some r | _ \<Rightarrow> None),
     vm_allocate = (\<lambda>n i vm. map_option (\<lambda>(ptr, mem). (ptr, vm\<lparr>gv_memory := mem\<rparr>, [])) (guest_allocate alloc n (gv_memory vm))),
     vm_wakeup = (\<lambda>i finished ptr len j vm. case guest_wakeup (run j vm) i finished
        (vec_from_raw_parts (gv_memory vm) ptr len) (gv_guest vm) of Ok r \<Rightarrow> Some r | _ \<Rightarrow> None)\<rparr>"

lemma guest_engine_runs: "runs_controller (guest_engine alloc run) gv_guest alloc run"
proof -
  have "take (length bytes) (drop ptr mem) = bytes"
    if "mem = take ptr m @ bytes @ drop (ptr + length bytes) m" "ptr + length bytes \<le> length m" for mem bytes m and ptr :: nat
    using that by simp
  then show ?thesis
    by (auto simp: runs_controller_def guest_engine_def write_memory_def Let_def split: option.splits if_splits)
qed

definition demo_alloc :: allocator where
  "demo_alloc n mem = (if 16 + unat n \<le> length mem then Some (16, mem) else None)"

definition demo_tasks :: "u64 \<Rightarrow> guest_vm \<Rightarrow> guest \<Rightarrow> (guest_vm \<times> guest_call list) outcome" where
  "demo_tasks j vm G = Ok (vm\<lparr>gv_guest := snd (start_async j G)\<rparr>, [Call_Delay 5])"

definition demo_guest_module :: "(guest_vm, nat) module_state" where
  "demo_guest_module = (module_new demo_host_env (controller_ctx_new 0) ''m.wasm'' ''m.bin'' 1 (\<lambda>_. None))
     \<lparr>ms_inner := GotInst \<lparr>cx_async_client_id = 0, cx_request_id_counter = 8\<rparr> \<lparr>gv_memory = replicate 32 0, gv_guest = demo_guest\<rparr>\<rparr>"

theorem wakeup_crosses_memory_witness:
  "\<exists>G vm st. deliver 7 1 (Some [5, 6]) demo_guest = Ok G \<and> as_value (gu_cells G ! 0) = Some [5, 6] \<and>
    abi_wakeup Debug (guest_engine demo_alloc demo_tasks) demo_host_env 7 (Some [5, 6]) True demo_guest_module = (Ok (), st) \<and>
    ms_inner st = GotInst \<lparr>cx_async_client_id = 0, cx_request_id_counter = 9\<rparr> vm \<and> gu_pending (gv_guest vm) 8 \<noteq> None"
proof -
  let ?vm = "\<lparr>gv_memory = replicate 32 0, gv_guest = demo_guest\<rparr>"
  have h: "alloc_ok demo_alloc" "ms_inner demo_guest_module = GotInst \<lparr>cx_async_client_id = 0, cx_request_id_counter = 8\<rparr> ?vm"
    "vm_memory (guest_engine demo_alloc demo_tasks) ?vm \<noteq> []"
    "length [5, 6 :: u8] < 2 ^ 31 \<and> ([5, 6 :: u8] \<noteq> [] \<longrightarrow>
       demo_alloc (of_nat (length [5, 6 :: u8])) (vm_memory (guest_engine demo_alloc demo_tasks) ?vm) \<noteq> None)"
    by (auto simp: alloc_ok_def demo_alloc_def demo_guest_module_def guest_engine_def split: if_splits)
  have "gu_pending demo_guest 7 = Some 0" "0 < length (gu_cells demo_guest)"
    by (simp_all add: demo_guest_def start_async_def guest_new_def)
  with wakeup_crosses_memory [OF guest_engine_runs h(1-3), where val = "Some [5, 6]" and i = 7 and b = Debug and E = demo_host_env and finished = True] h(4)
  obtain G vm' where G: "gv_guest vm' = demo_guest" "deliver 7 1 (Some [5, 6]) demo_guest = Ok G" "as_value (gu_cells G ! 0) = Some [5, 6]"
    "abi_wakeup Debug (guest_engine demo_alloc demo_tasks) demo_host_env 7 (Some [5, 6]) True demo_guest_module =
      enter_guest Debug demo_host_env (run_tasks demo_tasks (Ok G))
        (demo_guest_module\<lparr>ms_inner := GotInst \<lparr>cx_async_client_id = 0, cx_request_id_counter = 8\<rparr> vm'\<rparr>)"
    by auto
  then show ?thesis
    by (auto simp: enter_guest_def run_tasks_def demo_tasks_def run_defs demo_guest_module_def module_new_eq demo_defs
        start_async_def get_mut_executor_def Let_def)
qed

section \<open>A poll\<close>

text \<open>C10: A poll of a module returns, whatever state of the event loop it starts in, if the controller makes
  at most \<open>N\<close> requests in its life and each has at most \<open>W\<close> results. The number of turns is bounded by the results that
  can still come, those in the channel, those of the operations that run and \<open>W\<close> for each
  request that is left; and with any bound above that, the poll yields the same.\<close>

theorem poll_returns:
  assumes "engine_ok V" "module_ok V st" "results_within E W" "requests_within V N"
  shows "\<exists>r st'. \<forall>k > results_left W N st. poll_event_loop k cu b V E st = Some (r, st')"
  by (rule poll_event_loop_returns [OF assms(1,3,4)]) (use assms(2) in \<open>simp add: module_ok_def\<close>)

text \<open>A controller that asks for a delay when it starts, and for nothing later.\<close>

definition quiet_engine :: "(demo_vm, nat) vm_ops" where
  "quiet_engine = demo_engine\<lparr>vm_start := \<lambda>i vm. Some (vm, if i = 0 then [Call_Delay 5] else [])\<rparr>"

lemma quiet_engine_ok: "engine_ok quiet_engine"
  using demo_engine_ok unfolding engine_ok_def engine_memory_ok_def engine_globals_ok_def engine_calls_ok_def
    keeps_module_def exports_def quiet_engine_def by (simp split: if_splits)

theorem poll_returns_witness:
  "\<exists>r st'. poll_event_loop 5 True Debug quiet_engine demo_host_env demo_module = Some (r, st')"
proof -
  have "module_ok quiet_engine demo_module" unfolding demo_module_eq by (rule module_new_ok)
  moreover have "results_within demo_host_env 4"
    by (simp add: results_within_def request_op_def demo_host_env_def http_op_def http_stream_op_def delay_op_def post_meta_def
        split: request_value.splits)
  moreover have "requests_within quiet_engine 1"
    by (auto simp: requests_within_def quiet_engine_def demo_engine_def split: if_splits)
  moreover have "results_left 4 1 demo_module = 4"
    by (simp add: results_left_def content_of_def still_def waiting_results_def demo_defs)
  ultimately show ?thesis using poll_returns [OF quiet_engine_ok, of demo_module demo_host_env 4 1 True Debug] by fastforce
qed

end
