(* ===== verification/Settle.thy ===== *)
theory Settle
  imports Delivery Loop_Law
begin

text \<open>
  Why a host comes to rest: in every round of polls, one of its modules gets on, until the
  operations of all of them are over and each has ended.
\<close>

section \<open>What is left for a module\<close>

definition waits_within :: "'req host_env \<Rightarrow> nat \<Rightarrow> bool" where
  "waits_within E D \<longleftrightarrow> (\<forall>i q. waits (fst (request_op i (he_net E) q)) \<le> D)"

definition limited :: "nat \<Rightarrow> nat \<Rightarrow> nat \<Rightarrow> ('vm, 'val) module_state \<Rightarrow> bool" where
  "limited W N D st \<longleftrightarrow> results_left W N st \<le> W * N \<and> all_short D (rn_pending_ops (ms_runner st))"

text \<open>Everything that limits what the controllers of a host can do.\<close>

definition all_limited :: "('vm, 'val) vm_ops \<Rightarrow> 'req host_env \<Rightarrow> nat \<Rightarrow> nat \<Rightarrow> nat \<Rightarrow> bool" where
  "all_limited V E W N D \<longleftrightarrow> results_within E W \<and> requests_within V N \<and> waits_within E D"

lemma guest_calls_short:
  assumes "waits_within E D" "guest_calls b E cs (cx, R) = Ok (cx', R')" "all_short D (rn_pending_ops R)"
  shows "all_short D (rn_pending_ops R')"
  using assms(2,3)
proof (induction cs arbitrary: cx R)
  case (Cons c cs)
  obtain n q R1 where r: "handle_request n (he_net E) (cx_request_id_counter cx) q R = Ok R1"
    "guest_calls b E cs (cx\<lparr>cx_request_id_counter := cx_request_id_counter cx + 1\<rparr>, R1) = Ok (cx', R')"
    by (rule guest_calls_step [OF Cons.prems(1)])
  obtain c where "rn_pending_ops R1 = rn_pending_ops R @ [c]" "short D c"
    using handle_request_ops [OF r(1)] assms(1) unfolding waits_within_def by metis
  then show ?case using Cons.IH [OF r(2)] Cons.prems(2) by simp
qed simp

lemma run_task_short:
  assumes "waits_within E D"
  shows "goes_on (\<lambda>s. all_short D (rn_pending_ops (ms_runner s))) (run_task b V E u)"
proof -
  let ?P = "\<lambda>s. all_short D (rn_pending_ops (ms_runner s))"
  have entered: "?P st'" if *: "?P st" "enter_guest b E call st = (Ok x, st')" for call st x st'
  proof -
    obtain cx cs cx' R' where "guest_calls b E cs (cx, ms_runner st) = Ok (cx', R')" "ms_runner st' = R'"
      using *(2) by (auto simp: enter_guest_def split: maybe_inst.splits option.splits outcome.splits outcome.splits prod.splits)
    then show "?P st'" using guest_calls_short [OF assms] *(1) by simp
  qed
  show ?thesis
    by (rule run_task_rule; rule act_okI)
      (auto dest: entered simp: memory_write_def split: maybe_inst.splits option.splits outcome.splits)
qed

lemma limited_runtime:
  assumes "all_limited V E W N D" "module_inv V l st" "limited W N D st" "poll_unpin b V E st = (Ok p, st')"
  shows "limited W N D st'"
proof -
  have "results_left W N st' \<le> results_left W N st"
    using assms(1) by (intro poll_unpin_left [OF _ _ assms(2,4)]) (simp_all add: all_limited_def)
  moreover have "all_short D (rn_pending_ops (ms_runner st'))" using assms(2,4)
  proof (cases rule: poll_unpin_Ok)
    case (ran w st1)
    then obtain st0 where r: "ms_runner st0 = ms_runner st" "run_task b V E (work_of w) st0 = (Ok (), st1)"
      by (auto simp: runs_in_memory_def)
    have "waits_within E D" using assms(1) by (simp add: all_limited_def)
    from act_ok_Ok [OF run_task_short [OF this] _ r(2)] r(1) ran(5) assms(3) show ?thesis by (simp add: limited_def)
  qed (use assms(3) in \<open>auto simp: limited_def still_waits_def swaps_out_def\<close>)
  ultimately show ?thesis using assms(3) by (simp add: limited_def)
qed

lemma limited_resolve:
  assumes "limited W N D st" "ms_wasm_work st = None" "resolve_async_ops E st = (Ok again, st')"
  shows "limited W N D st'"
proof -
  obtain m tick R where m: "collect_loop E (ms_tick st) ((ms_runner st)\<lparr>rn_have_unpolled_ops := False\<rparr>) = (Ok m, tick, R)"
    "same_core (st\<lparr>ms_runner := R\<rparr>) st'"
    by (rule resolve_Ok [OF assms(3,2)])
  have "all_short D (rn_pending_ops R)" using collect_loop_short [OF m(1), of D] assms(1) by (simp add: limited_def)
  then show ?thesis using resolve_left [OF assms(3,2), of W N] m(2) assms(1)
    by (auto simp: limited_def same_core_def split: if_splits)
qed

lemma limited_rest:
  assumes "limited W N D st" "ms_wasm_work st = None" "rest_of st st'"
  shows "limited W N D st'"
proof -
  have s: "same_core (st\<lparr>ms_runner := ms_runner st\<rparr>) st'" using assms(3) by (simp add: rest_of_def)
  have "content_of st' = content_of st"
    by (rule rest_of_content [OF s assms(2)]) (use assms(3) in \<open>auto simp: rest_of_def\<close>)
  then show ?thesis using assms(1) s by (auto simp: limited_def results_left_def same_core_def split: option.splits)
qed

lemma limited_fresh:
  "limited W N D ((module_new E (controller_ctx_new i) path swap q files)\<lparr>ms_wasm_work := Some (Fresh Start), ms_uninstantiating := False\<rparr>)"
  by (simp add: limited_def results_left_def content_of_def module_new_eq still_def waiting_results_def runner_new_def controller_ctx_new_def)

lemma limited_shared:
  assumes "limited W N D st" "files (ms_swap_path st) = ms_files st (ms_swap_path st)"
  shows "limited W N D (st\<lparr>ms_permits := q, ms_files := files\<rparr>)"
proof -
  have "content_of (st\<lparr>ms_permits := q, ms_files := files\<rparr>) = content_of st"
    using assms(2) by (cases "ms_inner st"; cases "ms_wasm_work st") (simp_all add: content_of_def split: wasm_work.split)
  then show ?thesis using assms(1) by (auto simp: limited_def results_left_def split: option.splits)
qed

interpretation limits: loop_law "\<lambda>st. all_limited V E W N D \<longrightarrow> limited W N D st" cu b V E
  for V E W N D cu b
  by unfold_locales (blast intro: limited_fresh limited_shared limited_runtime limited_resolve limited_rest)+

text \<open>The count of calls to the surroundings, by which their behaviour goes on.\<close>

lemma run_task_tick: "goes_on (\<lambda>s. ms_tick s = t) (run_task b V E u)"
  by (rule run_task_rule; rule act_okI)
    (auto simp: enter_guest_def memory_write_def split: maybe_inst.splits option.splits outcome.splits prod.splits)

lemma poll_unpin_tick:
  assumes "module_inv V l st" "poll_unpin b V E st = (Ok p, st')"
  shows "ms_tick st \<le> ms_tick st'"
  using assms
proof (cases rule: poll_unpin_Ok)
  case (ran w st1)
  then obtain st0 where "ms_tick st0 = ms_tick st" "run_task b V E (work_of w) st0 = (Ok (), st1)"
    by (auto simp: runs_in_memory_def)
  then show ?thesis using act_ok_Ok [OF run_task_tick [of "ms_tick st"]] ran(5) by fastforce
qed (auto simp: still_waits_def swaps_out_def)

lemma collect_loop_tick: "collect_loop E tick R = (r, tick', R') \<Longrightarrow> tick < tick'"
proof (induction E tick R rule: collect_loop.induct)
  case (1 E tick R)
  obtain q R1 where t: "collect_turn (he_sched E tick) R = (q, R1)" by (cases "collect_turn (he_sched E tick) R")
  show ?case
  proof (cases "q = Ok None")
    case True
    then have "collect_loop E (Suc tick) R1 = (r, tick', R')" using 1(2) t by (simp add: collect_loop.simps [of E tick R])
    then show ?thesis using 1(1) [OF t [symmetric] True refl] by simp
  next
    case False
    then show ?thesis using 1(2) t by (cases q) (auto simp: collect_loop.simps [of E tick R] split: option.splits)
  qed
qed

lemma resolve_tick:
  assumes "resolve_async_ops E st = (Ok again, st')" "ms_wasm_work st = None"
  shows "ms_tick st < ms_tick st'"
proof -
  obtain m tick R where m: "collect_loop E (ms_tick st) ((ms_runner st)\<lparr>rn_have_unpolled_ops := False\<rparr>) = (Ok m, tick, R)" "tick \<le> ms_tick st'"
    by (rule resolve_Ok [OF assms])
  have "ms_tick st < tick" by (rule collect_loop_tick [OF m(1)])
  then show ?thesis using m(2) by simp
qed

interpretation ticks: loop_steps "\<lambda>st. t \<le> ms_tick st" b V E for t b V E
  by unfold_locales (auto dest: poll_unpin_tick resolve_tick simp: rest_of_def)

section \<open>A poll that is not blocked\<close>

text \<open>With a permit left, or its own, a module does not wait for one.\<close>

definition may_run :: "('vm, 'val) module_state \<Rightarrow> bool" where
  "may_run st \<longleftrightarrow> 0 < ms_permits st + instances st"

lemma may_run_ledger: "module_inv V l st \<Longrightarrow> module_inv V l st' \<Longrightarrow> may_run st' = may_run st"
  by (auto simp: module_inv_def ledger_def may_run_def)

lemma poll_unpin_free:
  assumes "module_inv V l st" "may_run st" "poll_unpin b V E st = (Ok p, st')"
  shows "p = Ready ()"
  using assms(1,3) by (cases rule: poll_unpin_Ok) (use assms(2) in \<open>auto simp: still_waits_def may_run_def\<close>)

text \<open>The first loop of a poll has then collected all it can, and nothing is left if everything was due.\<close>

lemma loop_settles:
  assumes "engine_ok V" "all_limited V E W N D" "module_inv V l st" "limited W N D st" "may_run st"
    "resolve_loop b V E k st = Some (Ok (), st')"
  shows "module_inv V l st' \<and> ms_wasm_work st' = None \<and> ms_tick st < ms_tick st' \<and>
    ((\<forall>m\<ge>ms_tick st. due D (he_sched E m)) \<longrightarrow> rn_pending_ops (ms_runner st') = [])"
  using assms(3-6)
proof (induction k arbitrary: st)
  case (Suc k)
  let ?turn = "act_bind (poll_unpin b V E) (\<lambda>p. if p = Ready () then resolve_async_ops E else act_return False)"
  obtain again st2 where t: "?turn st = (Ok again, st2)" "if again then resolve_loop b V E k st2 = Some (Ok (), st') else st2 = st'"
    using Suc.prems(4) by (auto split: prod.splits outcome.splits if_splits)
  obtain p st1 where p: "poll_unpin b V E st = (Ok p, st1)"
    "(if p = Ready () then resolve_async_ops E else act_return False) st1 = (Ok again, st2)"
    by (rule act_bind_Ok [OF t(1)])
  have r: "resolve_async_ops E st1 = (Ok again, st2)" using p poll_unpin_free [OF Suc.prems(1,3) p(1)] by simp
  have i: "module_inv V l st1" "ms_wasm_work st1 = None"
    using act_ok_Ok [OF poll_unpin_ok [OF assms(1)] Suc.prems(1) p(1)] poll_unpin_free [OF Suc.prems(1,3) p(1)] by (simp_all add: idle_def)
  have l: "limited W N D st1" by (rule limited_runtime [OF assms(2) Suc.prems(1,2) p(1)])
  have tick: "ms_tick st \<le> ms_tick st1" "ms_tick st1 < ms_tick st2"
    using poll_unpin_tick [OF Suc.prems(1) p(1)] resolve_tick [OF r i(2)] by simp_all
  have k: "module_inv V l st2" "limited W N D st2" using limits.turn_kept [OF assms(1) Suc.prems(1) _ t(1)] assms(2) Suc.prems(2) by blast+
  show ?case
  proof (cases again)
    case True
    then have "resolve_loop b V E k st2 = Some (Ok (), st')" using t(2) by simp
    from Suc.IH [OF k _ this] may_run_ledger [OF Suc.prems(1) k(1)] Suc.prems(3) tick show ?thesis by auto
  next
    case False
    obtain m tick R where m: "collect_loop E (ms_tick st1) ((ms_runner st1)\<lparr>rn_have_unpolled_ops := False\<rparr>) = (Ok m, tick, R)"
      "again = (m \<noteq> None)" "ms_wasm_work st2 = map_option (\<lambda>r. Fresh (Wakeup (ar_id r) (ar_value r) (ar_finished r))) m"
      "same_core (st1\<lparr>ms_runner := R\<rparr>) st2"
      by (rule resolve_Ok [OF r i(2)])
    then show ?thesis using False t(2) k(1) tick l collect_loop_short [OF m(1), of D]
      by (auto simp: limited_def same_core_def)
  qed
qed simp

lemma poll_settles:
  assumes "engine_ok V" "all_limited V E W N D" "module_inv V l st" "limited W N D st" "may_run st"
    "poll_event_loop k cu b V E st = Some (Ok Pending, st')"
  shows "ms_tick st < ms_tick st' \<and> \<not> (\<forall>m\<ge>ms_tick st. due D (he_sched E m))"
proof -
  obtain st1 where r: "resolve_loop b V E k st = Some (Ok (), st1)" "after_resolve cu b V E st1 = (Ok Pending, st')"
    using assms(6) by (auto simp: poll_event_loop_def split: option.splits prod.splits outcome.splits)
  note s = loop_settles [OF assms(1-5) r(1)]
  have u: "poll_unpin b V E st1 = (Ok (Ready ()), st1)" using s by (simp add: poll_unpin_def act_run)
  have "rn_pending_ops (ms_runner st1) \<noteq> []"
    using r(2) u by (auto simp: after_resolve_def act_bind_def act_run)
  moreover have "ms_tick st1 \<le> ms_tick st'"
    using r(2) conjunct1 [OF s] assms(1) by (cases rule: after_resolve_Ok) (use u in \<open>auto simp: rest_of_def\<close>)
  ultimately show ?thesis using s by auto
qed

section \<open>Rounds\<close>

text \<open>
  A task is named by the swap file of its module. In a round every task is polled at least once;
  a task that has ended is not polled any more.
\<close>

fun position :: "('a \<Rightarrow> bool) \<Rightarrow> 'a list \<Rightarrow> nat option" where
  "position P [] = None"
| "position P (x # xs) = (if P x then Some 0 else map_option Suc (position P xs))"

definition poll_task :: "nat \<Rightarrow> bool \<Rightarrow> build \<Rightarrow> ('vm, 'val) vm_ops \<Rightarrow> 'req host_env \<Rightarrow> string \<Rightarrow> ('vm, 'val) host \<Rightarrow> ('vm, 'val) host option" where
  "poll_task n cu b V E task H = (case position (\<lambda>st. ms_swap_path st = task) (ho_modules H) of
     None \<Rightarrow> Some H
   | Some j \<Rightarrow> poll_module n cu b V E j H)"

fun poll_round :: "nat \<Rightarrow> bool \<Rightarrow> build \<Rightarrow> ('vm, 'val) vm_ops \<Rightarrow> 'req host_env \<Rightarrow> string list \<Rightarrow> ('vm, 'val) host \<Rightarrow> ('vm, 'val) host option" where
  "poll_round n cu b V E [] H = Some H"
| "poll_round n cu b V E (task # tasks) H = Option.bind (poll_task n cu b V E task H) (poll_round n cu b V E tasks)"

fun poll_rounds :: "nat \<Rightarrow> bool \<Rightarrow> build \<Rightarrow> ('vm, 'val) vm_ops \<Rightarrow> 'req host_env \<Rightarrow> (nat \<Rightarrow> string list) \<Rightarrow> nat \<Rightarrow> ('vm, 'val) host \<Rightarrow> ('vm, 'val) host option" where
  "poll_rounds n cu b V E rounds 0 H = Some H"
| "poll_rounds n cu b V E rounds (Suc m) H = Option.bind (poll_rounds n cu b V E rounds m H) (poll_round n cu b V E (rounds m))"

definition tasks_of :: "('vm, 'val) host \<Rightarrow> string set" where
  "tasks_of H = ms_swap_path ` set (ho_modules H)"

lemma position_None: "position P xs = None \<longleftrightarrow> (\<forall>x \<in> set xs. \<not> P x)"
  by (induction xs) auto

lemma position_Some: "position P xs = Some j \<Longrightarrow> j < length xs \<and> P (xs ! j)"
  by (induction xs arbitrary: j) (auto split: if_splits)

text \<open>How far a module is from the time \<open>T\<close>, from which on all its operations are due.\<close>

definition to_come :: "nat \<Rightarrow> ('vm, 'val) host \<Rightarrow> nat" where
  "to_come T H = sum_list (map (\<lambda>st. Suc (T - ms_tick st)) (ho_modules H))"

lemma to_come_bound: "to_come T H \<le> length (ho_modules H) * Suc T"
proof -
  have "sum_list (map (\<lambda>st. Suc (T - ms_tick st)) sts) \<le> length sts * Suc T" for sts :: "('a, 'b) module_state list"
    by (induction sts) auto
  then show ?thesis by (simp add: to_come_def)
qed

text \<open>What one poll does: it ends, no module falls back, and the one that was polled gets on if it may run.\<close>

lemma poll_gets_on:
  assumes "engine_ok V" "all_limited V E W N D" "\<forall>m\<ge>T. due D (he_sched E m)" "host_run cu b V E su H"
    "j < length (ho_modules H)" "W * N < k"
  obtains H' where "poll_module k cu b V E j H = Some H'" "to_come T H' \<le> to_come T H"
    "may_run (share H (ho_modules H ! j)) \<Longrightarrow> to_come T H' < to_come T H" "tasks_of H' \<subseteq> tasks_of H"
    "\<And>st. st \<in> set (ho_modules H) \<Longrightarrow> st \<noteq> ho_modules H ! j \<Longrightarrow> st \<in> set (ho_modules H')"
proof -
  let ?ms = "ho_modules H"
  let ?st = "share H (?ms ! j)"
  have inv: "host_inv cu V su H" by (rule host_run_inv [OF assms(4,1)])
  then have ok: "module_inv V (ledger ?st) ?st" using assms(5) by (auto simp: host_inv_def module_ok_def)
  have l: "limited W N D ?st" using limits.every_module [OF assms(4,1)] assms(2,5) by (meson nth_mem)
  then have "results_left W N ?st < k" using assms(6) by (simp add: limited_def)
  then obtain r st' where p: "poll_event_loop k cu b V E ?st = Some (r, st')"
    using poll_event_loop_returns [OF assms(1) _ _ ok, of E W N cu b] assms(2) by (auto simp: all_limited_def)
  have tick: "ms_tick ?st = ms_tick (?ms ! j)" by (simp add: share_def)
  have sum: "to_come T H = sum_list (map (\<lambda>st. Suc (T - ms_tick st)) (drop_nth j ?ms)) + Suc (T - ms_tick (?ms ! j))"
    using sum_list_drop_nth [of j "map (\<lambda>st. Suc (T - ms_tick st)) ?ms"] assms(5) by (simp add: to_come_def map_drop_nth)
  show thesis
  proof (cases "r = Ok Pending")
    case True
    let ?H' = "H\<lparr>ho_modules := ?ms[j := st'], ho_permits := ms_permits st', ho_files := ms_files st'\<rparr>"
    have "to_come T ?H' + Suc (T - ms_tick (?ms ! j)) = to_come T H + Suc (T - ms_tick st')"
      using sum_list_update_nat [of j "map (\<lambda>st. Suc (T - ms_tick st)) ?ms" "Suc (T - ms_tick st')"] assms(5)
      by (simp add: to_come_def map_update)
    moreover have "ms_tick (?ms ! j) \<le> ms_tick st'"
      using ticks.poll_kept [OF assms(1) ok _ p [unfolded True], of "ms_tick ?st"] tick by simp
    moreover have "ms_tick (?ms ! j) < ms_tick st' \<and> ms_tick (?ms ! j) < T" if "may_run ?st"
      using poll_settles [OF assms(1,2) ok l that p [unfolded True]] assms(3) tick by (metis le_trans not_le)
    moreover have "ms_swap_path st' = ms_swap_path (?ms ! j)"
      using ledger_same(2) [OF poll_shared(1) [OF assms(1) _ p]] ok by (simp add: module_ok_def)
    then have "tasks_of ?H' \<subseteq> tasks_of H"
      using set_update_subset_insert [of ?ms j st'] assms(5) by (fastforce simp: tasks_of_def)
    moreover have "st \<in> set (?ms[j := st'])" if "st \<in> set ?ms" "st \<noteq> ?ms ! j" for st
      using that by (metis in_set_conv_nth length_list_update nth_list_update_neq)
    ultimately show thesis using p True by (intro that [of ?H']) (auto simp: poll_module_def)
  next
    case False
    let ?H' = "H\<lparr>ho_modules := drop_nth j ?ms, ho_permits := ms_permits st' + instances st', ho_files := ms_files st'\<rparr>"
    have "poll_module k cu b V E j H = Some ?H'"
      using p False by (auto simp: poll_module_def split: outcome.splits poll.splits)
    moreover have "to_come T ?H' < to_come T H" using sum by (simp add: to_come_def)
    moreover have "tasks_of ?H' \<subseteq> tasks_of H" using set_drop_nth [of j ?ms] by (auto simp: tasks_of_def)
    moreover have "st \<in> set (drop_nth j ?ms)" if "st \<in> set ?ms" "st \<noteq> ?ms ! j" for st
      using that arg_cong [OF id_take_nth_drop [OF assms(5)], of set] by (auto simp: drop_nth_def)
    ultimately show thesis by (intro that [of ?H']) auto
  qed
qed

lemma round_gets_on:
  assumes "engine_ok V" "all_limited V E W N D" "\<forall>m\<ge>T. due D (he_sched E m)" "host_run cu b V E su H" "W * N < k"
  shows "\<exists>H'. poll_round k cu b V E tasks H = Some H' \<and> host_run cu b V E su H' \<and> to_come T H' \<le> to_come T H \<and> tasks_of H' \<subseteq> tasks_of H \<and>
    ((\<exists>st \<in> set (ho_modules H). ms_swap_path st \<in> set tasks \<and> may_run (share H st)) \<longrightarrow> to_come T H' < to_come T H)"
  using assms(4)
proof (induction tasks arbitrary: H)
  case (Cons task tasks)
  let ?ms = "ho_modules H"
  show ?case
  proof (cases "position (\<lambda>st. ms_swap_path st = task) ?ms")
    case None
    then have "ms_swap_path st \<noteq> task" if "st \<in> set ?ms" for st using that by (simp add: position_None)
    then show ?thesis using Cons.IH [OF Cons.prems] None by (auto simp: poll_task_def)
  next
    case (Some j)
    then have j: "j < length ?ms" "ms_swap_path (?ms ! j) = task" using position_Some [OF Some] by simp_all
    obtain H1 where H1: "poll_module k cu b V E j H = Some H1" "to_come T H1 \<le> to_come T H"
      "may_run (share H (?ms ! j)) \<Longrightarrow> to_come T H1 < to_come T H" "tasks_of H1 \<subseteq> tasks_of H"
      "\<And>st. st \<in> set ?ms \<Longrightarrow> st \<noteq> ?ms ! j \<Longrightarrow> st \<in> set (ho_modules H1)"
      by (rule poll_gets_on [OF assms(1-3) Cons.prems j(1) assms(5)]) blast
    have run1: "host_run cu b V E su H1" by (rule host_poll [OF Cons.prems j(1) H1(1)])
    obtain H' where H': "poll_round k cu b V E tasks H1 = Some H'" "host_run cu b V E su H'" "to_come T H' \<le> to_come T H1"
      "tasks_of H' \<subseteq> tasks_of H1"
      "(\<exists>st \<in> set (ho_modules H1). ms_swap_path st \<in> set tasks \<and> may_run (share H1 st)) \<longrightarrow> to_come T H' < to_come T H1"
      using Cons.IH [OF run1] by blast
    have "to_come T H' < to_come T H"
      if st: "st \<in> set ?ms" "ms_swap_path st \<in> set (task # tasks)" "may_run (share H st)" "\<not> may_run (share H (?ms ! j))" for st
    proof -
      have "st \<noteq> ?ms ! j" using st(3,4) by auto
      moreover have "distinct (map ms_swap_path ?ms)" using host_run_inv [OF Cons.prems assms(1)] by (simp add: host_inv_def)
      ultimately have "ms_swap_path st \<noteq> task" using st(1) j by (auto simp: distinct_map inj_on_def)
      then have "ms_swap_path st \<in> set tasks" "st \<in> set (ho_modules H1)" "may_run (share H1 st)"
        using st H1(5) \<open>st \<noteq> ?ms ! j\<close> by (auto simp: may_run_def)
      then show ?thesis using H'(5) H1(2) by fastforce
    qed
    then show ?thesis using H' H1(1-4) Some by (fastforce simp: poll_task_def)
  qed
qed auto

text \<open>Some module always may run: either one has its instance in memory, or the pool is full.\<close>

lemma some_may_run:
  assumes "host_inv cu V su H" "ho_modules H \<noteq> []"
  obtains st where "st \<in> set (ho_modules H)" "may_run (share H st)"
proof (cases "ho_permits H = 0")
  case True
  then have "all_instances H \<noteq> 0" using assms(1) by (auto simp: host_inv_def POOL_SIZE_def split: if_splits)
  then obtain st where "st \<in> set (ho_modules H)" "instances st \<noteq> 0" by (auto simp: all_instances_def)
  then show thesis using that by (auto simp: may_run_def)
next
  case False
  then show thesis using that [of "hd (ho_modules H)"] assms(2) by (simp add: may_run_def)
qed

lemma rounds_get_on:
  assumes "engine_ok V" "all_limited V E W N D" "\<forall>m\<ge>T. due D (he_sched E m)" "host_run cu b V E su H" "W * N < k"
    "\<And>m. tasks_of H \<subseteq> set (rounds m)"
  shows "\<exists>H'. poll_rounds k cu b V E rounds m H = Some H' \<and> host_run cu b V E su H' \<and> tasks_of H' \<subseteq> tasks_of H \<and>
    (ho_modules H' = [] \<or> to_come T H' + m \<le> to_come T H)"
proof (induction m)
  case 0
  then show ?case using assms(4) by simp
next
  case (Suc m)
  then obtain H1 where H1: "poll_rounds k cu b V E rounds m H = Some H1" "host_run cu b V E su H1" "tasks_of H1 \<subseteq> tasks_of H"
    "ho_modules H1 = [] \<or> to_come T H1 + m \<le> to_come T H" by blast
  obtain H' where H': "poll_round k cu b V E (rounds m) H1 = Some H'" "host_run cu b V E su H'" "tasks_of H' \<subseteq> tasks_of H1"
    "(\<exists>st \<in> set (ho_modules H1). ms_swap_path st \<in> set (rounds m) \<and> may_run (share H1 st)) \<longrightarrow> to_come T H' < to_come T H1"
    using round_gets_on [OF assms(1-3) H1(2) assms(5), of "rounds m"] by blast
  have "ho_modules H' = [] \<or> to_come T H' + Suc m \<le> to_come T H"
  proof (cases "ho_modules H1 = []")
    case True
    then show ?thesis using H'(3) by (simp add: tasks_of_def)
  next
    case False
    obtain st where "st \<in> set (ho_modules H1)" "may_run (share H1 st)"
      by (rule some_may_run [OF host_run_inv [OF H1(2) assms(1)] False])
    moreover from this have "ms_swap_path st \<in> set (rounds m)" using H1(3) assms(6) [of m] by (auto simp: tasks_of_def)
    ultimately show ?thesis using H'(4) H1(4) False by fastforce
  qed
  then show ?case using H1(1,3) H' by auto
qed

end
