(* ===== verification/Wired_Spec.thy ===== *)
theory Wired_Spec
  imports Wired Link_Spec Settle
begin

text \<open>
  The host and all of its controllers: at any time, a controller awaits what it has asked for and
  has not been given yet, also while it is on the disk.
\<close>

section \<open>In every module\<close>

lemma wired_new:
  fixes E :: "'req host_env"
  assumes "good_controllers V view alloc run N"
  shows "wired V view E ((module_new E (controller_ctx_new i) path swap q files)
    \<lparr>ms_wasm_work := Some (Fresh Start), ms_uninstantiating := False\<rparr>)"
proof -
  have "awaits (view vm) ([] :: (u64 \<times> 'req request_value) list) []" if "vm_load V path = Some vm" for vm
  proof -
    have "view vm = guest_new" using awaits_requestsD(1) [of V view run, OF _ that] assms by (simp add: good_controllers_def)
    then show ?thesis using guest_wf_new by (simp add: awaits_def awaited_def) (simp add: guest_new_def)
  qed
  then have "wired_as view E (controller_ctx_new i) (brought V path Not_Started) runner_new []" unfolding wired_as_def
    by (intro exI [of _ "[]"] exI [of _ "[]"]) (simp add: run_new ids_below_def brought_def)
  then show ?thesis by (simp add: wired_def content_of_def handed_def handed_by_def module_new_eq)
qed

lemma wired_shared:
  assumes "wired V view E st" "files (ms_swap_path st) = ms_files st (ms_swap_path st)"
  shows "wired V view E (st\<lparr>ms_permits := q, ms_files := files\<rparr>)"
proof -
  have "content_of (st\<lparr>ms_permits := q, ms_files := files\<rparr>) = content_of st"
    using assms(2) by (cases "ms_inner st"; cases "ms_wasm_work st") (simp_all add: content_of_def split: wasm_work.split)
  then show ?thesis using assms(1) by (simp add: wired_def handed_def)
qed

interpretation wires: loop_law "\<lambda>st. good_controllers V view alloc run N \<longrightarrow> bodies_within E \<longrightarrow> wired V view E st" cu b V E
  for V view alloc run N E cu b
  by unfold_locales (blast intro: wired_new wired_shared poll_unpin_wired resolve_wired rest_wired)+

text \<open>C5: Whatever the host does, starting modules and polling them in any order, swapping controllers out and
  bringing them back: every controller awaits exactly the identifiers of the requests it has
  made whose last result it has not been given, wherever it is, not yet started, in memory or
  on the disk. A result that was collected for it and is about to be handed over, also one for which the controller must
  first be brought back, has an identifier that it awaits, so that its table never fails to
  find it. This holds of controllers that await each request they make, as those
  built with the guest runtime do, and keep their table where a snapshot finds it.\<close>

theorem controllers_stay_wired:
  assumes "good_controllers V view alloc run N" "bodies_within E" "host_run cu b V E su H" "st \<in> set (ho_modules H)"
  shows "\<exists>reqs out cx c. content_of (share H st) = Some (cx, c) \<and> runner_run E reqs (out @ handed st) (ms_runner st) \<and>
    (\<forall>vm. brought V (ms_wasm_path st) c vm \<longrightarrow> guest_wf (view vm) \<and>
       (\<forall>i. gu_pending (view vm) i \<noteq> None \<longleftrightarrow> awaited reqs out i) \<and>
       (\<forall>r \<in> set (handed st). gu_pending (view vm) (ar_id r) \<noteq> None))"
proof -
  have V: "engine_ok V" using assms(1) by (simp add: good_controllers_def)
  have "wired V view E (share H st)" using wires.every_module [OF assms(3) V assms(4)] assms(1,2) by blast
  then obtain cx c reqs out where w: "content_of (share H st) = Some (cx, c)" "runner_run E reqs (out @ handed st) (ms_runner st)"
    "\<And>vm. brought V (ms_wasm_path st) c vm \<Longrightarrow> awaits (view vm) reqs out"
    by (auto simp: wired_def wired_as_def share_def handed_def)
  have "awaited reqs out (ar_id r)" if "r \<in> set (handed st)" for r
  proof -
    have "handed st = [r]" using that by (cases "ms_wasm_work st") (auto simp: handed_def handed_by_def split: work.splits)
    then show ?thesis using last_awaited(1) w(2) by simp
  qed
  then show ?thesis using w by (intro exI [of _ reqs] exI [of _ out] exI [of _ cx] exI [of _ c]) (auto simp: awaits_def)
qed

text \<open>An instance whose table is in a global, of a controller that asks for a delay, three times at most.\<close>

definition wired_memory :: "u8 list \<times> guest \<Rightarrow> u8 list" where
  "wired_memory vm = (if WASM_PAGE_SIZE dvd length (fst vm) then fst vm else [])"

definition wired_tasks :: "u64 \<Rightarrow> u8 list \<times> guest \<Rightarrow> guest \<Rightarrow> ((u8 list \<times> guest) \<times> guest_call list) outcome" where
  "wired_tasks j vm G = Ok (if unat j < 3 then ((fst vm, snd (start_async j G)), [Call_Delay 5]) else ((fst vm, G), []))"

definition wired_engine :: "(u8 list \<times> guest, guest) vm_ops" where
  "wired_engine = \<lparr>
     vm_load = (\<lambda>_. Some ([], guest_new)),
     vm_exports_memory = (\<lambda>_. True),
     vm_memory = wired_memory,
     vm_put_memory = (\<lambda>mem vm. (mem, snd vm)),
     vm_grow = (\<lambda>n vm. Some (wired_memory vm @ replicate (n * WASM_PAGE_SIZE) 0, snd vm)),
     vm_globals = (\<lambda>vm. [(''tables'', True, snd vm)]),
     vm_set_global = (\<lambda>name v vm. if name = ''tables'' then Some (fst vm, v) else None),
     vm_start = (\<lambda>i vm. case guest_main (wired_tasks i vm) 0 (snd vm) of Ok r \<Rightarrow> Some r | _ \<Rightarrow> None),
     vm_allocate = (\<lambda>n i vm. map_option (\<lambda>(ptr, mem). (ptr, (mem, snd vm), [])) (guest_allocate demo_alloc n (wired_memory vm))),
     vm_wakeup = (\<lambda>i finished ptr len j vm. case guest_wakeup (wired_tasks j vm) i finished
        (vec_from_raw_parts (wired_memory vm) ptr len) (snd vm) of Ok r \<Rightarrow> Some r | _ \<Rightarrow> None)\<rparr>"

definition wired_env :: "unit host_env" where
  "wired_env = demo_host_env\<lparr>he_sched := \<lambda>n. []\<rparr>"

lemma wired_allocate: "guest_allocate demo_alloc n mem = Some (ptr, mem') \<Longrightarrow> mem' = mem"
  by (auto simp: guest_allocate_def demo_alloc_def split: if_splits)

lemma wired_tasks_run:
  assumes "wired_tasks j vm G = Ok (vm', cs)"
  shows "fst vm' = fst vm" "guest_runs j (length cs) G (snd vm')" "length cs \<le> 3 - unat j"
proof -
  have "guest_runs j 1 G (snd (start_async j G))"
    using runs_request [OF surjective_pairing runs_done] by simp
  then show "fst vm' = fst vm" "guest_runs j (length cs) G (snd vm')" "length cs \<le> 3 - unat j"
    using assms by (auto simp: wired_tasks_def intro: runs_done split: if_splits)
qed

lemma wired_main:
  assumes "guest_main (wired_tasks j vm) k G = Ok (vm', cs)"
  shows "fst vm' = fst vm \<and> guest_runs j (length cs) G (snd vm') \<and> length cs \<le> 3 - unat j"
proof -
  have "wired_tasks j vm (G\<lparr>gu_woken := gu_woken G @ [k], gu_spawner := True\<rparr>) = Ok (vm', cs)"
    using assms by (cases G) (simp add: guest_main_def get_mut_executor_def)
  from wired_tasks_run [OF this] show ?thesis by (auto intro: runs_tasks)
qed

lemma wired_wakeup: "guest_wakeup (wired_tasks j vm) i finished val G = Ok (vm', cs) \<Longrightarrow>
    fst vm' = fst vm \<and> length cs \<le> 3 - unat j"
  by (auto simp: guest_wakeup_def wired_tasks_def obind_Ok_iff split: if_splits)

lemma wired_engine_ok: "engine_ok wired_engine"
  unfolding engine_ok_def
proof (intro conjI)
  show "engine_memory_ok wired_engine"
    by (auto simp: engine_memory_ok_def wired_engine_def wired_memory_def)
  show "engine_globals_ok wired_engine"
    by (auto simp: engine_globals_ok_def wired_engine_def wired_memory_def assign_def)
  show "engine_calls_ok wired_engine"
    by (auto simp: engine_calls_ok_def keeps_module_def exports_def wired_engine_def wired_memory_def
        dest!: wired_main wired_wakeup wired_allocate split: outcome.splits)
qed

lemma wired_controllers: "good_controllers wired_engine snd demo_alloc wired_tasks 3"
  unfolding good_controllers_def
proof (intro conjI)
  show "engine_ok wired_engine" by (rule wired_engine_ok)
  show "alloc_ok demo_alloc" by (auto simp: alloc_ok_def demo_alloc_def split: if_splits)
  show "requests_within wired_engine 3"
    by (auto simp: requests_within_def wired_engine_def dest!: wired_main wired_wakeup split: outcome.splits)
  show "awaits_requests wired_engine snd wired_tasks" unfolding awaits_requests_def
  proof (intro conjI allI impI)
    show "guest_runs j (length cs) G (snd vm')" if "wired_tasks j vm G = Ok (vm', cs)" for j vm G vm' cs
      by (rule wired_tasks_run(2) [OF that])
  qed (auto simp: wired_engine_def mutable_globals_def dest!: wired_main split: outcome.splits)
  have "take (length bytes) (drop ptr mem) = bytes"
    if "mem = take ptr m @ bytes @ drop (ptr + length bytes) m" "ptr + length bytes \<le> length m" for mem bytes m and ptr :: nat
    using that by simp
  then show "runs_controller wired_engine snd demo_alloc wired_tasks"
    by (auto simp: runs_controller_def wired_engine_def write_memory_def wired_memory_def Let_def dest: wired_allocate split: option.splits if_splits)
qed

lemma wired_bodies: "bodies_within wired_env"
  by (auto simp: bodies_within_def wired_env_def demo_host_env_def request_op_def http_op_def http_stream_op_def delay_op_def
      post_meta_def split: request_value.splits)

text \<open>One poll after the start: it has asked for the delay with the identifier 0.\<close>

lemma wired_polled:
  obtains st vm where "poll_event_loop 1 cu Debug wired_engine wired_env
      ((module_new wired_env (controller_ctx_new 0) path swap (Suc q) files)\<lparr>ms_wasm_work := Some (Fresh Start), ms_uninstantiating := False\<rparr>) =
      Some (Ok Pending, st)"
    "ms_inner st = GotInst \<lparr>cx_async_client_id = 0, cx_request_id_counter = 1\<rparr> vm" "gu_pending (snd vm) 0 = Some 0" "ms_wasm_work st = None"
proof -
  let ?m = "(module_new wired_env (controller_ctx_new 0) path swap (Suc q) files)\<lparr>ms_wasm_work := Some (Fresh Start), ms_uninstantiating := False\<rparr>"
  have "\<exists>st vm. poll_event_loop (Suc 0) cu Debug wired_engine wired_env ?m = Some (Ok Pending, st) \<and>
      ms_inner st = GotInst \<lparr>cx_async_client_id = 0, cx_request_id_counter = 1\<rparr> vm \<and> gu_pending (snd vm) 0 = Some 0 \<and> ms_wasm_work st = None"
    by (simp add: poll_event_loop_def after_resolve_def run_defs loop_defs demo_defs wired_env_def wired_engine_def wired_tasks_def
        guest_main_def get_mut_executor_def start_async_def guest_new_def wake_unpolled_def wake_by_ref_def
        reset_missed_prediction_def maybe_load_def maybe_shut_down_def may_shut_down_def drop_old_sleeps_def num_milliseconds_def
        in_time_before_iff in_time_grace_iff is_inactive_iff days_def Let_def)
  then show thesis using that by auto
qed

lemma wired_started:
  obtains path files where "host_run True Debug wired_engine wired_env demo_setup
      \<lparr>ho_modules = [(module_new wired_env (controller_ctx_new 0) path (swap_file ''/swap'' 0) (Suc 99) files)
          \<lparr>ms_wasm_work := Some (Fresh Start), ms_uninstantiating := False\<rparr>],
        ho_client_id = 1, ho_permits = Suc 99, ho_files = files\<rparr>"
proof -
  have "\<exists>path files. start_module wired_env demo_setup demo_meta (host_new True [''ring.wasm'' \<mapsto> [0, 97]] :: (u8 list \<times> guest, guest) host) =
      (Ok (), \<lparr>ho_modules = [(module_new wired_env (controller_ctx_new 0) path (swap_file ''/swap'' 0) (Suc 99) files)
          \<lparr>ms_wasm_work := Some (Fresh Start), ms_uninstantiating := False\<rparr>],
        ho_client_id = 1, ho_permits = Suc 99, ho_files = files\<rparr>)"
    by (simp add: start_module_def host_new_def demo_setup_def demo_meta_def cache_precompile_def POOL_SIZE_def
        cache_file_def path_join_def act_bind_def act_run new_controller_module_def controller_module_new_def module_new_started Let_def) blast
  then show thesis using that host_start [OF host_fresh] by (fastforce simp: host_new_def)
qed

theorem controllers_stay_wired_witness:
  "\<exists>H st cx vm reqs out. host_run True Debug wired_engine wired_env demo_setup H \<and> ho_modules H = [st] \<and>
    ms_inner st = GotInst cx vm \<and> gu_pending (snd vm) 0 = Some 0 \<and> runner_run wired_env reqs out (ms_runner st) \<and> awaited reqs out 0"
proof -
  obtain path files where 1: "host_run True Debug wired_engine wired_env demo_setup
      \<lparr>ho_modules = [(module_new wired_env (controller_ctx_new 0) path (swap_file ''/swap'' 0) (Suc 99) files)
          \<lparr>ms_wasm_work := Some (Fresh Start), ms_uninstantiating := False\<rparr>],
        ho_client_id = 1, ho_permits = Suc 99, ho_files = files\<rparr>"
    by (rule wired_started)
  define m :: "(u8 list \<times> guest, guest) module_state" where
    "m = (module_new wired_env (controller_ctx_new 0) path (swap_file ''/swap'' 0) (Suc 99) files)
      \<lparr>ms_wasm_work := Some (Fresh Start), ms_uninstantiating := False\<rparr>"
  define H where "H = \<lparr>ho_modules = [m], ho_client_id = 1, ho_permits = Suc 99, ho_files = files\<rparr>"
  obtain st vm where 2: "poll_event_loop 1 True Debug wired_engine wired_env m = Some (Ok Pending, st)"
    "ms_inner st = GotInst \<lparr>cx_async_client_id = 0, cx_request_id_counter = 1\<rparr> vm" "gu_pending (snd vm) 0 = Some 0" "ms_wasm_work st = None"
    unfolding m_def by (rule wired_polled)
  have s: "share H m = m" by (simp add: share_def H_def m_def module_new_eq)
  let ?H' = "H\<lparr>ho_modules := [st], ho_permits := ms_permits st, ho_files := ms_files st\<rparr>"
  have "ho_modules H ! 0 = m" "(ho_modules H)[0 := st] = [st]" by (simp_all add: H_def)
  then have "poll_module 1 True Debug wired_engine wired_env 0 H = Some ?H'"
    using 2(1) s by (simp only: poll_module_def option.case prod.case outcome.case poll.case)
  then have 3: "host_run True Debug wired_engine wired_env demo_setup ?H'"
    using host_poll [OF 1 [folded m_def, folded H_def], of 0] by (simp add: H_def)
  have c: "content_of (share ?H' st) = Some (\<lparr>cx_async_client_id = 0, cx_request_id_counter = 1\<rparr>, Instance vm)" "handed st = []"
    using 2(2,4) by (simp_all add: content_of_def share_def handed_def)
  have "st \<in> set (ho_modules ?H')" by simp
  from controllers_stay_wired [OF wired_controllers wired_bodies 3 this]
  obtain reqs out cx c where w: "content_of (share ?H' st) = Some (cx, c)" "runner_run wired_env reqs (out @ handed st) (ms_runner st)"
    "brought wired_engine (ms_wasm_path st) c vm \<Longrightarrow> gu_pending (snd vm) 0 \<noteq> None \<longleftrightarrow> awaited reqs out 0"
    by blast
  then have "runner_run wired_env reqs out (ms_runner st) \<and> awaited reqs out 0" using c 2(3) by (auto simp: brought_Instance)
  moreover have "ho_modules ?H' = [st]" by simp
  ultimately show ?thesis using 2(2,3) 3 by blast
qed

section \<open>The host comes to rest\<close>

text \<open>C6: A host comes to rest. From any state that it can be in, let its modules be polled in rounds, in any order, each of
  them at least once a round, where each makes at most \<open>N\<close> requests in its life with at most \<open>W\<close> results each, and
  let the operations be over from some time on. Then a turn bound of more than \<open>W * N\<close> is enough for every poll, and after as many rounds as stated
  every task has ended, by itself or with an error, and all permits of the pool are back, although a module may have to wait for
  a permit that another holds: in every round some module has an instance or gets one, and gets
  on, so that the pool never locks up.\<close>

theorem host_comes_to_rest:
  assumes "engine_ok V" "all_limited V E W N D" "\<forall>m\<ge>T. due D (he_sched E m)" "host_run cu b V E su H"
    "W * N < k" "\<forall>m. tasks_of H \<subseteq> set (rounds m)" "length (ho_modules H) * Suc T \<le> m"
  shows "\<exists>H'. poll_rounds k cu b V E rounds m H = Some H' \<and> ho_modules H' = [] \<and> ho_permits H' = POOL_SIZE cu"
proof -
  obtain H' where H': "poll_rounds k cu b V E rounds m H = Some H'" "host_run cu b V E su H'"
    "ho_modules H' = [] \<or> to_come T H' + m \<le> to_come T H"
    using rounds_get_on [OF assms(1-5), of rounds m] assms(6) by blast
  have "ho_modules H' = []"
  proof (rule ccontr)
    assume "ho_modules H' \<noteq> []"
    then have "0 < to_come T H'" by (cases "ho_modules H'") (simp_all add: to_come_def)
    then show False using H'(3) \<open>ho_modules H' \<noteq> []\<close> to_come_bound [of T H] assms(7) by simp
  qed
  then show ?thesis using H'(1) host_run_inv [OF H'(2) assms(1)] by (auto simp: host_inv_def all_instances_def)
qed

text \<open>Nothing is over before the tenth call to the surroundings, then everything is.\<close>

definition late_env :: "unit host_env" where
  "late_env = demo_host_env\<lparr>he_sched := \<lambda>n. if n < 10 then [] else [(0, 5)]\<rparr>"

lemma late_limited: "all_limited quiet_engine late_env 4 1 5"
  unfolding all_limited_def
proof (intro conjI)
  show "results_within late_env 4"
    by (simp add: results_within_def request_op_def late_env_def demo_host_env_def http_op_def http_stream_op_def delay_op_def
        post_meta_def split: request_value.splits)
  show "waits_within late_env 5"
    by (simp add: waits_within_def request_op_def late_env_def demo_host_env_def http_op_def http_stream_op_def delay_op_def
        post_meta_def split: request_value.splits)
  show "requests_within quiet_engine 1"
    by (auto simp: requests_within_def quiet_engine_def demo_engine_def split: if_splits)
qed

theorem host_comes_to_rest_witness:
  "\<exists>H H' :: (demo_vm, nat) host. length (ho_modules H) = 1 \<and> ho_modules H' = [] \<and> ho_permits H' = 100 \<and>
    poll_rounds 5 True Debug quiet_engine late_env (\<lambda>m. map ms_swap_path (ho_modules H)) 11 H = Some H'"
proof -
  obtain H :: "(demo_vm, nat) host" where H: "length (ho_modules H) = 1" "host_run True Debug quiet_engine late_env demo_setup H"
    by (rule demo_host_run)
  have "\<forall>m\<ge>10. due 5 (he_sched late_env m)" by (auto simp: due_def late_env_def)
  from host_comes_to_rest [OF quiet_engine_ok late_limited this H(2), of 5 "\<lambda>m. map ms_swap_path (ho_modules H)" 11]
  obtain H' where "poll_rounds 5 True Debug quiet_engine late_env (\<lambda>m. map ms_swap_path (ho_modules H)) 11 H = Some H'"
    "ho_modules H' = []" "ho_permits H' = POOL_SIZE True"
    using H(1) by (auto simp: tasks_of_def)
  then show ?thesis using H(1) by (auto simp: POOL_SIZE_def)
qed

end
