(* ===== verification/Startup.thy ===== *)
theory Startup
  imports Host
begin

text \<open>
  How the host starts: the configuration of the engine and the functions its linker offers
  (\<open>Environment::new\<close>, \<open>register_imports\<close>), the loop that starts the modules
  (\<open>runtime::start\<close>), and the two tasks of \<open>main\<close>. The engine and its linker are those of wasmtime: what makes
  them is a parameter.
\<close>

section \<open>The configuration of the engine\<close>

text \<open>The limits of an instance that the code sets, and how many there may be.\<close>

record instance_limits =
  il_count :: u32
  il_size :: nat
  il_memory_pages :: u64

datatype opt_level = Opt_None | Opt_Speed | Opt_Speed_And_Size

datatype allocation_strategy = On_Demand | Pooling_Reuse_Affinity instance_limits

record engine_config =
  ec_generate_address_map :: bool
  ec_memory_init_cow :: bool
  ec_cranelift_opt_level :: opt_level
  ec_allocation_strategy :: allocation_strategy

text \<open>\<open>COMPILE_WITH_UNINSTANTIATE\<close>, from the variable of that name when the host is compiled.\<close>

definition compile_with_uninstantiate :: "string \<Rightarrow> bool" where
  "compile_with_uninstantiate env = (env = ''TRUE'')"

definition u64_mul :: "build \<Rightarrow> u64 \<Rightarrow> u64 \<Rightarrow> u64 outcome" where
  "u64_mul b x y = (if b = Debug \<and> 2 ^ 64 \<le> unat x * unat y then Panic Overflow else Ok (x * y))"

text \<open>\<open>Environment::new\<close> up to the engine, from the default configuration and limits.\<close>

definition environment_config :: "build \<Rightarrow> bool \<Rightarrow> instance_limits \<Rightarrow> engine_config \<Rightarrow> engine_config outcome" where
  "environment_config b cu instance_limits config =
     (let config = config\<lparr>ec_generate_address_map := False\<rparr>;
          config = config\<lparr>ec_memory_init_cow := True\<rparr>;
          config = config\<lparr>ec_cranelift_opt_level := Opt_Speed_And_Size\<rparr>;
          instance_limits = instance_limits\<lparr>il_size := 938860800\<rparr>
      in obind (u64_mul b (il_memory_pages instance_limits) 10) (\<lambda>memory_pages.
         let instance_limits = instance_limits\<lparr>il_memory_pages := memory_pages\<rparr> in
         Ok (if cu then config\<lparr>ec_allocation_strategy := Pooling_Reuse_Affinity (instance_limits\<lparr>il_count := of_nat (POOL_SIZE cu)\<rparr>)\<rparr>
             else config)))"

section \<open>The functions of the linker\<close>

datatype host_fn = Abi_Request | Abi_Delay

definition register_imports :: "(string \<Rightarrow> string \<Rightarrow> host_fn \<Rightarrow> 'linker \<Rightarrow> 'linker option) \<Rightarrow> 'linker \<Rightarrow> 'linker outcome" where
  "register_imports func_wrap linker =
     obind (or_err (func_wrap ''http-proxy-abi'' ''request'' Abi_Request linker) Linker_Error) (\<lambda>linker.
     obind (or_err (func_wrap ''http-proxy-abi'' ''request_stream'' Abi_Request linker) Linker_Error) (\<lambda>linker.
     or_err (func_wrap ''delay-abi'' ''delay'' Abi_Delay linker) Linker_Error))"

definition environment_new ::
  "build \<Rightarrow> bool \<Rightarrow> instance_limits \<Rightarrow> engine_config \<Rightarrow> (engine_config \<Rightarrow> 'engine option) \<Rightarrow> ('engine \<Rightarrow> 'linker) \<Rightarrow>
   ('linker \<Rightarrow> 'linker option) \<Rightarrow> (string \<Rightarrow> string \<Rightarrow> host_fn \<Rightarrow> 'linker \<Rightarrow> 'linker option) \<Rightarrow> ('engine \<times> 'linker) outcome" where
  "environment_new b cu instance_limits config engine_new linker_new add_to_linker func_wrap =
     obind (environment_config b cu instance_limits config) (\<lambda>config.
     obind (or_err (engine_new config) Engine_Error) (\<lambda>engine.
     obind (or_err (add_to_linker (linker_new engine)) Linker_Error) (\<lambda>linker.
     obind (register_imports func_wrap linker) (\<lambda>linker.
     Ok (engine, linker)))))"

lemma environment_config_Ok:
  assumes "environment_config b cu limits config = Ok c"
  shows "c = config\<lparr>ec_generate_address_map := False, ec_memory_init_cow := True, ec_cranelift_opt_level := Opt_Speed_And_Size,
      ec_allocation_strategy := if cu then Pooling_Reuse_Affinity
        \<lparr>il_count = of_nat (POOL_SIZE cu), il_size = 938860800, il_memory_pages = il_memory_pages limits * 10\<rparr>
        else ec_allocation_strategy config\<rparr>"
    and "b = Debug \<Longrightarrow> unat (il_memory_pages limits) * 10 < 2 ^ 64"
  using assms by (auto simp: environment_config_def u64_mul_def Let_def split: if_splits)

section \<open>Starting the modules\<close>

text \<open>
  The commands are taken from the channel in order. \<open>buffer_unordered\<close> polls the future of
  each as it comes, and as none of them waits for anything, each is done in that poll. A panic ends the
  loop, and with it the task that runs \<open>start\<close>; the host that is left has the modules started
  so far.
\<close>

fun start_commands :: "'req host_env \<Rightarrow> host_setup \<Rightarrow> metadata list \<Rightarrow> (('vm, 'val) host, unit) action" where
  "start_commands E su [] H = act_return () H"
| "start_commands E su (meta # receiver) H = act_bind (start_module E su meta) (\<lambda>_. start_commands E su receiver) H"

definition runtime_start ::
  "'env outcome \<Rightarrow> bool \<Rightarrow> 'req host_env \<Rightarrow> host_setup \<Rightarrow> files \<Rightarrow> metadata list \<Rightarrow> unit outcome \<times> ('vm, 'val) host" where
  "runtime_start environment cu E su files receiver =
     act_bind (act_lift environment) (\<lambda>_. start_commands E su receiver) (host_new cu files)"

text \<open>
  The beginning of \<open>main\<close>: the levels of logging are put into the environment, before logging is set
  up from it, and the runtime of tokio is built. Both are libraries, and a failure of either is a panic.
\<close>

definition RUST_LOG :: string where
  "RUST_LOG = ''debug,tower=warn,rustls=warn,wasmtime_cranelift=warn,cranelift=warn,regalloc=warn,hyper=warn''"

definition main_setup :: "((string \<Rightarrow> string option) \<Rightarrow> bool) \<Rightarrow> 'runtime option \<Rightarrow> (string \<Rightarrow> string option) \<Rightarrow>
    ('runtime \<times> (string \<Rightarrow> string option)) outcome" where
  "main_setup subscriber_init runtime_build vars =
     (let vars = vars(''RUST_LOG'' \<mapsto> RUST_LOG)
      in obind (ensure (subscriber_init vars) Expect_Failed) (\<lambda>_.
         obind (or_panic runtime_build Expect_Failed) (\<lambda>runtime. Ok (runtime, vars))))"

text \<open>
  The end of \<open>main\<close>: one task starts the runtime, another sends it the modules, and \<open>main\<close> waits
  for an interrupt. The outcome of the first task is not looked at: it is a value, here that of \<open>runtime_start\<close>, and the
  process goes on with the modules that were started, whatever it is.
\<close>

definition host_main ::
  "('service \<times> string \<times> string \<times> metadata list) outcome \<Rightarrow> ('service \<Rightarrow> string \<Rightarrow> string \<Rightarrow> metadata list \<Rightarrow> 'task) \<Rightarrow>
   'task outcome" where
  "host_main configured start =
     obind configured (\<lambda>(service, cache_path, swap_path, mods). Ok (start service cache_path swap_path mods))"

text \<open>\<open>main\<close> as a whole, with the wait for an interrupt after which the process ends.\<close>

definition host_process ::
  "((string \<Rightarrow> string option) \<Rightarrow> bool) \<Rightarrow> 'runtime option \<Rightarrow> (string \<Rightarrow> string option) \<Rightarrow>
   ('service \<times> string \<times> string \<times> metadata list) outcome \<Rightarrow> ('service \<Rightarrow> string \<Rightarrow> string \<Rightarrow> metadata list \<Rightarrow> 'task) \<Rightarrow>
   bool \<Rightarrow> 'task outcome" where
  "host_process subscriber_init runtime_build vars configured start ctrl_c =
     obind (main_setup subscriber_init runtime_build vars) (\<lambda>_.
     obind (host_main configured start) (\<lambda>task.
     obind (ensure ctrl_c Unwrap_None) (\<lambda>_. Ok task)))"

lemma host_process_Ok:
  "host_process subscriber_init runtime_build vars configured start ctrl_c = Ok task \<longleftrightarrow>
     subscriber_init (vars(''RUST_LOG'' \<mapsto> RUST_LOG)) \<and> runtime_build \<noteq> None \<and> ctrl_c \<and>
     (\<exists>service cache_path swap_path mods. configured = Ok (service, cache_path, swap_path, mods) \<and> task = start service cache_path swap_path mods)"
  by (auto simp: host_process_def main_setup_def host_main_def obind_Ok_iff ensure_def or_panic_def Let_def split: option.splits)

text \<open>What is there stays there.\<close>

lemma cache_precompile_mono:
  assumes "cache_precompile hash pc write_ok torn wasm_path dir files = (r, files')"
  shows "files \<subseteq>\<^sub>m files'"
  using assms by (rule cache_precompile_cases) (auto simp: map_le_def)

text \<open>A module that has been started: compiled, and with its first work set.\<close>

definition started_as :: "host_setup \<Rightarrow> files \<Rightarrow> u64 \<Rightarrow> metadata \<Rightarrow> ('vm, 'val) module_state \<Rightarrow> bool" where
  "started_as su files i meta st \<longleftrightarrow>
     (\<exists>bytes compiled. files (md_wasm meta) = Some bytes \<and> su_precompile su bytes = Some compiled \<and>
        ms_wasm_path st = cache_file (su_hash su) (su_cache_path su) bytes \<and> files (ms_wasm_path st) = Some compiled) \<and>
     ms_swap_path st = swap_file (su_swap_path su) i \<and> ms_inner st = NotInst (controller_ctx_new i) \<and>
     ms_wasm_work st = Some (Fresh Start)"

lemma started_as_mono: "started_as su files i meta st \<Longrightarrow> files \<subseteq>\<^sub>m files' \<Longrightarrow> started_as su files' i meta st"
  unfolding started_as_def map_le_def by (metis domI)

text \<open>
  Why a module is not started: its file cannot be read, compiled or written to the cache, its context is
  refused, or the client of the prediction server cannot be made.
\<close>

definition not_started :: "host_setup \<Rightarrow> files \<Rightarrow> metadata \<Rightarrow> fault \<Rightarrow> bool" where
  "not_started su files meta p \<longleftrightarrow>
     p = Expect_Failed \<and> (case files (md_wasm meta) of
         None \<Rightarrow> True
       | Some bytes \<Rightarrow> su_precompile su bytes = None \<or> \<not> su_write_ok su (cache_file (su_hash su) (su_cache_path su) bytes) \<or>
           \<not> su_wasi_ok su (map (\<lambda>e. (ev_name e, ev_value e)) (md_env meta)) (md_args meta)) \<or>
     p = Http_Client_Panic \<and> \<not> su_client_ok su"

lemma start_module_started:
  fixes H H' :: "('vm, 'val) host"
  assumes "start_module E su meta H = (r, H')" "cache_ok (su_hash su) (su_precompile su) (su_cache_path su) (ho_files H)" "inj (su_hash su)"
  obtains (started) m :: "('vm, 'val) module_state" and files where
    "r = Ok ()" "H' = H\<lparr>ho_modules := ho_modules H @ [m], ho_client_id := ho_client_id H + 1, ho_files := files\<rparr>"
    "started_as su files (ho_client_id H) meta m" "ho_files H \<subseteq>\<^sub>m files"
    "cache_ok (su_hash su) (su_precompile su) (su_cache_path su) files"
  | (panicked) p where "r = Panic p" "not_started su (ho_files H') meta p" "ho_modules H' = ho_modules H"
    "ho_files H \<subseteq>\<^sub>m ho_files H'"
  using assms(1)
proof (cases rule: start_module_cases)
  case (added path files)
  note mono = cache_precompile_mono [OF added(1)]
  from added(1) assms(2,3) mono have parts: "\<exists>bytes compiled. files (md_wasm meta) = Some bytes \<and> su_precompile su bytes = Some compiled \<and>
      path = cache_file (su_hash su) (su_cache_path su) bytes \<and> files path = Some compiled"
    by (cases rule: cache_precompile_cases) (auto simp: cache_ok_def map_le_def dom_def)
  from added(1) assms(2,3) have ok: "cache_ok (su_hash su) (su_precompile su) (su_cache_path su) files"
    by (cases rule: cache_precompile_cases) (auto simp: cache_ok_def cache_file_inj)
  show thesis by (rule started [OF added(2,3) _ mono ok]) (use parts in \<open>auto simp: started_as_def module_new_eq\<close>)
next
  case (uncached e files)
  from uncached(1) have "not_started su files meta Expect_Failed"
    by (cases rule: cache_precompile_cases) (auto simp: not_started_def)
  then show thesis using panicked [of Expect_Failed] uncached(2,3) cache_precompile_mono [OF uncached(1)] by simp
next
  case (refused path files)
  have "not_started su files meta p" if "r = Panic p" for p
    using refused(2) that by (auto simp: not_started_def split: option.split)
  then show thesis using panicked refused(2,3) cache_precompile_mono [OF refused(1)] by auto
qed

lemma start_commands_started:
  fixes H H' :: "('vm, 'val) host"
  assumes "start_commands E su metas H = (r, H')" "cache_ok (su_hash su) (su_precompile su) (su_cache_path su) (ho_files H)"
    "inj (su_hash su)" "unat (ho_client_id H) + length metas < 2 ^ 64" "host_run cu b V E su H"
  shows "host_run cu b V E su H' \<and> ho_files H \<subseteq>\<^sub>m ho_files H' \<and> ho_permits H' = ho_permits H \<and>
    (\<exists>ms. ho_modules H' = ho_modules H @ ms \<and> length ms \<le> length metas \<and>
       (\<forall>k < length ms. started_as su (ho_files H') (ho_client_id H + of_nat k) (metas ! k) (ms ! k)) \<and>
       (case r of Ok _ \<Rightarrow> length ms = length metas | Err _ \<Rightarrow> False
        | Panic p \<Rightarrow> length ms < length metas \<and> not_started su (ho_files H') (metas ! length ms) p))"
  using assms
proof (induction metas arbitrary: H)
  case Nil
  then show ?case by (auto simp: act_run)
next
  case (Cons meta metas)
  obtain r1 H1 where H1: "start_module E su meta H = (r1, H1)" by (rule prod.exhaust)
  have run: "host_run cu b V E su H1" by (rule host_start [OF Cons.prems(5) _ H1]) (use Cons.prems(4) in simp)
  have permits: "ho_permits H1 = ho_permits H" by (rule start_module_files(2) [OF H1])
  from H1 Cons.prems(2,3) show ?case
  proof (cases rule: start_module_started)
    case (started m files)
    then have rest: "start_commands E su metas H1 = (r, H')" using Cons.prems(1) H1 by (simp add: act_bind_def)
    have id: "unat (ho_client_id H + 1) = unat (ho_client_id H) + 1"
      using Cons.prems(4) unat_add_lem [of "ho_client_id H" 1] by simp
    obtain ms where ih: "host_run cu b V E su H'" "files \<subseteq>\<^sub>m ho_files H'" "ho_permits H' = ho_permits H"
      "ho_modules H' = ho_modules H @ m # ms" "length ms \<le> length metas"
      "\<forall>k < length ms. started_as su (ho_files H') (ho_client_id H + 1 + of_nat k) (metas ! k) (ms ! k)"
      "case r of Ok _ \<Rightarrow> length ms = length metas | Err _ \<Rightarrow> False
        | Panic p \<Rightarrow> length ms < length metas \<and> not_started su (ho_files H') (metas ! length ms) p"
      using Cons.IH [OF rest _ Cons.prems(3) _ run] started(5) Cons.prems(4) id by (auto simp: started(2))
    have "started_as su (ho_files H') (ho_client_id H + of_nat k) ((meta # metas) ! k) ((m # ms) ! k)" if "k < Suc (length ms)" for k
      using that started_as_mono [OF started(3) ih(2)] ih(6) by (cases k) (auto simp: ac_simps)
    then show ?thesis using ih started(4) map_le_trans
      by (intro conjI exI [of _ "m # ms"]) (auto split: outcome.splits)
  next
    case (panicked p)
    then have "r = Panic p" "H' = H1" using Cons.prems(1) H1 by (simp_all add: act_bind_def)
    then show ?thesis using panicked run permits by simp
  qed
qed

end
