(* ===== verification/Startup_Spec.thy ===== *)
theory Startup_Spec
  imports Startup Controller_Spec
begin

text \<open>What the start of the host promises: every module of the list is started, and the engine has room for it.\<close>

text \<open>C17: Starting the modules of a list, in a host that has just been made, with a cache that holds what it
  should and a hash without collisions. The modules are started in the order of the list:
  module \<open>k\<close> has the identifier \<open>k\<close> and a swap file named after it, its first work is to start, and it
  will run the compiled form of the bytes of its own file, which is in the cache; no permit
  is taken, and no file that was there is changed. Either all of them are started, or the task that starts
  them panics at the first that cannot be: its file is not there, does not compile or cannot be written to the
  cache, its context is refused, or the client of the prediction server cannot be made. Then the modules
  before it have been started all the same, and the process goes on with them: the outcome of that task is not looked at.\<close>

theorem all_modules_start:
  fixes V :: "('vm, 'val) vm_ops"
  assumes "inj (su_hash su)" "cache_ok (su_hash su) (su_precompile su) (su_cache_path su) files" "length metas < 2 ^ 64"
    "runtime_start (Ok env) cu E su files metas = (r, H)"
    "main_setup subscriber_init runtime_build vars = Ok setup" "configured = Ok (service, cache_path, swap_path, metas)"
  shows "host_run cu b V E su H \<and> files \<subseteq>\<^sub>m ho_files H \<and> ho_permits H = POOL_SIZE cu \<and>
    length (ho_modules H) \<le> length metas \<and>
    (\<forall>k < length (ho_modules H). let st = ho_modules H ! k in
       ms_swap_path st = swap_file (su_swap_path su) (of_nat k) \<and> ms_inner st = NotInst (controller_ctx_new (of_nat k)) \<and>
       ms_wasm_work st = Some (Fresh Start) \<and>
       (\<exists>bytes compiled. ho_files H (md_wasm (metas ! k)) = Some bytes \<and> su_precompile su bytes = Some compiled \<and>
          ms_wasm_path st = cache_file (su_hash su) (su_cache_path su) bytes \<and> ho_files H (ms_wasm_path st) = Some compiled)) \<and>
    (case r of
       Ok _ \<Rightarrow> length (ho_modules H) = length metas
     | Err _ \<Rightarrow> False
     | Panic p \<Rightarrow> length (ho_modules H) < length metas \<and>
         (let meta = metas ! length (ho_modules H) in
          p = Expect_Failed \<and> (case ho_files H (md_wasm meta) of
              None \<Rightarrow> True
            | Some bytes \<Rightarrow> su_precompile su bytes = None \<or> \<not> su_write_ok su (cache_file (su_hash su) (su_cache_path su) bytes) \<or>
                \<not> su_wasi_ok su (map (\<lambda>e. (ev_name e, ev_value e)) (md_env meta)) (md_args meta)) \<or>
          p = Http_Client_Panic \<and> \<not> su_client_ok su)) \<and>
    host_process subscriber_init runtime_build vars configured (\<lambda>_ _ _ mods. runtime_start (Ok env) cu E su files mods) True = Ok (r, H)"
proof -
  let ?new = "host_new cu files :: ('vm, 'val) host"
  have "ho_client_id ?new = 0" "ho_files ?new = files" "ho_modules ?new = []" "ho_permits ?new = POOL_SIZE cu"
    by (simp_all add: host_new_def)
  moreover have "start_commands E su metas ?new = (r, H)" using assms(4) by (simp add: runtime_start_def act_bind_def act_run)
  ultimately have s: "host_run cu b V E su H" "files \<subseteq>\<^sub>m ho_files H" "ho_permits H = POOL_SIZE cu"
    "length (ho_modules H) \<le> length metas"
    "\<forall>k < length (ho_modules H). started_as su (ho_files H) (of_nat k) (metas ! k) (ho_modules H ! k)"
    "case r of Ok _ \<Rightarrow> length (ho_modules H) = length metas | Err _ \<Rightarrow> False
      | Panic p \<Rightarrow> length (ho_modules H) < length metas \<and> not_started su (ho_files H) (metas ! length (ho_modules H)) p"
    using start_commands_started [of E su metas ?new r H, where cu = cu and b = b and V = V] assms(1-3) host_fresh [of cu b V E su files]
    by auto
  have "host_process subscriber_init runtime_build vars configured (\<lambda>_ _ _ mods. runtime_start (Ok env) cu E su files mods) True = Ok (r, H)"
    using assms(4-6) by (simp add: host_process_def host_main_def)
  with s show ?thesis unfolding started_as_def not_started_def Let_def by blast
qed

text \<open>Three modules, the last of which is not there.\<close>

theorem all_modules_start_witness:
  "\<exists>H :: (demo_vm, nat) host. runtime_start (Ok ()) True demo_host_env (demo_setup\<lparr>su_hash := demo_hash\<rparr>)
      [''a.wasm'' \<mapsto> [97], ''b.wasm'' \<mapsto> [98]]
      [demo_meta\<lparr>md_wasm := ''b.wasm''\<rparr>, demo_meta\<lparr>md_wasm := ''a.wasm''\<rparr>, demo_meta\<lparr>md_wasm := ''c.wasm''\<rparr>] = (Panic Expect_Failed, H) \<and>
    length (ho_modules H) = 2 \<and> ms_swap_path (ho_modules H ! 1) = swap_file ''/swap'' 1 \<and>
    host_run True Debug demo_engine demo_host_env (demo_setup\<lparr>su_hash := demo_hash\<rparr>) H"
proof -
  let ?su = "demo_setup\<lparr>su_hash := demo_hash\<rparr>" and ?files = "[''a.wasm'' \<mapsto> [97], ''b.wasm'' \<mapsto> [98 :: u8]]"
  let ?metas = "[demo_meta\<lparr>md_wasm := ''b.wasm''\<rparr>, demo_meta\<lparr>md_wasm := ''a.wasm''\<rparr>, demo_meta\<lparr>md_wasm := ''c.wasm''\<rparr>]"
  have "\<exists>H :: (demo_vm, nat) host. runtime_start (Ok ()) True demo_host_env ?su ?files ?metas = (Panic Expect_Failed, H) \<and>
      length (ho_modules H) = 2"
    by (simp add: runtime_start_def start_module_def host_new_def demo_setup_def demo_meta_def cache_precompile_def demo_hash_def
        cache_file_def path_join_def act_bind_def act_run new_controller_module_def controller_module_new_def module_new_started Let_def)
  then obtain H :: "(demo_vm, nat) host" where H: "runtime_start (Ok ()) True demo_host_env ?su ?files ?metas = (Panic Expect_Failed, H)"
    "length (ho_modules H) = 2" by blast
  have h: "inj (su_hash ?su)" "cache_ok (su_hash ?su) (su_precompile ?su) (su_cache_path ?su) ?files" "length ?metas < 2 ^ 64"
    using demo_hash_inj by (auto simp: cache_ok_def demo_setup_def cache_file_def path_join_def)
  have m: "main_setup (\<lambda>_. True) (Some ()) (\<lambda>_. None) = Ok ((), [''RUST_LOG'' \<mapsto> RUST_LOG])" by (simp add: main_setup_def)
  from all_modules_start [OF h H(1) m refl, where V = demo_engine and b = Debug and service = "()" and cache_path = "''cache''" and swap_path = "''swap''"] H(2)
  have "host_run True Debug demo_engine demo_host_env ?su H" "ms_swap_path (ho_modules H ! 1) = swap_file (su_swap_path ?su) (of_nat 1)"
    by (auto simp: Let_def)
  then show ?thesis using H by (intro exI [of _ H]) (simp add: demo_setup_def)
qed

text \<open>C31: The pool of the engine has a slot for every instance. If the code is compiled with swapping, the engine
  pre-allocates as many slots as there are permits, and in every state of the host that
  can be reached the instances in memory fit in them; otherwise the engine allocates instances
  on demand. The limit of the memory of an instance is ten times the default, which a debug build only
  accepts when it does not overflow.\<close>

theorem engine_slots_suffice:
  assumes "environment_config b cu limits config = Ok c" "ec_allocation_strategy config = On_Demand"
    "host_run cu b V E su H" "engine_ok V"
  shows "case ec_allocation_strategy c of
      Pooling_Reuse_Affinity l \<Rightarrow> cu \<and> all_instances H \<le> unat (il_count l) \<and>
        unat (il_count l) = ho_permits H + all_instances H \<and>
        il_memory_pages l = 10 * il_memory_pages limits \<and> (b = Debug \<longrightarrow> unat (il_memory_pages l) = 10 * unat (il_memory_pages limits))
    | On_Demand \<Rightarrow> \<not> cu"
proof -
  have h: "ho_permits H + all_instances H = POOL_SIZE cu" using host_run_inv [OF assms(3,4)] by (simp add: host_inv_def)
  note c = environment_config_Ok [OF assms(1)]
  have "unat (of_nat (POOL_SIZE cu) :: u32) = POOL_SIZE cu" by (simp add: POOL_SIZE_def)
  moreover have "unat (il_memory_pages limits * 10) = 10 * unat (il_memory_pages limits)" if "b = Debug"
    using c(2) [OF that] unat_mult_lem [of "il_memory_pages limits" 10] by simp
  ultimately show ?thesis using assms(2) h by (cases cu) (simp_all add: c(1) mult.commute)
qed

theorem engine_slots_suffice_witness:
  "\<exists>l (H :: (demo_vm, nat) host). ec_allocation_strategy (the_ok (environment_config Debug True \<lparr>il_count = 1000, il_size = 1048576, il_memory_pages = 160\<rparr>
      \<lparr>ec_generate_address_map = True, ec_memory_init_cow = True, ec_cranelift_opt_level = Opt_Speed, ec_allocation_strategy = On_Demand\<rparr>)) =
      Pooling_Reuse_Affinity l \<and> length (ho_modules H) = 1 \<and> all_instances H \<le> unat (il_count l) \<and> unat (il_memory_pages l) = 1600"
proof -
  let ?limits = "\<lparr>il_count = 1000, il_size = 1048576, il_memory_pages = 160\<rparr>"
  let ?config = "\<lparr>ec_generate_address_map = True, ec_memory_init_cow = True, ec_cranelift_opt_level = Opt_Speed, ec_allocation_strategy = On_Demand\<rparr>"
  obtain H where H: "length (ho_modules H) = 1" "host_run True Debug demo_engine demo_host_env demo_setup H"
    by (rule demo_host_run)
  obtain c l where c: "environment_config Debug True ?limits ?config = Ok c" "ec_allocation_strategy c = Pooling_Reuse_Affinity l"
    by (simp add: environment_config_def u64_mul_def Let_def)
  from engine_slots_suffice [OF c(1) _ H(2) demo_engine_ok] c H(1) show ?thesis by auto
qed

end
