(* ===== verification/Http_Client.thy ===== *)
theory Http_Client
  imports Http_Data
begin

text \<open>
  The service that sends the requests of all controllers to the cluster (\<open>kube_client/mod.rs\<close>): layers
  around a client, of which the tracing layer and the mapping of bodies are code of the repository. A
  layer of a library, and the client, are parameters. A layer that is added first sees a request first.
\<close>

type_synonym layer = "service \<Rightarrow> service"

text \<open>What the configuration of the cluster gives: a connector, and the layers, some of which may fail to be made.\<close>

record 'connector kube_config =
  kc_rustls_https_connector :: "'connector option"
  kc_base_uri_layer :: layer
  kc_auth_layer :: "layer option option"
  kc_extra_headers_layer :: "layer option"

section \<open>Bodies\<close>

text \<open>
  \<open>poll_data\<close> of a body that is all there yields its chunks one by one, and then its end. \<open>IntoStream\<close> passes
  this on, and a body that wraps the stream is what the stream yields until it ends.
\<close>

fun poll_data :: "'a list \<Rightarrow> 'a option poll \<times> 'a list" where
  "poll_data [] = (Ready None, [])"
| "poll_data (c # cs) = (Ready (Some c), cs)"

datatype 'b body_stream = Into_Stream (is_body: 'b)

definition into_stream :: "'b \<Rightarrow> 'b body_stream" where
  "into_stream body = Into_Stream body"

definition into_stream_poll_next :: "'a list body_stream \<Rightarrow> 'a option poll \<times> 'a list body_stream" where
  "into_stream_poll_next s = (case poll_data (is_body s) of (p, body) \<Rightarrow> (p, Into_Stream body))"

lemma poll_next_shorter: "into_stream_poll_next s = (Ready (Some c), s') \<Longrightarrow> length (is_body s') < length (is_body s)"
  by (cases "is_body s") (auto simp: into_stream_poll_next_def)

function wrap_stream :: "'a list body_stream \<Rightarrow> 'a list" where
  "wrap_stream s = (case into_stream_poll_next s of
     (Ready (Some c), s') \<Rightarrow> c # wrap_stream s'
   | _ \<Rightarrow> [])"
  by pat_completeness auto

termination
  by (relation "measure (\<lambda>s. length (is_body s))") (auto dest: poll_next_shorter [OF sym])

definition wrapper :: "'a list \<Rightarrow> 'a list" where
  "wrapper b = wrap_stream (into_stream b)"

definition map_response_body :: "(u8 list option list \<Rightarrow> u8 list option list) \<Rightarrow> layer" where
  "map_response_body f service req = map_option (\<lambda>resp. resp\<lparr>rs_body := f (rs_body resp)\<rparr>) (service req)"

section \<open>Tracing\<close>

text \<open>The span of a request, with the fields that are recorded.\<close>

record span =
  sp_method :: string
  sp_url :: uri
  sp_otel_name :: string
  sp_otel_kind :: string
  sp_status_code :: "nat option"
  sp_otel_status_code :: "string option"

definition make_span :: "string option \<Rightarrow> u8 list request \<Rightarrow> span" where
  "make_span extension req =
     \<lparr>sp_method = rq_method req, sp_url = rq_uri req, sp_otel_name = (case extension of Some name \<Rightarrow> name | None \<Rightarrow> ''HTTP''),
      sp_otel_kind = ''client'', sp_status_code = None, sp_otel_status_code = None\<rparr>"

definition is_client_error :: "nat \<Rightarrow> bool" where
  "is_client_error status \<longleftrightarrow> 400 \<le> status \<and> status < 500"

definition is_server_error :: "nat \<Rightarrow> bool" where
  "is_server_error status \<longleftrightarrow> 500 \<le> status \<and> status < 600"

definition on_response :: "'body http_response \<Rightarrow> span \<Rightarrow> span" where
  "on_response res sp =
     (let status = rs_status res;
          sp = sp\<lparr>sp_status_code := Some status\<rparr>
      in if is_client_error status \<or> is_server_error status then sp\<lparr>sp_otel_status_code := Some ''ERROR''\<rparr> else sp)"

datatype failure_class = Class_Status_Code nat | Class_Error

definition on_failure :: "failure_class \<Rightarrow> span \<Rightarrow> span" where
  "on_failure ec sp =
     (let sp = sp\<lparr>sp_otel_status_code := Some ''ERROR''\<rparr> in
      case ec of Class_Status_Code status \<Rightarrow> sp\<lparr>sp_status_code := Some status\<rparr> | Class_Error \<Rightarrow> sp)"

text \<open>
  The layer makes a span for a request, and calls \<open>on_response\<close> for each response, and \<open>on_failure\<close> for
  an error of the service, a response with a server error, and a body that fails.
\<close>

definition trace_span :: "string option \<Rightarrow> service \<Rightarrow> u8 list request \<Rightarrow> span" where
  "trace_span extension service req =
     (let sp = make_span extension req in
      case service req of
        None \<Rightarrow> on_failure Class_Error sp
      | Some res \<Rightarrow>
          let sp = on_response res sp;
              sp = (if is_server_error (rs_status res) then on_failure (Class_Status_Code (rs_status res)) sp else sp)
          in if None \<in> set (rs_body res) then on_failure Class_Error sp else sp)"

definition trace_layer :: layer where
  "trace_layer service = service"

section \<open>The service\<close>

definition create_client_service :: "('connector \<Rightarrow> service) \<Rightarrow> layer \<Rightarrow> 'connector kube_config \<Rightarrow> service outcome" where
  "create_client_service client_build decompression kubeconfig =
     obind (or_err (kc_rustls_https_connector kubeconfig) Config_Error) (\<lambda>connector.
     let client = client_build connector in
     obind (or_err (kc_auth_layer kubeconfig) Config_Error) (\<lambda>auth.
     obind (or_err (kc_extra_headers_layer kubeconfig) Config_Error) (\<lambda>extra_headers.
     let service = kc_base_uri_layer kubeconfig (decompression ((case auth of Some l \<Rightarrow> l | None \<Rightarrow> id)
           (extra_headers (trace_layer client))))
     in Ok (map_response_body wrapper service))))"

text \<open>Wrapping the body changes nothing.\<close>

lemma wrapper_id [simp]: "wrapper b = b"
proof -
  have "wrap_stream (Into_Stream b) = b"
    by (induction b) (subst wrap_stream.simps, simp add: into_stream_poll_next_def)+
  then show ?thesis by (simp add: wrapper_def into_stream_def)
qed

lemma map_response_body_wrapper [simp]: "map_response_body wrapper service = service"
  by (rule ext) (simp add: map_response_body_def option.map_ident_strong)

lemma create_client_service_Ok:
  "create_client_service client_build decompression kubeconfig = Ok service \<longleftrightarrow>
   (\<exists>connector auth extra_headers. kc_rustls_https_connector kubeconfig = Some connector \<and> kc_auth_layer kubeconfig = Some auth \<and>
      kc_extra_headers_layer kubeconfig = Some extra_headers \<and>
      service = kc_base_uri_layer kubeconfig (decompression ((case auth of Some l \<Rightarrow> l | None \<Rightarrow> id) (extra_headers (client_build connector)))))"
  by (auto simp: create_client_service_def obind_Ok_iff Let_def trace_layer_def)

text \<open>
  A span ends as an error exactly when the service failed, the status is one of an error, or the body
  failed; and it has the status of the response, if there is one.
\<close>

lemma trace_span_correct:
  "sp_otel_status_code (trace_span x service req) =
     (if case service req of None \<Rightarrow> True | Some res \<Rightarrow> 400 \<le> rs_status res \<and> rs_status res < 600 \<or> None \<in> set (rs_body res)
      then Some ''ERROR'' else None)"
  "sp_status_code (trace_span x service req) = map_option rs_status (service req)"
  by (auto simp: trace_span_def make_span_def on_response_def on_failure_def is_client_error_def is_server_error_def Let_def
      split: option.splits)

end
