(* ===== verification/Unit_Tests.thy ===== *)
theory Unit_Tests
  imports Wheel
begin

text \<open>
  The unit tests of \<open>wheel/mod.rs\<close> and \<open>wheel/level.rs\<close>, run on the model: each loop is a bounded
  quantifier, each \<open>assert_eq!\<close> an equation, and the numbers fit in 32 bits.
\<close>

definition test_level_for :: bool where
  "test_level_for \<longleftrightarrow>
     (\<forall>pos \<in> set [0..<64]. 0 = level_for 0 (of_nat pos)) \<and>
     (\<forall>l \<in> set [1..<5]. \<forall>pos \<in> set [l..<64].
        let a = pos * 64 ^ l in
          l = level_for 0 (of_nat a) \<and>
          (l < pos \<longrightarrow> (let a = a - 1 in l = level_for 0 (of_nat a))) \<and>
          (pos < 64 \<longrightarrow> (let a = a + 1 in l = level_for 0 (of_nat a))))"

definition test_slot_for :: bool where
  "test_slot_for \<longleftrightarrow>
     (\<forall>pos \<in> set [0..<64]. pos = slot_for (of_nat pos) 0) \<and>
     (\<forall>l \<in> set [1..<5]. \<forall>pos \<in> set [l..<64]. let a = pos * 64 ^ l in pos = slot_for (of_nat a) l)"

lemma level_for_from_zero:
  assumes "64 ^ l \<le> a" "a < 64 ^ Suc l" "a < 2 ^ 64"
  shows "level_for 0 (of_nat a) = l"
proof -
  have u: "unat (of_nat a :: u64) = a" using assms(3) by (simp add: unat_of_nat take_bit_nat_eq_self)
  have "level_for 0 (of_nat a) \<le> l" unfolding level_for_le_iff u using assms(2) by simp
  moreover have "\<not> level_for 0 (of_nat a) \<le> k" if "k < l" for k
  proof -
    have "64 ^ Suc k \<le> (64 :: nat) ^ l" using that by (intro power_increasing) auto
    then have "0 < a div 64 ^ Suc k" using assms(1) by (simp add: div_greater_zero_iff)
    then show ?thesis unfolding level_for_le_iff u by simp
  qed
  ultimately show ?thesis by (meson leI le_antisym nat_less_le)
qed

lemma test_level_for_passes: "test_level_for"
proof -
  have low: "0 = level_for 0 (of_nat pos)" if "pos < 64" for pos
  proof (cases "pos = 0")
    case True
    then have "level_for 0 (of_nat pos) \<le> 0" unfolding level_for_le_iff by simp
    then show ?thesis by simp
  qed (use level_for_from_zero [of 0 pos] that in simp)
  have on_level: "level_for 0 (of_nat a) = l" if "l < 5" "64 ^ l \<le> a" "a < 64 ^ Suc l" for l a
  proof (rule level_for_from_zero)
    have "(64 :: nat) ^ Suc l \<le> 64 ^ 5" using that(1) by (intro power_increasing) auto
    then show "a < 2 ^ 64" using that(3) by simp
  qed (use that in auto)
  have edges: "l = level_for 0 (of_nat (pos * 64 ^ l)) \<and> (l < pos \<longrightarrow> l = level_for 0 (of_nat (pos * 64 ^ l - 1))) \<and>
      l = level_for 0 (of_nat (pos * 64 ^ l + 1))" if "1 \<le> l" "l < 5" "l \<le> pos" "pos < 64" for l pos :: nat
  proof -
    let ?p = "(64 :: nat) ^ l"
    have p: "64 \<le> ?p" using that(1) self_le_power [of "64 :: nat" l] by simp
    have "1 * ?p \<le> pos * ?p" using that by (intro mult_le_mono1) simp
    moreover have "2 * ?p \<le> pos * ?p" if "l < pos" using that \<open>1 \<le> l\<close> by (intro mult_le_mono1) simp
    moreover have "pos * ?p \<le> 63 * ?p" using that(4) by (intro mult_le_mono1) simp
    moreover have "64 ^ Suc l = 64 * ?p" by simp
    ultimately have "?p \<le> pos * ?p" "l < pos \<longrightarrow> ?p \<le> pos * ?p - 1" "?p \<le> pos * ?p + 1"
      "pos * ?p + 1 < 64 ^ Suc l" "pos * ?p - 1 < 64 ^ Suc l" "pos * ?p < 64 ^ Suc l"
      using p by linarith+
    then show ?thesis using on_level [OF that(2)] by (metis (no_types))
  qed
  show ?thesis
    unfolding test_level_for_def Let_def
  proof (intro conjI ballI)
    fix l pos :: nat
    assume "l \<in> set [1..<5]" "pos \<in> set [l..<64]"
    then have "1 \<le> l" "l < 5" "l \<le> pos" "pos < 64" by auto
    from edges [OF this] show "l = level_for 0 (of_nat (pos * 64 ^ l))"
      "l < pos \<longrightarrow> l = level_for 0 (of_nat (pos * 64 ^ l - 1))" "pos < 64 \<longrightarrow> l = level_for 0 (of_nat (pos * 64 ^ l + 1))"
      by blast+
  qed (use low in simp)
qed

lemma test_slot_for_passes: "test_slot_for"
proof -
  have "pos = slot_for (of_nat (pos * 64 ^ l)) l" if "pos < 64" "l < 5" for pos l
  proof -
    have "(64 :: nat) ^ l \<le> 64 ^ 4" using that(2) by (intro power_increasing) auto
    then have "pos * 64 ^ l < 64 * 64 ^ 4" using that(1) by (intro mult_less_le_imp_less) auto
    then have "unat (of_nat (pos * 64 ^ l) :: u64) = pos * 64 ^ l" by (simp add: unat_of_nat take_bit_nat_eq_self del: of_nat_mult)
    then show ?thesis using that(1) by (simp add: slot_for_nat del: of_nat_mult)
  qed
  from this this [of _ 0] show ?thesis unfolding test_slot_for_def Let_def by auto
qed

end
