(* ===== verification/Spec2Isabelle.thy ===== *)
theory Spec2Isabelle
  imports Queue_Spec Timer_Spec Timer_Error Controller_Spec Guest_Spec Reconcile_Spec
    Wired_Spec Startup_Spec Http_Client Controllers Load_Generator Unit_Tests
begin

text \<open>
  Verification of the WebAssembly operator: a host process that runs Kubernetes controllers as
  WebAssembly modules, swaps idle ones out to disk, and brings them back before they are
  needed. Rust is modelled as functions on explicit state; a panic is a value, a future is what
  it still does, and everything outside the repository is a parameter.

  \<^bold>\<open>The parts and how they interact.\<close> A controller (\<open>src/controllers\<close>) is compiled with the guest
  runtime (\<open>src/pkg/kube-runtime-abi\<close>), which turns an HTTP request or a delay into a call of the
  host and a cell that is awaited. The host (\<open>src/pkg/controller\<close>) registers the call under an
  identifier, runs it as an operation, and passes each result back by calling \<open>wakeup\<close> of the
  controller, for which the instance must be in memory. A controller that waits for many
  times uses the delay queue (\<open>src/pkg/wasm-delay-queue\<close>), whose sleeps are delays of the host.

  \<^bold>\<open>Theories and sources.\<close>
  \<^item> \<open>Prelude\<close> (machine integers, panics as values, builds, the text of structs), \<open>Outcome\<close> (the result of a fallible
    function of the host, state-passing actions, and rules for their pre- and postconditions).
  \<^item> The delay queue. \<open>Stack_Trait\<close>: the trait of \<open>wheel/stack.rs\<close> as a record of operations and a
    locale with its contract. \<open>Level\<close>, \<open>Wheel\<close>: \<open>wheel/level.rs\<close> and \<open>wheel/mod.rs\<close>; \<open>Wheel_Inv\<close>
    and \<open>Wheel_Correct\<close> prove them for every stack. \<open>Slab\<close>: the contract of the crate \<open>slab\<close>, with
    an instance. \<open>Slab_Storage\<close>: the storage behind the keys, \<open>Queue_Stack\<close>: the linked list that
    implements the trait, \<open>Delay_Queue\<close>: the operations, all of \<open>delay_queue.rs\<close>. \<open>Time\<close>
    (\<open>instant.rs\<close>, \<open>lib.rs\<close>), \<open>Sleep\<close> (\<open>sleep.rs\<close>, \<open>delay.rs\<close>), \<open>Timer_Error\<close> (\<open>error.rs\<close>),
    \<open>Unit_Tests\<close> (the tests in the files of the wheel).
    \<open>Queue_Inv\<close>, \<open>Queue_Time\<close>, \<open>Queue_Correct\<close>, \<open>Queue_Poll\<close> and \<open>Queue_Runs\<close> hold the invariant, the
    operations over the map of entries, the loop of \<open>poll_idx\<close>, and the states that can be
    reached. \<open>Queue_Spec\<close> and \<open>Timer_Spec\<close> state the properties, \<open>Example\<close> has the data they are
    applied to.
  \<^item> The host. \<open>Ops_Runner\<close>: \<open>abi/abicommand.rs\<close>, \<open>abi/opcall.rs\<close>, \<open>modules/runner.rs\<close>. \<open>Abi\<close>:
    \<open>abi/mod.rs\<close>, \<open>runtime/controller_ctx.rs\<close>. \<open>Wasm_Runtime\<close>: \<open>modules/wasm.rs\<close>. \<open>Event_Loop\<close>:
    \<open>modules/module.rs\<close>. \<open>Environment\<close>: \<open>modules/metadata.rs\<close>, \<open>runtime/environment.rs\<close>, and the middle
    of \<open>main.rs\<close>. \<open>Host\<close>: \<open>runtime/mod.rs\<close>; \<open>Startup\<close>: \<open>Environment::new\<close>, the loop that starts the
    modules, and the rest of \<open>main.rs\<close>. \<open>Http_Data\<close>: \<open>runtime/http_engine\<close> and both copies of \<open>http_data.rs\<close>; \<open>Http_Client\<close>:
    \<open>kube_client/mod.rs\<close>. \<open>Runner_Correct\<close> proves the runner, \<open>Swap\<close> the way of an instance to the disk
    and back, \<open>Module_Inv\<close> the invariant of a module under every step of its event loop; \<open>Host\<close>
    lifts it to all modules, through a locale for any property that a poll of a module keeps. \<open>Module_Steps\<close>
    has the cases of a poll, with the controller wherever it is; \<open>Progress\<close> bounds the turns of a poll with
    them, \<open>Delivery\<close> shows that results arrive. \<open>Loop_Law\<close> has two locales for a property of a module that a
    poll keeps, when every part of its loop does: one over the three parts of a turn, and one that extends it to all
    modules of a host, from which the locale of \<open>Host\<close> follows. \<open>Settle\<close> interprets both on the limits of what
    a controller can still do, and shows that every round of polls gets a host on.
    \<open>Controller_Spec\<close> and \<open>Startup_Spec\<close> state the properties, \<open>Host_Example\<close> has their data.
  \<^item> The guest. \<open>Guest\<close>: \<open>executor.rs\<close>, \<open>requestor.rs\<close>, \<open>error.rs\<close> of \<open>kube-runtime-abi\<close>; \<open>Guest_Spec\<close>
    follows a request from the host's operation to the future that awaits it. \<open>Guest_Inv\<close> has the invariant
    of the controller's table and the runs of a host and its controller together; \<open>Guest_Engine\<close>
    (\<open>memory.rs\<close>) carries a result through the linear memory; \<open>Link_Spec\<close> states what holds between the two.
    \<open>Wired\<close> follows the table of a controller through every step of the host, over the swap file too, and
    \<open>Wired_Spec\<close> states it for all modules of a host, through \<open>Loop_Law\<close> again, and that a host comes to rest.
  \<^item> The controllers. \<open>Reconcile\<close>: the \<open>main.rs\<close> of the ring, comb and simple controllers and of the
    value changer, \<open>Controllers\<close> their settings and runs; \<open>Reconcile_Spec\<close>: what the comb
    and a ring controller have done to the nonces after any sequence of calls, which overlap in the comb. \<open>Load_Generator\<close>: \<open>mongodbSpammer\<close>.

  \<^bold>\<open>State and operations.\<close> A struct is a record with the fields of the source behind a prefix
  (\<open>dq_\<close> for \<open>DelayQueue\<close>, \<open>wh_\<close> for \<open>Wheel\<close>, \<open>lv_\<close> for \<open>Level\<close>, \<open>rn_\<close> for \<open>OpsRunner\<close>, \<open>ms_\<close> for
  \<open>ControllerModule\<close> with its \<open>WasmRuntime\<close>, \<open>ho_\<close> for what the modules share), an enum a datatype.
  A function keeps its name, with a prefix where names clash. Operations of the queue return
  \<open>res\<close>, the panic or the value; those of the host are actions, which return an \<open>outcome\<close>
  (value, error, panic) and the state, also when they fail, since a failed work leaves its traces in the module.

  \<^bold>\<open>What the lemmas show.\<close> For the queue: a type invariant (links, levels, slots, flags, the sleep)
  that every operation keeps, a refinement of the wheel to a finite set of entries and of the
  queue to a map from keys to values and times, termination of every loop, and which error each
  operation gives and when. For the host: order and completeness of results, the counts that never
  underflow, the states a module can be in with each pending work, the pool of permits, the
  round trip of memory and globals through the swap file, the start of the modules of a list and what is left when one
  of them cannot be started, a bound on the
  turns of a poll, that every result is handed over when the schedule is fair, and that a host whose
  operations end comes to rest: no module waits forever for a permit. For the guest: its
  table stays well formed, delivery of what the host sends, and when it is lost. For the two together:
  what the host sends is awaited, and arrives byte for byte; in every state of the host, each controller
  awaits exactly what it has asked for and has not been given.

  \<^bold>\<open>Bounds.\<close> The delay queue is compiled for a target with 32-bit \<open>usize\<close>, times are 64-bit words, and
  a debug build panics on overflow while a release build wraps: the build is an argument. The properties of the queue hold in both builds
  at all times: no operation of theirs overflows. Loops of
  the queue are partial functions whose value \<open>None\<close> is not to end; every property that says an
  operation returns has that proved. \<open>collect_loop\<close> ends because each turn that goes on takes an
  operation out of the runner. The loop in which a module resolves its operations need not end, since
  a controller may answer each result with a new request that is ready at once; it has a number of
  turns as its bound, and \<open>None\<close> is a poll that takes more. The properties of a poll hold for every bound; for
  a controller that makes a limited number of requests with a limited number of results each, \<open>Progress\<close>
  computes a bound that is enough, the results that can still come, beyond which the value does not change: with
  at most \<open>N\<close> requests of at most \<open>W\<close> results each, any bound of more than \<open>W * N\<close> turns is enough in every state that a host
  can be in. When all operations are over from the call number \<open>T\<close> to the surroundings on, a host of \<open>M\<close> modules is at rest after
  \<open>M * (T + 1)\<close> rounds, since in each round some module that has an instance, or gets a permit for one, calls the
  surroundings or ends.

  \<^bold>\<open>What is relied on.\<close> The slab (\<open>slab_contract\<close>): a contract that is interpreted on a vector of optional values; that
  compaction does not raise the capacity is all it says of that, and \<open>reserve\<close> may panic, as may the map of keys. The clock and the host of the queue (\<open>env_ok\<close>): the clock does not run backwards and a
  delay is not woken early. The engine (\<open>engine_ok\<close>): memory reads back what was written and grows by
  pages, a global reads back what it was set to, an instance exports what its module does. A controller need not
  export its memory; then the host panics where the code unwraps it. A write to a file that fails leaves
  anything in it. The libraries of futures: a set of futures polls
  those that were woken, in the order of a schedule that is a parameter; a channel is a queue; a
  semaphore hands out its permits. An instance runs the controller compiled into it
  (\<open>runs_controller\<close>), which exports its memory: a call of an exported function does what the function does, and its allocator
  (\<open>alloc_ok\<close>) hands out blocks inside the memory. A run of a controller is the calls it makes into the host, and a
  run that traps is an error. A controller awaits each request it makes (\<open>awaits_requests\<close>), as one that
  uses the guest runtime does, and keeps its table in the memory or the exported globals. The parser of YAML, the hash and the compiler of modules, the
  serialization, the service of the cluster, the prediction server and the API server
  are parameters too; the last finds what is there, a write that succeeds does what it says, and one that fails may have
  been done all the same (\<open>api_ok\<close>). For a host to come to rest, each of its tasks is polled in every round, as a scheduler does that
  forgets none, and the operations are over from some time on; that is a hypothesis about the service, which a
  controller that watches a resource forever does not satisfy. The hypotheses are discharged on concrete functions in the
  theorems whose names end in \<open>_witness\<close>.

  \<^bold>\<open>Not modelled.\<close> Logging, the derived \<open>Debug\<close> output of the structs and the wiring of \<open>tokio\<close> tasks are left
  out, and so is the scheduler's choice of which task runs: a run of the host polls modules in any
  order, each poll as one step, and that is where threads of the host may interleave in smaller ones. A task that is polled too long is made by \<open>tokio\<close> to find
  its channel and its semaphore pending although they are not, and is polled again at once: that budget is left out, so a
  poll of the model may be several of the host. An operation on the service
  yields an answer or fails; the panics of the repository's own code in it, when a URI cannot be rewritten, are
  those of the call that makes it, since that polls it first. The layers of libraries around the HTTP client, the watch of a controller and the driver of MongoDB
  are parameters; that a library makes no two calls of a controller on the same resource at a time is a part of the
  model of the comb, and the calls of a ring controller are one step each. The task of \<open>main\<close> that sends the modules to the one that
  starts them is the list that one is given. The controllers in other languages serve measurements.
\<close>

end
